(* ===== verification/Lazy_Prelude.thy ===== *)
theory Lazy_Prelude
  imports Main "HOL-Library.Word"
begin

unbundle bit_operations_syntax

text \<open>
  Shared vocabulary of the LazyDB development.

  \<^item> The machine types of the Go sources: a byte is an \<open>8 word\<close>, \<open>uint32\<close> and
    \<open>int64\<close>/\<open>uint64\<close> are \<open>32 word\<close> and \<open>64 word\<close>. A Go \<open>[]byte\<close> whose
    nil-ness the code tests is a \<open>slice\<close> (\<open>None\<close> is nil), any other one is \<open>bytes\<close>.
  \<^item> The error values of all packages, with two more for the ways a Go program stops:
    \<open>Panic\<close> (a run-time panic) and \<open>Fatal\<close> (\<open>log.Fatal\<close>, the process exits).
  \<^item> Overwriting part of a byte sequence at an offset and cutting a piece out of it, with
    the frame lemmas that the file layer and the discard table use.
  \<^item> Little-endian encoding of a \<open>uint32\<close> (Go's \<open>encoding/binary\<close>).
\<close>

type_synonym byte = "8 word"
type_synonym bytes = "8 word list"
type_synonym slice = "8 word list option"
type_synonym u32 = "32 word"
type_synonym i64 = "64 word"
type_synonym u64 = "64 word"

datatype err =
    EOF | ErrNegativeOffset | ErrFileClosed
  | ErrInvalidFsize
  | ErrLogEndOfFile | ErrIllegalFileSize | ErrUnsupportedIoType | ErrUnsupportedFileType
  | ErrInvalidCrc | ErrWriteSizeNotEqual
  | ErrKeyNotFound | ErrLogFileNotExist | ErrOpenLogFile | ErrWrongIndex | ErrDatabaseClosed
  | ErrDiscardNoSpace
  | ErrInvalidParam
  | ErrWrongValueType | ErrIntegerOverFlow | ErrRegexp | ErrShortWrite
  | ErrTxClosed | ErrTxCommittingRollback
  | ErrZSetKeyNotExist | ErrZSetMemberNotExist
  | EINVAL
  | Fatal | Panic

type_synonym 'a result = "err + 'a"

text \<open>The errors after which the process does not go on: no caller can handle them.\<close>

definition crash :: "err \<Rightarrow> bool" where
  "crash e \<longleftrightarrow> e = Panic \<or> e = Fatal"

named_theorems io_simps "reading back what was written"
named_theorems frame_simps "what an operation leaves unchanged"

subsection \<open>Byte sequences\<close>

text \<open>The contents of a nil slice are empty.\<close>

definition bs :: "slice \<Rightarrow> bytes" where
  "bs s = (case s of None \<Rightarrow> [] | Some b \<Rightarrow> b)"

text \<open>The bytes of an ASCII literal.\<close>

definition str :: "string \<Rightarrow> bytes" where
  "str s = map of_char s"

text \<open>Overwriting at an offset; a gap behind the end is filled with zeros, as a file does.\<close>

definition write_at :: "bytes \<Rightarrow> nat \<Rightarrow> bytes \<Rightarrow> bytes" where
  "write_at c off b =
     (if b = [] then c
      else (let c' = c @ replicate (off - length c) 0
            in take off c' @ b @ drop (off + length b) c'))"

definition sub :: "bytes \<Rightarrow> nat \<Rightarrow> nat \<Rightarrow> bytes" where
  "sub c off n = take n (drop off c)"

text \<open>The Go slice expression \<open>buf[i:]\<close>.\<close>

definition slice_from :: "bytes \<Rightarrow> int \<Rightarrow> bytes result" where
  "slice_from buf i = (if 0 \<le> i \<and> i \<le> int (length buf) then Inr (drop (nat i) buf) else Inl Panic)"

subsection \<open>Little endian\<close>

definition le32 :: "u32 \<Rightarrow> bytes" where
  "le32 w = [ucast w, ucast (drop_bit 8 w), ucast (drop_bit 16 w), ucast (drop_bit 24 w)]"

fun un_le32 :: "bytes \<Rightarrow> u32 result" where
  "un_le32 (a # b # c # d # _) =
     Inr (ucast a OR push_bit 8 (ucast b) OR push_bit 16 (ucast c) OR push_bit 24 (ucast d))"
| "un_le32 _ = Inl Panic"

subsection \<open>Lemmas\<close>

lemma bs_simps [simp]: "bs None = []" "bs (Some b) = b"
  by (simp_all add: bs_def)

lemma length_str [simp]: "length (str s) = length s"
  by (simp add: str_def)

lemma write_at_Nil [simp]: "write_at c off [] = c"
  by (simp add: write_at_def)

lemma length_write_at:
  "b \<noteq> [] \<Longrightarrow> length (write_at c off b) = max (length c) (off + length b)"
  by (auto simp: write_at_def Let_def)

lemma length_write_at_le [simp]: "length c \<le> length (write_at c off b)"
  by (cases "b = []") (simp_all add: length_write_at)

lemma length_write_at_end [simp]: "b \<noteq> [] \<Longrightarrow> off + length b \<le> length (write_at c off b)"
  by (simp add: length_write_at)

lemma length_write_at_same [simp]:
  "off + length b \<le> length c \<Longrightarrow> length (write_at c off b) = length c"
  by (cases "b = []") (simp_all add: length_write_at)

lemma length_sub [simp]: "length (sub c off n) = min n (length c - off)"
  by (simp add: sub_def)

lemma sub_0_all [simp]: "sub c 0 (length c) = c"
  by (simp add: sub_def)

lemma sub_write_same [io_simps]: "sub (write_at c off b) off (length b) = b"
  by (auto simp: sub_def write_at_def Let_def)

lemma sub_write_before [frame_simps]:
  assumes "i + n \<le> off" "i + n \<le> length c"
  shows "sub (write_at c off b) i n = sub c i n"
  using assms by (auto simp: sub_def write_at_def Let_def min_def drop_take)

lemma sub_write_after [frame_simps]:
  assumes "off + length b \<le> i"
  shows "sub (write_at c off b) i n = sub c i n"
proof (cases "b = []")
  case False
  let ?c = "c @ replicate (off - length c) 0"
  have "length (take off ?c) = off" by simp
  then have "drop i (write_at c off b) = drop (i - off - length b) (drop (off + length b) ?c)"
    using assms False by (simp only: write_at_def Let_def if_False drop_append) simp
  then have "drop i (write_at c off b) = drop i ?c"
    using assms by simp
  moreover have "drop i (c @ replicate (off - length c) 0) = drop i c"
    using assms False by (cases "i \<le> length c") auto
  ultimately show ?thesis by (simp add: sub_def)
qed simp

lemma sub_sub: "i + n \<le> m \<Longrightarrow> sub (sub c off m) i n = sub c (off + i) n"
  by (simp add: sub_def drop_take min_def add.commute)

lemma sub_append_left: "i + n \<le> length a \<Longrightarrow> sub (a @ b) i n = sub a i n"
  by (simp add: sub_def)

lemma sub_prefix:
  assumes "sub c off (length a) = a" "length a \<le> n"
  shows "sub c off n = a @ sub c (off + length a) (n - length a)"
proof -
  have "sub c off n = take (length a) (drop off c) @ take (n - length a) (drop (length a) (drop off c))"
    unfolding sub_def using assms(2) by (metis le_add_diff_inverse take_add)
  then show ?thesis using assms(1) by (simp add: sub_def add.commute)
qed

lemma sub_Cons_append: "sub (a @ b) (length a) n = take n b"
  by (simp add: sub_def)

lemma length_le32 [simp]: "length (le32 w) = 4"
  by (simp add: le32_def)

lemma le32_not_Nil [simp]: "le32 w \<noteq> []"
  by (simp add: le32_def)

lemma ex_offset: "k \<le> (n :: nat) \<Longrightarrow> n < k + 8 \<Longrightarrow> \<exists>m < 8. n = k + m"
  by (rule exI [of _ "n - k"]) arith

lemma un_le32_le32 [simp]: "un_le32 (le32 w @ r) = Inr w"
proof -
  let ?v = "ucast (ucast w :: byte) OR push_bit 8 (ucast (ucast (drop_bit 8 w) :: byte))
      OR push_bit 16 (ucast (ucast (drop_bit 16 w) :: byte))
      OR push_bit 24 (ucast (ucast (drop_bit 24 w) :: byte)) :: u32"
  have "?v = w"
  proof (rule bit_word_eqI)
    fix n
    assume n: "n < LENGTH(32)"
    consider "n < 8" | m where "m < 8" "n = 8 + m" | m where "m < 8" "n = 16 + m"
      | m where "m < 8" "n = 24 + m"
      using n ex_offset [of 8 n] ex_offset [of 16 n] ex_offset [of 24 n]
      by (auto simp: not_less [symmetric])
    then show "bit ?v n = bit w n" by cases (auto simp: bit_simps)
  qed
  then show ?thesis by (simp add: le32_def)
qed

lemma not_bit_byte [simp]: "8 \<le> n \<Longrightarrow> \<not> bit (a :: byte) n"
  using bit_imp_le_length [of a n] by auto

lemma le32_un_le32: "un_le32 [a, b, c, d] = Inr w \<Longrightarrow> le32 w = [a, b, c, d]"
  by (auto simp: le32_def bit_simps intro!: bit_word_eqI)

end
