(* ===== verification/Go_Binary.thy ===== *)
theory Go_Binary
  imports Lazy_Prelude
begin

text \<open>
  What the sources use of Go's \<open>encoding/binary\<close> and \<open>strconv\<close>: variable-length
  integers (seven bits per byte, the high bit says that more bytes follow; a signed integer
  is mapped to an unsigned one by zig-zag first) and decimal integers.

  The round trips are stated on \<open>encoding @ rest\<close>, because the decoders read from a
  buffer that holds more than one field.
\<close>

subsection \<open>Variable-length integers\<close>

fun PutUvarint :: "nat \<Rightarrow> bytes" where
  "PutUvarint x =
     (if x < 128 then [word_of_nat x] else word_of_nat (x mod 128 + 128) # PutUvarint (x div 128))"

declare PutUvarint.simps [simp del]

text \<open>
  The loop of \<open>Uvarint\<close>: \<open>i\<close> counts the bytes read, \<open>x\<close> is the value so far. A
  negative count is an overflow, a zero count a buffer that ends too early.
\<close>

fun Uvarint_loop :: "nat \<Rightarrow> nat \<Rightarrow> bytes \<Rightarrow> nat \<times> int" where
  "Uvarint_loop i x [] = (0, 0)"
| "Uvarint_loop i x (b # r) =
     (if i = 10 then (0, - int (i + 1))
      else if unat b < 128
        then (if i = 9 \<and> 1 < unat b then (0, - int (i + 1))
              else (x + unat b * 2 ^ (7 * i), int (i + 1)))
      else Uvarint_loop (Suc i) (x + (unat b mod 128) * 2 ^ (7 * i)) r)"

definition Uvarint :: "bytes \<Rightarrow> nat \<times> int" where
  "Uvarint b = Uvarint_loop 0 0 b"

definition zigzag :: "i64 \<Rightarrow> nat" where
  "zigzag x = (if 0 \<le> sint x then nat (2 * sint x) else nat (- 2 * sint x - 1))"

definition unzigzag :: "nat \<Rightarrow> i64" where
  "unzigzag u = (if even u then word_of_nat (u div 2) else - word_of_nat (u div 2) - 1)"

definition PutVarint :: "i64 \<Rightarrow> bytes" where
  "PutVarint x = PutUvarint (zigzag x)"

definition Varint :: "bytes \<Rightarrow> i64 \<times> int" where
  "Varint b = (case Uvarint b of (u, n) \<Rightarrow> (unzigzag u, n))"

subsection \<open>Decimal integers\<close>

fun digits :: "nat \<Rightarrow> bytes" where
  "digits n = (if n < 10 then [word_of_nat (48 + n)] else digits (n div 10) @ [word_of_nat (48 + n mod 10)])"

declare digits.simps [simp del]

definition FormatInt :: "i64 \<Rightarrow> bytes" where
  "FormatInt x =
     (if 0 \<le> sint x then digits (nat (sint x)) else 45 # digits (nat (- sint x)))"

definition is_digit :: "byte \<Rightarrow> bool" where
  "is_digit b \<longleftrightarrow> 48 \<le> unat b \<and> unat b \<le> 57"

definition digits_val :: "bytes \<Rightarrow> nat" where
  "digits_val ds = foldl (\<lambda>n b. 10 * n + (unat b - 48)) 0 ds"

text \<open>
  \<open>ParseInt(s, 10, 64)\<close> and \<open>Atoi\<close>: an optional sign, at least one digit, only digits,
  and a value in the range of \<open>int64\<close>; anything else is an error.
\<close>

definition ParseInt :: "bytes \<Rightarrow> i64 option" where
  "ParseInt s =
     (let neg = (s \<noteq> [] \<and> hd s = 45);
          ds = (if s \<noteq> [] \<and> (hd s = 45 \<or> hd s = 43) then tl s else s);
          n = digits_val ds
      in if ds = [] \<or> \<not> list_all is_digit ds then None
         else if neg then (if n \<le> 2 ^ 63 then Some (- word_of_nat n) else None)
         else (if n < 2 ^ 63 then Some (word_of_nat n) else None))"

subsection \<open>Round trip of variable-length integers\<close>

lemma PutUvarint_small: "x < 128 \<Longrightarrow> PutUvarint x = [word_of_nat x]"
  by (simp add: PutUvarint.simps)

lemma PutUvarint_big:
  "128 \<le> x \<Longrightarrow> PutUvarint x = word_of_nat (x mod 128 + 128) # PutUvarint (x div 128)"
  by (subst PutUvarint.simps) simp

lemma PutUvarint_not_Nil [simp]: "PutUvarint x \<noteq> []"
  by (subst PutUvarint.simps) simp

lemma unat_byte_of_nat: "n < 256 \<Longrightarrow> unat (word_of_nat n :: byte) = n"
  by (simp add: unat_of_nat)

lemma Uvarint_loop_PutUvarint:
  "i \<le> 9 \<Longrightarrow> n < 2 ^ (64 - 7 * i) \<Longrightarrow>
   Uvarint_loop i x (PutUvarint n @ r) = (x + n * 2 ^ (7 * i), int (i + length (PutUvarint n)))"
proof (induction n arbitrary: i x rule: PutUvarint.induct)
  case (1 n)
  show ?case
  proof (cases "n < 128")
    case True
    moreover have "i = 9 \<Longrightarrow> n \<le> 1" using "1.prems"(2) by simp
    ultimately show ?thesis
      using "1.prems"(1) by (auto simp: PutUvarint_small unat_byte_of_nat)
  next
    case False
    have i8: "i \<le> 8" using "1.prems" False by (cases "i = 9") auto
    have "64 - 7 * i = 7 + (64 - 7 * Suc i)" using i8 by simp
    then have "2 ^ (64 - 7 * i) = (128 :: nat) * 2 ^ (64 - 7 * Suc i)"
      by (simp only: power_add) simp
    then have lt: "n div 128 < 2 ^ (64 - 7 * Suc i)"
      using "1.prems"(2) by (simp add: less_mult_imp_div_less mult.commute)
    have "n mod 128 * 2 ^ (7 * i) + n div 128 * 2 ^ (7 * Suc i) = n * 2 ^ (7 * i)"
    proof -
      obtain q r where qr: "n mod 128 = r" "n div 128 = q" by blast
      then have n: "n = r + q * 128" by auto
      have "r * 2 ^ (7 * i) + q * 2 ^ (7 * Suc i) = (r + q * 128) * 2 ^ (7 * i)"
        by (simp add: power_add algebra_simps)
      then show ?thesis by (simp only: qr n [symmetric])
    qed
    moreover have "unat (word_of_nat (n mod 128 + 128) :: byte) = n mod 128 + 128"
      by (rule unat_byte_of_nat) (simp add: less_imp_add_positive)
    ultimately show ?thesis
      using "1.IH" [of "Suc i" "x + n mod 128 * 2 ^ (7 * i)"] False i8 lt
      by (simp add: PutUvarint_big add.assoc)
  qed
qed

lemma Uvarint_PutUvarint [io_simps]:
  "n < 2 ^ 64 \<Longrightarrow> Uvarint (PutUvarint n @ r) = (n, int (length (PutUvarint n)))"
  using Uvarint_loop_PutUvarint [of 0 n 0 r] by (simp add: Uvarint_def)

lemma sint_i64_bounds: "- (2 ^ 63) \<le> sint (x :: i64)" "sint (x :: i64) < 2 ^ 63"
  using sint_ge [of x] sint_less [of x] by simp_all

lemma zigzag_less: "zigzag x < 2 ^ 64"
  using sint_i64_bounds [of x] by (auto simp: zigzag_def)

lemma unzigzag_zigzag [simp]: "unzigzag (zigzag x) = x"
proof (cases "0 \<le> sint x")
  case True
  have "even (nat (2 * sint x))" "nat (2 * sint x) div 2 = nat (sint x)"
    using True by (simp_all add: nat_mult_distrib)
  then show ?thesis using True by (simp add: unzigzag_def zigzag_def)
next
  case False
  let ?m = "nat (- sint x - 1)"
  have "nat (- 2 * sint x - 1) = Suc (2 * ?m)"
    using False by (simp add: nat_eq_iff)
  moreover have "odd (Suc (2 * ?m))" "Suc (2 * ?m) div 2 = ?m" by simp_all
  moreover have "(- word_of_nat ?m - 1 :: i64) = x"
    using False by simp
  ultimately show ?thesis using False by (simp add: unzigzag_def zigzag_def)
qed

lemma Varint_PutVarint [io_simps]:
  "Varint (PutVarint x @ r) = (x, int (length (PutVarint x)))"
  by (simp add: Varint_def PutVarint_def Uvarint_PutUvarint [OF zigzag_less])

lemma PutVarint_not_Nil [simp]: "PutVarint x \<noteq> []"
  by (simp add: PutVarint_def)

lemma length_PutUvarint_le: "n < 128 ^ k \<Longrightarrow> 0 < k \<Longrightarrow> length (PutUvarint n) \<le> k"
proof (induction k arbitrary: n)
  case (Suc k)
  show ?case
  proof (cases "n < 128")
    case False
    then have "k \<noteq> 0" using Suc.prems by (cases k) auto
    moreover have "n div 128 < 128 ^ k"
      using Suc.prems by (simp add: less_mult_imp_div_less mult.commute)
    ultimately show ?thesis using Suc.IH False by (simp add: PutUvarint_big)
  qed (simp add: PutUvarint_small)
qed simp

lemma length_PutVarint_10: "length (PutVarint x) \<le> 10"
  unfolding PutVarint_def using zigzag_less [of x] by (intro length_PutUvarint_le) auto

lemma sint_word_of_nat: "n < 2 ^ 63 \<Longrightarrow> sint (word_of_nat n :: i64) = int n"
  by (simp add: signed_of_nat signed_take_bit_int_eq_self)

lemma zigzag_of_nat: "n < 2 ^ 63 \<Longrightarrow> zigzag (word_of_nat n) = 2 * n"
  by (simp add: zigzag_def sint_word_of_nat nat_mult_distrib)

lemma length_PutVarint_of_nat:
  "n < 2 ^ 63 \<Longrightarrow> 2 * n < 128 ^ k \<Longrightarrow> 0 < k \<Longrightarrow> length (PutVarint (word_of_nat n)) \<le> k"
  by (simp add: PutVarint_def zigzag_of_nat length_PutUvarint_le)

subsection \<open>Round trip of decimal integers\<close>

lemma digits_step:
  "digits n = (if n < 10 then [word_of_nat (48 + n)]
    else digits (n div 10) @ [word_of_nat (48 + n mod 10)])"
  by (rule digits.simps)

lemma digits_val_snoc: "digits_val (ds @ [b]) = 10 * digits_val ds + (unat b - 48)"
  by (simp add: digits_val_def)

lemma unat_digit [simp]: "d < 10 \<Longrightarrow> unat (48 + word_of_nat d :: byte) = 48 + d"
  using unat_byte_of_nat [of "48 + d"] by simp

lemma is_digit_digit [simp]: "d < 10 \<Longrightarrow> is_digit (48 + word_of_nat d)"
  by (simp add: is_digit_def)

lemma digits_props: "digits_val (digits n) = n \<and> list_all is_digit (digits n) \<and> digits n \<noteq> []"
proof (induction n rule: digits.induct)
  case (1 n)
  show ?case
  proof (cases "n < 10")
    case True
    then show ?thesis by (subst (1 2 3) digits_step) (simp add: digits_val_def)
  next
    case False
    then show ?thesis
      using 1 by (subst (1 2 3) digits_step) (simp add: digits_val_snoc)
  qed
qed

lemmas digits_val_digits [simp] = digits_props [THEN conjunct1]
lemmas digits_all [simp] = digits_props [THEN conjunct2, THEN conjunct1]
lemmas digits_not_Nil [simp] = digits_props [THEN conjunct2, THEN conjunct2]

lemma digits_val_zeros: "digits_val (replicate k 48 @ ds) = digits_val ds"
proof -
  have "foldl (\<lambda>n b. 10 * n + (unat (b :: byte) - 48)) 0 (replicate k 48) = 0"
    by (induction k) simp_all
  then show ?thesis by (simp add: digits_val_def)
qed

lemma digit_not_special: "is_digit b \<Longrightarrow> b \<noteq> 46 \<and> b \<noteq> 45 \<and> b \<noteq> 43"
  by (auto simp: is_digit_def)

lemma ParseInt_digits:
  assumes "ds \<noteq> []" "list_all is_digit ds" "digits_val ds < 2 ^ 63"
  shows "ParseInt ds = Some (word_of_nat (digits_val ds))"
proof -
  have "is_digit (hd ds)" using assms(1,2) by (cases ds) auto
  then have "hd ds \<noteq> 45" "hd ds \<noteq> 43" using digit_not_special by auto
  then show ?thesis using assms by (simp add: ParseInt_def Let_def)
qed

lemma ParseInt_FormatInt: "ParseInt (FormatInt x) = Some x"
proof -
  have s: "- (2 ^ 63) \<le> sint x" "sint x < 2 ^ 63"
    using sint_greater_eq [of x] sint_less [of x] by simp_all
  show ?thesis
  proof (cases "0 \<le> sint x")
    case True
    then have "digits_val (digits (nat (sint x))) < 2 ^ 63" using s(2) by simp
    then have "ParseInt (digits (nat (sint x))) = Some (word_of_nat (nat (sint x)))"
      using ParseInt_digits [of "digits (nat (sint x))"] by simp
    then show ?thesis using True by (simp add: FormatInt_def)
  next
    case False
    then have "nat (- sint x) \<le> 2 ^ 63" using s(1) by simp
    then have "ParseInt (45 # digits (nat (- sint x))) = Some (- word_of_nat (nat (- sint x)))"
      by (simp add: ParseInt_def Let_def)
    moreover have "- word_of_nat (nat (- sint x)) = x"
      using False by simp
    ultimately show ?thesis using False by (simp add: FormatInt_def)
  qed
qed

lemma length_digits: "n < 10 ^ k \<Longrightarrow> 0 < k \<Longrightarrow> length (digits n) \<le> k"
proof (induction n arbitrary: k rule: digits.induct)
  case (1 n)
  show ?case
  proof (cases "n < 10")
    case True
    then show ?thesis using 1(3) by (subst digits_step) simp
  next
    case False
    then obtain j where k: "k = Suc j" "0 < j"
      using 1(2,3) by (cases k; cases "k - 1") auto
    then have "n div 10 < 10 ^ j" using 1(2) by (simp add: div_less_iff_less_mult mult.commute)
    then have "length (digits (n div 10)) \<le> j" using 1(1) False k by blast
    then show ?thesis using False k by (subst digits_step) simp
  qed
qed

lemma length_FormatInt: "length (FormatInt x) \<le> 20" "FormatInt x \<noteq> []"
proof -
  have "nat (sint x) < 10 ^ 19" "nat (- sint x) < 10 ^ 19"
    using sint_greater_eq [of x] sint_less [of x] by simp_all
  then show "length (FormatInt x) \<le> 20"
    using length_digits [of "nat (sint x)" 19] length_digits [of "nat (- sint x)" 19]
    by (simp add: FormatInt_def)
qed (simp add: FormatInt_def)

end
