(* ===== verification/IO_Controller.thy ===== *)
theory IO_Controller
  imports Lazy_Prelude
begin

text \<open>
  \<open>iocontroller/\<close>: reading and writing a file at an offset, through a file descriptor
  (\<open>fileio.go\<close>) or a shared memory mapping (\<open>mmap.go\<close>).

  The operating system is a map from file names to contents. Its calls succeed, except that
  a read beyond the end of the file gives \<open>io.EOF\<close>; a descriptor whose file has been removed
  gives an error. The interface \<open>IOController\<close> of \<open>io_controller.go\<close> is the locale
  \<open>io_controller\<close>: its laws say which reads and writes succeed and with what result, its
  lemmas are what the log files and the discard table rely on. It is interpreted on both
  implementations; they differ in which reads succeed.
\<close>

type_synonym fs = "bytes \<Rightarrow> bytes option"

datatype IOController =
    FileIOController bytes
  | MMapController bytes int

subsection \<open>Opening\<close>

definition openFile :: "bytes \<Rightarrow> int \<Rightarrow> fs \<Rightarrow> fs" where
  "openFile fName fsize d =
     (let c = (case d fName of None \<Rightarrow> [] | Some c \<Rightarrow> c)
      in if int (length c) < fsize then d(fName \<mapsto> c @ replicate (nat fsize - length c) 0)
         else d(fName \<mapsto> c))"

definition NewFileIOController :: "bytes \<Rightarrow> int \<Rightarrow> fs \<Rightarrow> (IOController \<times> fs) result" where
  "NewFileIOController fName fsize d =
     (if fsize \<le> 0 then Inl ErrInvalidFsize
      else Inr (FileIOController fName, openFile fName fsize d))"

definition NewMMapController :: "bytes \<Rightarrow> int \<Rightarrow> fs \<Rightarrow> (IOController \<times> fs) result" where
  "NewMMapController fName fsize d =
     (if fsize \<le> 0 then Inl ErrInvalidFsize
      else Inr (MMapController fName fsize, openFile fName fsize d))"

subsection \<open>Reading and writing\<close>

text \<open>\<open>WriteAt\<close> and \<open>ReadAt\<close> of \<open>os.File\<close> on the contents of the file.\<close>

definition FileIO_Write :: "bytes \<Rightarrow> bytes \<Rightarrow> int \<Rightarrow> (nat \<times> bytes) result" where
  "FileIO_Write c b offset =
     (if offset < 0 then Inl ErrNegativeOffset else Inr (length b, write_at c (nat offset) b))"

definition FileIO_Read :: "bytes \<Rightarrow> nat \<Rightarrow> int \<Rightarrow> bytes result" where
  "FileIO_Read c n offset =
     (if offset < 0 then Inl ErrNegativeOffset
      else if n = 0 then Inr []
      else if nat offset + n \<le> length c then Inr (sub c (nat offset) n) else Inl EOF)"

definition MMap_Write :: "int \<Rightarrow> bytes \<Rightarrow> bytes \<Rightarrow> int \<Rightarrow> (nat \<times> bytes) result" where
  "MMap_Write bufLen c b offset =
     (let len = int (length b)
      in if len \<le> 0 then Inr (0, c)
         else if offset < 0 \<or> offset + len > bufLen then Inl EOF
         else Inr (length b, write_at c (nat offset) b))"

definition MMap_Read :: "int \<Rightarrow> bytes \<Rightarrow> nat \<Rightarrow> int \<Rightarrow> bytes result" where
  "MMap_Read bufLen c n offset =
     (if offset < 0 \<or> offset \<ge> bufLen \<or> offset + int n \<ge> bufLen then Inl EOF
      else Inr (sub c (nat offset) n))"

subsection \<open>Method calls on a controller\<close>

fun ctl_name :: "IOController \<Rightarrow> bytes" where
  "ctl_name (FileIOController f) = f"
| "ctl_name (MMapController f _) = f"

fun ctl_write :: "IOController \<Rightarrow> bytes \<Rightarrow> bytes \<Rightarrow> int \<Rightarrow> (nat \<times> bytes) result" where
  "ctl_write (FileIOController _) = FileIO_Write"
| "ctl_write (MMapController _ l) = MMap_Write l"

fun ctl_read :: "IOController \<Rightarrow> bytes \<Rightarrow> nat \<Rightarrow> int \<Rightarrow> bytes result" where
  "ctl_read (FileIOController _) = FileIO_Read"
| "ctl_read (MMapController _ l) = MMap_Read l"

definition IO_Write :: "IOController \<Rightarrow> bytes \<Rightarrow> int \<Rightarrow> fs \<Rightarrow> nat result \<times> fs" where
  "IO_Write h b offset d =
     (case d (ctl_name h) of
        None \<Rightarrow> (Inl ErrFileClosed, d)
      | Some c \<Rightarrow>
          (case ctl_write h c b offset of
             Inl e \<Rightarrow> (Inl e, d)
           | Inr (n, c') \<Rightarrow> (Inr n, d(ctl_name h \<mapsto> c'))))"

definition IO_Read :: "IOController \<Rightarrow> fs \<Rightarrow> nat \<Rightarrow> int \<Rightarrow> bytes result" where
  "IO_Read h d n offset =
     (case d (ctl_name h) of None \<Rightarrow> Inl ErrFileClosed | Some c \<Rightarrow> ctl_read h c n offset)"

text \<open>Sync and Close leave the contents as they are; Delete removes the file.\<close>

definition IO_Sync :: "IOController \<Rightarrow> fs \<Rightarrow> unit result" where
  "IO_Sync h d = (if d (ctl_name h) = None then Inl ErrFileClosed else Inr ())"

definition IO_Close :: "IOController \<Rightarrow> fs \<Rightarrow> unit result" where
  "IO_Close h d = (if d (ctl_name h) = None then Inl ErrFileClosed else Inr ())"

definition IO_Delete :: "IOController \<Rightarrow> fs \<Rightarrow> unit result \<times> fs" where
  "IO_Delete h d =
     (if d (ctl_name h) = None then (Inl ErrFileClosed, d) else (Inr (), d(ctl_name h := None)))"

subsection \<open>The interface\<close>

text \<open>
  \<open>can_rd l off n\<close>: a read of \<open>n\<close> bytes at \<open>off\<close> from a file of length \<open>l\<close>
  succeeds; \<open>can_wr off n\<close>: a write succeeds; \<open>ok c\<close>: what the implementation needs of
  the file it works on.
\<close>

locale io_controller =
  fixes wr :: "bytes \<Rightarrow> bytes \<Rightarrow> int \<Rightarrow> (nat \<times> bytes) result"
    and rd :: "bytes \<Rightarrow> nat \<Rightarrow> int \<Rightarrow> bytes result"
    and can_wr :: "nat \<Rightarrow> nat \<Rightarrow> bool"
    and can_rd :: "nat \<Rightarrow> nat \<Rightarrow> nat \<Rightarrow> bool"
    and ok :: "bytes \<Rightarrow> bool"
  assumes wr_ok: "can_wr off (length b) \<Longrightarrow> wr c b (int off) = Inr (length b, write_at c off b)"
    and wr_fail: "\<not> can_wr off (length b) \<Longrightarrow> wr c b (int off) = Inl EOF"
    and ok_wr: "ok c \<Longrightarrow> can_wr off (length b) \<Longrightarrow> ok (write_at c off b)"
    and rd_ok: "can_rd (length c) off n \<Longrightarrow> rd c n (int off) = Inr (sub c off n)"
    and rd_fail: "\<not> can_rd (length c) off n \<Longrightarrow> rd c n (int off) = Inl EOF"
    and can_rd_mono: "can_rd l off n \<Longrightarrow> l \<le> l' \<Longrightarrow> can_rd l' off n"
    and can_rd_part: "can_rd l off n \<Longrightarrow> i + m \<le> n \<Longrightarrow> can_rd l (off + i) m"
begin

lemma read_own_write:
  assumes "wr c b (int off) = Inr (n, c')" "can_rd (length c') off (length b)"
  shows "n = length b" "rd c' (length b) (int off) = Inr b"
  using assms wr_ok [of off b c] wr_fail [of off b c]
  by (cases "can_wr off (length b)"; auto simp: rd_ok io_simps)+

lemma read_other_write:
  assumes "wr c b (int off) = Inr (k, c')" "can_rd (length c) i n"
    and "i + n \<le> off \<and> i + n \<le> length c \<or> off + length b \<le> i"
  shows "rd c' n (int i) = rd c n (int i)"
proof -
  have c': "c' = write_at c off b"
    using assms(1) wr_ok [of off b c] wr_fail [of off b c] by (cases "can_wr off (length b)") auto
  have "can_rd (length c') i n"
    unfolding c' using assms(2) by (rule can_rd_mono) simp
  moreover have "sub c' i n = sub c i n"
    using assms(3) unfolding c' by (auto simp: frame_simps)
  ultimately show ?thesis using assms(2) by (simp add: rd_ok)
qed

lemma write_keeps_ok: "ok c \<Longrightarrow> wr c b (int off) = Inr (n, c') \<Longrightarrow> ok c'"
  using wr_ok [of off b c] wr_fail [of off b c] ok_wr by (cases "can_wr off (length b)") auto

end

interpretation fileio: io_controller FileIO_Write FileIO_Read "\<lambda>off n. True"
  "\<lambda>l off n. n = 0 \<or> off + n \<le> l" "\<lambda>c. True"
  by unfold_locales (auto simp: FileIO_Write_def FileIO_Read_def sub_def)

text \<open>
  The mapping is \<open>L\<close> bytes long and the file at least as long. A read that ends exactly at
  the end of the mapping fails.
\<close>

interpretation mmapio: io_controller "MMap_Write L" "MMap_Read L"
  "\<lambda>off n. n = 0 \<or> int (off + n) \<le> L"
  "\<lambda>l off n. int (off + n) < L"
  "\<lambda>c. L \<le> int (length c)" for L
proof unfold_locales
  fix off and b c :: bytes
  assume "L \<le> int (length c)" "length b = 0 \<or> int (off + length b) \<le> L"
  then show "L \<le> int (length (write_at c off b))"
    by (metis length_write_at_le of_nat_le_iff order_trans)
qed (auto simp: MMap_Write_def MMap_Read_def Let_def)

subsection \<open>Lemmas\<close>

lemma openFile_lookup:
  "openFile f n d f =
     Some (let c = (case d f of None \<Rightarrow> [] | Some c \<Rightarrow> c) in c @ replicate (nat n - length c) 0)"
  by (auto simp: openFile_def Let_def split: option.splits)

lemma openFile_other [frame_simps]: "g \<noteq> f \<Longrightarrow> openFile f n d g = d g"
  by (auto simp: openFile_def Let_def)

lemma openFile_new: "d f = None \<Longrightarrow> openFile f n d f = Some (replicate (nat n) 0)"
  by (simp add: openFile_lookup)

lemma openFile_same: "d f = Some c \<Longrightarrow> n \<le> int (length c) \<Longrightarrow> openFile f n d = d"
  by (auto simp: openFile_def Let_def)

subsection \<open>Properties\<close>

text \<open>
  Both controllers return what was written: after a write that succeeds, a read of the same
  range gives the bytes written and a read of another range inside the file is unchanged. The
  mapping differs in one case only: a read whose range ends at the end of the mapping fails
  with EOF, although the write there succeeds.
\<close>

theorem controllers_read_back:
  assumes wr: "ctl_write h c b (int off) = Inr (n, c')" and b: "b \<noteq> []"
    and map: "\<And>f L. h = MMapController f L \<Longrightarrow> L \<le> int (length c)"
  shows "n = length b \<and> ctl_read h c' (length b) (int off) =
      (case h of MMapController f L \<Rightarrow> if int (off + length b) = L then Inl EOF else Inr b | _ \<Rightarrow> Inr b) \<and>
      ((i + m \<le> off \<or> off + length b \<le> i) \<and> i + m < length c \<longrightarrow>
         ctl_read h c' m (int i) = ctl_read h c m (int i))"
proof (cases h)
  case (FileIOController f)
  have w: "FileIO_Write c b (int off) = Inr (n, c')" using wr FileIOController by simp
  then have "c' = write_at c off b" by (simp add: FileIO_Write_def)
  then show ?thesis
    using FileIOController fileio.read_own_write [OF w] fileio.read_other_write [OF w, where i = i and n = m] b by auto
next
  case (MMapController f L)
  have w: "MMap_Write L c b (int off) = Inr (n, c')" using wr MMapController by simp
  then have le: "int (off + length b) \<le> L"
    using b by (auto simp: MMap_Write_def Let_def split: if_splits)
  have "MMap_Read L c' m (int i) = MMap_Read L c m (int i)"
    if "i + m \<le> off \<or> off + length b \<le> i" "i + m < length c"
    using mmapio.read_other_write [OF w, where i = i and n = m] that
    by (cases "int (i + m) < L") (auto simp: MMap_Read_def)
  moreover have "MMap_Read L c' (length b) (int off) = (if int (off + length b) = L then Inl EOF else Inr b)"
    using mmapio.read_own_write [OF w] le by (auto simp: MMap_Read_def)
  ultimately show ?thesis using MMapController mmapio.read_own_write [OF w] w b
    by (auto simp: MMap_Write_def Let_def split: if_splits)
qed

theorem controllers_read_back_witness:
  "ctl_read (FileIOController []) [0, 0, 7, 8] 2 2 = Inr [7, 8] \<and>
   ctl_read (MMapController [] 4) [0, 0, 7, 8] 2 2 = Inl EOF \<and>
   ctl_read (MMapController [] 4) [0, 7, 8, 0] 2 1 = Inr [7, 8]"
  using controllers_read_back [of "FileIOController []" "[0, 0, 0, 0]" "[7, 8]" 2 2 "[0, 0, 7, 8]"]
    controllers_read_back [of "MMapController [] 4" "[0, 0, 0, 0]" "[7, 8]" 2 2 "[0, 0, 7, 8]"]
    controllers_read_back [of "MMapController [] 4" "[0, 0, 0, 0]" "[7, 8]" 1 2 "[0, 7, 8, 0]"]
  by (simp add: FileIO_Write_def MMap_Write_def write_at_def numeral_2_eq_2)

end
