(* ===== verification/Discard.thy ===== *)
theory Discard
  imports Complex_Main Go_Binary IO_Controller
begin

text \<open>
  \<open>discard.go\<close>: the table that records, per log file, its size and how many bytes of it are
  no longer referenced, and the channel through which the database reports them.

  The table is a file of 12-byte records (file id, total size, discarded size), a list of
  free record offsets and a map from file ids to offsets. The channel is a bounded queue;
  the goroutine \<open>listenUpdate\<close> that empties it is the step \<open>listenUpdate_step\<close>, which may
  run between any two operations. The abstraction \<open>disc_tab\<close> is a map from file ids to the
  two sizes; each operation is proved to act on it as its name says and to leave every other
  record alone. \<open>discard_wf\<close> is the invariant of the allocator, \<open>recorded\<close> says that every
  record names its file, which reopening the table relies on.
\<close>

subsection \<open>Index nodes (db.go)\<close>

datatype valueType =
    valueTypeString | valueTypeList | valueTypeHash | valueTypeSet | valueTypeZSet

record Value_t =
  v_value :: slice
  v_vType :: valueType
  v_fid :: u32
  v_offset :: int
  v_entrySize :: int
  v_expiredAt :: i64

subsection \<open>State\<close>

definition discardRecordSize :: nat where "discardRecordSize = 12"
definition discardFileSize :: int where "discardFileSize = 8192"

record discard =
  d_once :: bool
  d_file :: bytes
  valChan :: "Value_t list"
  chanCap :: nat
  chanClosed :: bool
  freeList :: "int list"
  location :: "u32 \<Rightarrow> int option"

text \<open>\<open>binary.LittleEndian.Uint32\<close> on a buffer the code has just made, at least four bytes long.\<close>

definition uint32_of :: "bytes \<Rightarrow> u32" where
  "uint32_of b = (case un_le32 b of Inr w \<Rightarrow> w | Inl _ \<Rightarrow> 0)"

subsection \<open>Opening\<close>

function newDiscard_loop ::
    "bytes \<Rightarrow> nat \<Rightarrow> int list \<Rightarrow> (u32 \<Rightarrow> int option) \<Rightarrow> (int list \<times> (u32 \<Rightarrow> int option)) result" where
  "newDiscard_loop file offset free loc =
     (case FileIO_Read file discardRecordSize (int offset) of
        Inl e \<Rightarrow> if e = EOF \<or> e = ErrLogEndOfFile then Inr (free, loc) else Inl e
      | Inr buf \<Rightarrow>
          (let fid = uint32_of (take 4 buf); tot = uint32_of (take 4 (drop 4 buf))
           in if fid = 0 \<and> tot = 0
              then newDiscard_loop file (offset + discardRecordSize) (free @ [int offset]) loc
              else newDiscard_loop file (offset + discardRecordSize) free (loc(fid \<mapsto> int offset))))"
  by pat_completeness auto
termination
  by (relation "measure (\<lambda>(file, offset, free, loc). length file - offset)")
    (auto simp: FileIO_Read_def discardRecordSize_def split: if_splits)

declare newDiscard_loop.simps [simp del]

text \<open>\<open>old\<close> is what the file holds on disk, if it exists.\<close>

definition newDiscard :: "bytes option \<Rightarrow> nat \<Rightarrow> discard result" where
  "newDiscard old buffersize =
     (let c = (case old of None \<Rightarrow> [] | Some c \<Rightarrow> c);
          file = (if int (length c) < discardFileSize then c @ replicate (nat discardFileSize - length c) 0
                  else c)
      in case newDiscard_loop file 0 [] Map.empty of
           Inl e \<Rightarrow> Inl e
         | Inr (free, loc) \<Rightarrow>
             Inr \<lparr>d_once = False, d_file = file, valChan = [], chanCap = buffersize, chanClosed = False,
               freeList = free, location = loc\<rparr>)"

subsection \<open>Operations\<close>

definition alloc :: "discard \<Rightarrow> u32 \<Rightarrow> int result \<times> discard" where
  "alloc d fid =
     (case location d fid of
        Some offset \<Rightarrow> (Inr offset, d)
      | None \<Rightarrow>
          if length (freeList d) = 0 then (Inl ErrDiscardNoSpace, d)
          else let offset = last (freeList d)
               in (Inr offset, d\<lparr>freeList := butlast (freeList d), location := (location d)(fid \<mapsto> offset)\<rparr>))"

text \<open>\<open>d.file.Write(buf, offset)\<close>; an error is fatal in every caller.\<close>

definition file_put :: "discard \<Rightarrow> bytes \<Rightarrow> int \<Rightarrow> unit result \<times> discard" where
  "file_put d buf offset =
     (case FileIO_Write (d_file d) buf offset of
        Inl e \<Rightarrow> (Inl Fatal, d)
      | Inr (n, c) \<Rightarrow> (Inr (), d\<lparr>d_file := c\<rparr>))"

definition removeDiscard :: "discard \<Rightarrow> u32 \<Rightarrow> unit result \<times> discard" where
  "removeDiscard d fid =
     (if fid = 0 then (Inr (), d)
      else case location d fid of
        None \<Rightarrow> (Inr (), d)
      | Some offset \<Rightarrow>
          (case file_put d (replicate discardRecordSize 0) offset of
             (Inl e, d1) \<Rightarrow> (Inl e, d1)
           | (Inr _, d1) \<Rightarrow>
               (Inr (), d1\<lparr>location := (location d1)(fid := None), freeList := freeList d1 @ [offset]\<rparr>)))"

definition incrDiscard :: "discard \<Rightarrow> u32 \<Rightarrow> int \<Rightarrow> unit result \<times> discard" where
  "incrDiscard d fid delta =
     (if delta \<le> 0 then (Inr (), d)
      else case alloc d fid of
        (Inl e, d1) \<Rightarrow> (Inl Fatal, d1)
      | (Inr off, d1) \<Rightarrow>
          (let offset = off + 8
           in case FileIO_Read (d_file d1) 4 offset of
                Inl e \<Rightarrow> (Inl Fatal, d1)
              | Inr buf \<Rightarrow>
                  (let v = uint32_of (take 4 buf)
                   in file_put d1 (le32 (v + word_of_int delta)) offset)))"

definition setTotal :: "discard \<Rightarrow> u32 \<Rightarrow> u32 \<Rightarrow> unit result \<times> discard" where
  "setTotal d fid tot =
     (if fid = 0 \<or> tot = 0 then (Inr (), d)
      else if location d fid \<noteq> None then (Inr (), d)
      else case alloc d fid of
        (Inl e, d1) \<Rightarrow> (Inl Fatal, d1)
      | (Inr offset, d1) \<Rightarrow> file_put d1 (le32 fid @ le32 tot) offset)"

definition clear :: "discard \<Rightarrow> u32 \<Rightarrow> unit result \<times> discard" where
  "clear d fid =
     (case alloc d fid of
        (Inl e, d1) \<Rightarrow> (Inl Fatal, d1)
      | (Inr offset, d1) \<Rightarrow>
          (case file_put d1 (replicate discardRecordSize 0) offset of
             (Inl e, d2) \<Rightarrow> (Inl e, d2)
           | (Inr _, d2) \<Rightarrow>
               (case location d2 fid of
                  None \<Rightarrow> (Inr (), d2)
                | Some offset' \<Rightarrow>
                    (Inr (), d2\<lparr>freeList := freeList d2 @ [offset'], location := (location d2)(fid := None)\<rparr>))))"

subsection \<open>The channel\<close>

text \<open>The \<open>select\<close> with a default branch: a full channel ends the process.\<close>

definition chan_send :: "discard \<Rightarrow> Value_t \<Rightarrow> unit result \<times> discard" where
  "chan_send d node =
     (if chanClosed d then (Inl Panic, d)
      else if length (valChan d) < chanCap d then (Inr (), d\<lparr>valChan := valChan d @ [node]\<rparr>)
      else (Inl Fatal, d))"

text \<open>One turn of the goroutine; \<open>None\<close> when it waits or has ended.\<close>

definition listenUpdate_step :: "discard \<Rightarrow> (unit result \<times> discard) option" where
  "listenUpdate_step d =
     (case valChan d of
        [] \<Rightarrow> None
      | v # vs \<Rightarrow> Some (incrDiscard (d\<lparr>valChan := vs\<rparr>) (v_fid v) (v_entrySize v)))"

definition chan_close :: "discard \<Rightarrow> unit result \<times> discard" where
  "chan_close d = (if chanClosed d then (Inl Panic, d) else (Inr (), d\<lparr>chanClosed := True\<rparr>))"

definition closeChan :: "discard \<Rightarrow> unit result \<times> discard" where
  "closeChan d = (if d_once d then (Inr (), d) else chan_close (d\<lparr>d_once := True\<rparr>))"

subsection \<open>Compaction candidates\<close>

text \<open>
  The quotient of two \<open>uint32\<close> values as a \<open>float64\<close>: both operands are exact, the quotient
  is rounded to 53 significant bits, ties to even. \<open>quot_shift\<close> is the power of two that
  brings the quotient into \<open>[2^52, 2^53)\<close>.
\<close>

definition round_even :: "rat \<Rightarrow> int" where
  "round_even x =
     (let f = \<lfloor>x\<rfloor>; r = x - of_int f
      in if r < 1/2 \<or> (r = 1/2 \<and> even f) then f else f + 1)"

fun quot_shift :: "nat \<Rightarrow> nat \<Rightarrow> nat \<Rightarrow> nat \<Rightarrow> nat" where
  "quot_shift 0 s v t = s"
| "quot_shift (Suc n) s v t = (if 2 ^ 52 * t \<le> v * 2 ^ s then s else quot_shift n (Suc s) v t)"

definition f64_quot :: "u32 \<Rightarrow> u32 \<Rightarrow> rat" where
  "f64_quot v t =
     (if v = 0 then 0
      else let s = quot_shift 100 0 (unat v) (unat t)
           in of_int (round_even (of_nat (unat v * 2 ^ s) / of_nat (unat t))) / 2 ^ s)"

function getCCL_loop :: "bytes \<Rightarrow> nat \<Rightarrow> u32 \<Rightarrow> rat \<Rightarrow> u32 list \<Rightarrow> u32 list result" where
  "getCCL_loop file offset activeFid ratio ccl =
     (case FileIO_Read file discardRecordSize (int offset) of
        Inl e \<Rightarrow> if e = ErrLogEndOfFile \<or> e = EOF then Inr ccl else Inl e
      | Inr buf \<Rightarrow>
          (let fid = uint32_of (take 4 buf); totalSize = uint32_of (take 4 (drop 4 buf));
               v = uint32_of (take 4 (drop 8 buf));
               curRatio = (if totalSize \<noteq> 0 \<and> fid \<noteq> 0 then f64_quot v totalSize else 0)
           in if fid = activeFid
              then getCCL_loop file (offset + discardRecordSize) activeFid ratio ccl
              else getCCL_loop file (offset + discardRecordSize) activeFid ratio
                (if ratio < curRatio then ccl @ [fid] else ccl)))"
  by pat_completeness auto
termination
  by (relation "measure (\<lambda>(file, offset, a, r, ccl). length file - offset)")
    (auto simp: FileIO_Read_def discardRecordSize_def split: if_splits)

declare getCCL_loop.simps [simp del]

definition getCCL :: "discard \<Rightarrow> u32 \<Rightarrow> rat \<Rightarrow> u32 list result" where
  "getCCL d activeFid ratio =
     (case getCCL_loop (d_file d) 0 activeFid ratio [] of Inl e \<Rightarrow> Inl e | Inr ccl \<Rightarrow> Inr (sort ccl))"

subsection \<open>Invariants and abstraction\<close>

definition slots :: "int set" where
  "slots = (\<lambda>i. int (12 * i)) ` {..<682}"

definition discard_wf :: "discard \<Rightarrow> bool" where
  "discard_wf d \<longleftrightarrow> length (d_file d) = 8192 \<and> distinct (freeList d) \<and>
     set (freeList d) \<union> ran (location d) = slots \<and> set (freeList d) \<inter> ran (location d) = {} \<and>
     inj_on (location d) (dom (location d)) \<and>
     (\<forall>off \<in> set (freeList d). sub (d_file d) (nat off) 12 = replicate 12 0)"

definition rec_fid :: "bytes \<Rightarrow> int \<Rightarrow> u32" where
  "rec_fid c off = uint32_of (sub c (nat off) 4)"

definition rec_total :: "bytes \<Rightarrow> int \<Rightarrow> u32" where
  "rec_total c off = uint32_of (sub c (nat off + 4) 4)"

definition rec_disc :: "bytes \<Rightarrow> int \<Rightarrow> u32" where
  "rec_disc c off = uint32_of (sub c (nat off + 8) 4)"

definition disc_tab :: "discard \<Rightarrow> u32 \<Rightarrow> (u32 \<times> u32) option" where
  "disc_tab d fid = map_option (\<lambda>off. (rec_total (d_file d) off, rec_disc (d_file d) off)) (location d fid)"

definition recorded :: "discard \<Rightarrow> bool" where
  "recorded d \<longleftrightarrow> (\<forall>fid off. location d fid = Some off \<longrightarrow>
     fid \<noteq> 0 \<and> rec_fid (d_file d) off = fid \<and> rec_total (d_file d) off \<noteq> 0)"

definition discard_ok :: "discard \<Rightarrow> bool" where
  "discard_ok d \<longleftrightarrow> discard_wf d \<and> recorded d"

subsection \<open>Slots\<close>

lemma slotD: "off \<in> slots \<Longrightarrow> 0 \<le> off \<and> nat off + 12 \<le> 8192"
  by (auto simp: slots_def)

lemma slots_apart:
  assumes "off \<in> slots" "off' \<in> slots" "off \<noteq> off'"
  shows "nat off + 12 \<le> nat off' \<or> nat off' + 12 \<le> nat off"
  using assms by (auto simp: slots_def)

lemma sub_other_slot [frame_simps]:
  assumes "off \<in> slots" "off' \<in> slots" "off \<noteq> off'" "i + n \<le> 12" "j + length b \<le> 12" "length c = 8192"
  shows "sub (write_at c (nat off + j) b) (nat off' + i) n = sub c (nat off' + i) n"
  using slots_apart [OF assms(1-3)]
proof
  assume "nat off + 12 \<le> nat off'"
  then show ?thesis using assms(4,5) by (intro sub_write_after) simp
next
  assume "nat off' + 12 \<le> nat off"
  then show ?thesis using assms(4-6) slotD [OF assms(2)] by (intro sub_write_before) simp_all
qed

lemma rec_other_slot [frame_simps]:
  assumes "off \<in> slots" "off' \<in> slots" "off \<noteq> off'" "j + length b \<le> 12" "length c = 8192"
  shows "rec_fid (write_at c (nat off + j) b) off' = rec_fid c off'"
    "rec_total (write_at c (nat off + j) b) off' = rec_total c off'"
    "rec_disc (write_at c (nat off + j) b) off' = rec_disc c off'"
    "sub (write_at c (nat off + j) b) (nat off') 12 = sub c (nat off') 12"
  using assms sub_other_slot [of off off' 0 4 j b c] sub_other_slot [of off off' 0 12 j b c]
  by (simp_all add: rec_fid_def rec_total_def rec_disc_def sub_other_slot)

lemma uint32_of_le32 [simp]: "uint32_of (le32 w) = w" "uint32_of (le32 w @ r) = w"
  using un_le32_le32 [of w "[]"] un_le32_le32 [of w r] by (simp_all add: uint32_of_def)

lemma uint32_of_zeros [simp]: "uint32_of (replicate 4 0) = 0"
  by (simp add: uint32_of_def numeral_eq_Suc)

lemma rec_zero:
  assumes "sub c (nat off) 12 = replicate 12 0"
  shows "rec_fid c off = 0" "rec_total c off = 0" "rec_disc c off = 0"
proof -
  have z: "sub c (nat off + i) 4 = replicate 4 0" if "i \<le> 8" for i
  proof -
    have "min 4 (12 - i) = 4" using that by simp
    then have "sub (replicate 12 0) i 4 = replicate 4 0" by (simp only: sub_def drop_replicate take_replicate)
    then show ?thesis using sub_sub [of i 4 12 c "nat off"] assms that by simp
  qed
  show "rec_fid c off = 0" "rec_total c off = 0" "rec_disc c off = 0"
    using z [of 0] z [of 4] z [of 8] by (simp_all add: rec_fid_def rec_total_def rec_disc_def)
qed

subsection \<open>The allocator\<close>

lemma wfD:
  assumes "discard_wf d"
  shows "length (d_file d) = 8192" "distinct (freeList d)" "set (freeList d) \<subseteq> slots"
    "location d fid = Some off \<Longrightarrow> off \<in> slots \<and> off \<notin> set (freeList d)"
    "location d fid = Some off \<Longrightarrow> location d g = Some off \<Longrightarrow> g = fid"
    "off \<in> set (freeList d) \<Longrightarrow> sub (d_file d) (nat off) 12 = replicate 12 0"
proof -
  note w = assms [unfolded discard_wf_def]
  show "length (d_file d) = 8192" "distinct (freeList d)" "set (freeList d) \<subseteq> slots"
    "off \<in> set (freeList d) \<Longrightarrow> sub (d_file d) (nat off) 12 = replicate 12 0"
    using w by blast+
  show "location d fid = Some off \<Longrightarrow> off \<in> slots \<and> off \<notin> set (freeList d)"
    using w by (metis IntI UnCI emptyE ranI)
  show "location d fid = Some off \<Longrightarrow> location d g = Some off \<Longrightarrow> g = fid"
    using w by (metis domI inj_onD)
qed

lemma alloc_full:
  "location d fid = None \<Longrightarrow> freeList d = [] \<Longrightarrow> alloc d fid = (Inl ErrDiscardNoSpace, d)"
  by (simp add: alloc_def)

lemma alloc_known: "location d fid = Some off \<Longrightarrow> alloc d fid = (Inr off, d)"
  by (simp add: alloc_def)

lemma alloc_new:
  assumes wf: "discard_wf d" and "location d fid = None" "freeList d \<noteq> []"
  defines "off \<equiv> last (freeList d)"
  defines "d' \<equiv> d\<lparr>freeList := butlast (freeList d), location := (location d)(fid \<mapsto> off)\<rparr>"
  shows "alloc d fid = (Inr off, d')" "discard_wf d'" "off \<in> slots"
    "sub (d_file d) (nat off) 12 = replicate 12 0"
proof -
  note w = wf [unfolded discard_wf_def]
  obtain xs where xs: "freeList d = xs @ [off]"
    using assms(3) append_butlast_last_id [of "freeList d"] unfolding off_def by metis
  show "alloc d fid = (Inr off, d')"
    using assms(2,3) by (simp add: alloc_def d'_def off_def Let_def)
  show "off \<in> slots" "sub (d_file d) (nat off) 12 = replicate 12 0"
    using wfD(3,6) [OF wf] xs by auto
  have ran: "ran ((location d)(fid \<mapsto> off)) = insert off (ran (location d))"
    using assms(2) by (rule ran_map_upd)
  have "off \<notin> ran (location d)" using w xs by auto
  then have "inj_on ((location d)(fid \<mapsto> off)) (insert fid (dom (location d)))"
    using w assms(2) by (auto simp: inj_on_def ran_def dom_def)
  then show "discard_wf d'"
    using w xs ran \<open>off \<notin> ran (location d)\<close> unfolding discard_wf_def d'_def by auto
qed

lemma file_put_slot:
  assumes wf: "discard_wf d" and loc: "location d fid = Some off" and "j + length b \<le> 12"
  defines "d' \<equiv> d\<lparr>d_file := write_at (d_file d) (nat off + j) b\<rparr>"
  shows "file_put d b (off + int j) = (Inr (), d')" "discard_wf d'"
    and "\<And>g. g \<noteq> fid \<Longrightarrow> disc_tab d' g = disc_tab d g"
    and "\<And>g o'. g \<noteq> fid \<Longrightarrow> location d g = Some o' \<Longrightarrow>
      rec_fid (d_file d') o' = rec_fid (d_file d) o' \<and> rec_total (d_file d') o' = rec_total (d_file d) o'"
proof -
  note off = wfD(4) [OF wf loc] and len = wfD(1) [OF wf]
  have o0: "0 \<le> off" "nat (off + int j) = nat off + j" "\<not> off + int j < 0"
    using slotD [of off] off by (auto simp: nat_add_distrib)
  then show "file_put d b (off + int j) = (Inr (), d')"
    by (simp add: file_put_def FileIO_Write_def d'_def)
  have len': "length (write_at (d_file d) (nat off + j) b) = 8192"
    using len slotD [of off] off assms(3) by (subst length_write_at_same) auto
  have "sub (d_file d') (nat o') 12 = replicate 12 0" if "o' \<in> set (freeList d)" for o'
    using that wfD(3,6) [OF wf] off assms(3) len unfolding d'_def
    by (metis discard.select_convs(2) discard.surjective discard.update_convs(2) rec_other_slot(4) subsetD)
  then show "discard_wf d'"
    using wf len' unfolding discard_wf_def d'_def by simp
  have other: "o' \<in> slots \<and> off \<noteq> o'" if "g \<noteq> fid" "location d g = Some o'" for g o'
    using wfD(4,5) [OF wf] that loc by metis
  show "disc_tab d' g = disc_tab d g" if "g \<noteq> fid" for g
    using other [OF that] off assms(3) len
    by (cases "location d g") (simp_all add: disc_tab_def d'_def frame_simps)
  show "rec_fid (d_file d') o' = rec_fid (d_file d) o' \<and> rec_total (d_file d') o' = rec_total (d_file d) o'"
    if "g \<noteq> fid" "location d g = Some o'" for g o'
    using other [OF that] off assms(3) len by (simp add: d'_def frame_simps)
qed

subsection \<open>Operations on the abstract table\<close>

definition same_chan :: "discard \<Rightarrow> discard \<Rightarrow> bool" where
  "same_chan d d' \<longleftrightarrow> valChan d' = valChan d \<and> chanCap d' = chanCap d \<and> chanClosed d' = chanClosed d"

text \<open>
  Allocation as the table sees it: the file has a record afterwards, a new one is all zero,
  and no other record changes.
\<close>

lemma alloc_tab:
  assumes wf: "discard_wf d" and room: "location d fid \<noteq> None \<or> freeList d \<noteq> []"
  shows "\<exists>off d1. alloc d fid = (Inr off, d1) \<and> discard_wf d1 \<and> location d1 = (location d)(fid \<mapsto> off)
    \<and> d_file d1 = d_file d \<and> same_chan d d1
    \<and> disc_tab d1 = (disc_tab d)(fid \<mapsto> (case disc_tab d fid of None \<Rightarrow> (0, 0) | Some x \<Rightarrow> x))
    \<and> length (freeList d1) = length (freeList d) - (if location d fid = None then 1 else 0)"
proof (cases "location d fid")
  case (Some off)
  then have "(disc_tab d)(fid \<mapsto> (case disc_tab d fid of None \<Rightarrow> (0, 0) | Some x \<Rightarrow> x)) = disc_tab d"
    "(location d)(fid \<mapsto> off) = location d"
    by (auto simp: disc_tab_def)
  with Some wf show ?thesis by (simp add: alloc_known same_chan_def)
next
  case None
  with room have ne: "freeList d \<noteq> []" by simp
  note n = alloc_new [OF wf None ne]
  have "disc_tab (d\<lparr>freeList := butlast (freeList d), location := (location d)(fid \<mapsto> last (freeList d))\<rparr>)
      = (disc_tab d)(fid \<mapsto> (0, 0))"
    by (auto simp: disc_tab_def rec_zero [OF n(4)] fun_eq_iff)
  moreover have "disc_tab d fid = None" using None by (simp add: disc_tab_def)
  ultimately show ?thesis using None n by (auto simp: same_chan_def)
qed

lemma incrDiscard_tab:
  assumes wf: "discard_wf d" and room: "location d fid \<noteq> None \<or> freeList d \<noteq> []" and "0 < delta"
  shows "\<exists>d'. incrDiscard d fid delta = (Inr (), d') \<and> discard_wf d' \<and> same_chan d d'
    \<and> disc_tab d' = (disc_tab d)(fid \<mapsto> (case disc_tab d fid of
        None \<Rightarrow> (0, word_of_int delta) | Some (t, n) \<Rightarrow> (t, n + word_of_int delta)))
    \<and> (recorded d \<longrightarrow> location d fid \<noteq> None \<longrightarrow> recorded d')"
proof -
  obtain off d1 where a: "alloc d fid = (Inr off, d1)" and wf1: "discard_wf d1"
    and l1: "location d1 = (location d)(fid \<mapsto> off)" and f1: "d_file d1 = d_file d" and sc: "same_chan d d1"
    and t1: "disc_tab d1 = (disc_tab d)(fid \<mapsto> (case disc_tab d fid of None \<Rightarrow> (0, 0) | Some x \<Rightarrow> x))"
    using alloc_tab [OF wf room] by blast
  have loc: "location d1 fid = Some off" by (simp add: l1)
  have off: "off \<in> slots" "0 \<le> off" "nat off + 12 \<le> 8192"
    using wfD(4) [OF wf1 loc] slotD [of off] by auto
  have len: "length (d_file d1) = 8192" by (rule wfD(1) [OF wf1])
  let ?v = "rec_disc (d_file d1) off"
  let ?b = "le32 (?v + word_of_int delta)"
  define d' where "d' = d1\<lparr>d_file := write_at (d_file d1) (nat off + 8) ?b\<rparr>"
  note put = file_put_slot [OF wf1 loc, of 8 ?b, folded d'_def]
  have rd: "FileIO_Read (d_file d1) 4 (off + 8) = Inr (sub (d_file d1) (nat off + 8) 4)"
    using off len by (simp add: FileIO_Read_def nat_add_distrib)
  have "take 4 (sub (d_file d1) (nat off + 8) 4) = sub (d_file d1) (nat off + 8) 4"
    by (simp add: sub_def)
  then have e: "incrDiscard d fid delta = (Inr (), d')"
    using assms(3) a rd put(1) by (simp add: incrDiscard_def Let_def rec_disc_def)
  have "rec_disc (d_file d') off = ?v + word_of_int delta"
    using sub_write_same [of "d_file d1" "nat off + 8" ?b] by (simp add: rec_disc_def d'_def)
  moreover have tot: "rec_total (d_file d') off = rec_total (d_file d1) off"
    "rec_fid (d_file d') off = rec_fid (d_file d1) off"
    using off len by (simp_all add: d'_def rec_total_def rec_fid_def sub_write_before)
  moreover have l': "location d' = location d1" by (simp add: d'_def)
  ultimately have "disc_tab d' fid = (case disc_tab d1 fid of None \<Rightarrow> None | Some (t, n) \<Rightarrow> Some (t, n + word_of_int delta))"
    by (simp add: disc_tab_def loc)
  then have tab: "disc_tab d' = (disc_tab d)(fid \<mapsto> (case disc_tab d fid of
        None \<Rightarrow> (0, word_of_int delta) | Some (t, n) \<Rightarrow> (t, n + word_of_int delta)))"
    using put(3) t1 by (auto simp: fun_eq_iff split: option.splits)
  have "recorded d'" if r: "recorded d" and k: "location d fid \<noteq> None"
  proof -
    have d1: "d1 = d" using k a by (auto simp: alloc_def split: option.splits)
    have "g \<noteq> 0 \<and> rec_fid (d_file d') o' = g \<and> rec_total (d_file d') o' \<noteq> 0"
      if g: "location d' g = Some o'" for g o'
    proof -
      have lg: "location d1 g = Some o'" using g l' by simp
      have old: "g \<noteq> 0 \<and> rec_fid (d_file d1) o' = g \<and> rec_total (d_file d1) o' \<noteq> 0"
        using r lg unfolding recorded_def d1 by blast
      show ?thesis
      proof (cases "g = fid")
        case True
        then show ?thesis using old tot lg loc by simp
      next
        case False
        then show ?thesis using old put(4) [OF _ False lg] by simp
      qed
    qed
    then show ?thesis unfolding recorded_def by blast
  qed
  with e put(2) tab sc show ?thesis by (auto simp: same_chan_def d'_def)
qed

lemma setTotal_tab:
  assumes wf: "discard_wf d" and new: "location d fid = None" and room: "freeList d \<noteq> []"
    and nz: "fid \<noteq> 0" "tot \<noteq> 0"
  shows "\<exists>d'. setTotal d fid tot = (Inr (), d') \<and> discard_wf d' \<and> same_chan d d'
    \<and> disc_tab d' = (disc_tab d)(fid \<mapsto> (tot, 0)) \<and> (recorded d \<longrightarrow> recorded d')
    \<and> length (freeList d') = length (freeList d) - 1"
proof -
  obtain off d1 where a: "alloc d fid = (Inr off, d1)" and wf1: "discard_wf d1"
    and l1: "location d1 = (location d)(fid \<mapsto> off)" and f1: "d_file d1 = d_file d" and sc: "same_chan d d1"
    and t1: "disc_tab d1 = (disc_tab d)(fid \<mapsto> (0, 0))"
    and n1: "length (freeList d1) = length (freeList d) - 1"
    using alloc_tab [OF wf, of fid] new room by (auto simp: disc_tab_def)
  have loc: "location d1 fid = Some off" by (simp add: l1)
  have off: "off \<in> slots" "nat off + 12 \<le> 8192"
    using wfD(4) [OF wf1 loc] slotD [of off] by auto
  have len: "length (d_file d1) = 8192" by (rule wfD(1) [OF wf1])
  let ?b = "le32 fid @ le32 tot"
  define d' where "d' = d1\<lparr>d_file := write_at (d_file d1) (nat off) ?b\<rparr>"
  note put = file_put_slot [OF wf1 loc, of 0 ?b, simplified, folded d'_def]
  have e: "setTotal d fid tot = (Inr (), d')"
    using nz new a put(1) by (simp add: setTotal_def)
  have w: "sub (d_file d') (nat off) 8 = ?b"
    using sub_write_same [of "d_file d1" "nat off" ?b] by (simp add: d'_def)
  have ids: "rec_fid (d_file d') off = fid" "rec_total (d_file d') off = tot"
  proof -
    have b: "sub (d_file d') (nat off + i) 4 = sub ?b i 4" if "i + 4 \<le> 8" for i
      using sub_sub [of i 4 8 "d_file d'" "nat off"] w that by simp
    have "sub ?b 0 4 = le32 fid" "sub ?b 4 4 = le32 tot" by (simp_all add: sub_def)
    then show "rec_fid (d_file d') off = fid" "rec_total (d_file d') off = tot"
      using b [of 0] b [of 4] by (simp_all add: rec_fid_def rec_total_def)
  qed
  have "rec_disc (d_file d') off = rec_disc (d_file d1) off"
    by (simp add: d'_def rec_disc_def sub_write_after)
  moreover have "rec_disc (d_file d1) off = 0"
    using t1 loc by (auto simp: disc_tab_def fun_eq_iff split: if_splits dest: spec [of _ fid])
  ultimately have "disc_tab d' fid = Some (tot, 0)"
    using ids by (simp add: disc_tab_def d'_def loc)
  then have tab: "disc_tab d' = (disc_tab d)(fid \<mapsto> (tot, 0))"
    using put(3) t1 by (auto simp: fun_eq_iff)
  have "recorded d'" if r: "recorded d"
  proof -
    have "g \<noteq> 0 \<and> rec_fid (d_file d') o' = g \<and> rec_total (d_file d') o' \<noteq> 0"
      if "location d' g = Some o'" for g o'
    proof (cases "g = fid")
      case True
      then show ?thesis using that ids nz loc by (simp add: d'_def)
    next
      case False
      then have "location d g = Some o'" using that by (simp add: d'_def l1)
      then show ?thesis
        using r put(4) [OF False] False f1 unfolding recorded_def by (simp add: l1 d'_def)
    qed
    then show ?thesis unfolding recorded_def by blast
  qed
  with e put(2) tab sc n1 show ?thesis by (auto simp: same_chan_def d'_def)
qed

lemma free_slot_wf:
  assumes wf: "discard_wf d" and loc: "location d fid = Some off"
    and z: "sub (d_file d) (nat off) 12 = replicate 12 0"
  defines "d' \<equiv> d\<lparr>freeList := freeList d @ [off], location := (location d)(fid := None)\<rparr>"
  shows "discard_wf d'" "disc_tab d' = (disc_tab d)(fid := None)" "recorded d \<longrightarrow> recorded d'"
proof -
  note w = wf [unfolded discard_wf_def] and u = wfD(4,5) [OF wf loc]
  have ran: "ran ((location d)(fid := None)) = ran (location d) - {off}"
  proof (intro set_eqI iffI)
    fix x assume "x \<in> ran ((location d)(fid := None))"
    then obtain g where "g \<noteq> fid" "location d g = Some x" by (auto simp: ran_def split: if_splits)
    then show "x \<in> ran (location d) - {off}" using u(2) by (auto intro: ranI)
  next
    fix x assume "x \<in> ran (location d) - {off}"
    then obtain g where "location d g = Some x" "x \<noteq> off" by (auto simp: ran_def)
    then show "x \<in> ran ((location d)(fid := None))" using loc by (auto simp: ran_def intro!: exI [of _ g])
  qed
  have "off \<in> ran (location d)" using loc by (rule ranI)
  moreover have "inj_on ((location d)(fid := None)) (dom (location d) - {fid})"
    using w by (auto simp: inj_on_def)
  ultimately show "discard_wf d'"
    using w u(1) z unfolding discard_wf_def d'_def by (auto simp: ran)
  show "disc_tab d' = (disc_tab d)(fid := None)"
    by (auto simp: disc_tab_def d'_def fun_eq_iff)
  show "recorded d \<longrightarrow> recorded d'"
    by (simp add: recorded_def d'_def)
qed

lemma clear_tab:
  assumes wf: "discard_wf d" and room: "location d fid \<noteq> None \<or> freeList d \<noteq> []"
  shows "\<exists>d'. clear d fid = (Inr (), d') \<and> discard_wf d' \<and> same_chan d d'
    \<and> disc_tab d' = (disc_tab d)(fid := None) \<and> location d' = (location d)(fid := None) \<and> (recorded d \<longrightarrow> recorded d')"
proof -
  obtain off d1 where a: "alloc d fid = (Inr off, d1)" and wf1: "discard_wf d1"
    and l1: "location d1 = (location d)(fid \<mapsto> off)" and sc: "same_chan d d1"
    and t1: "disc_tab d1 = (disc_tab d)(fid \<mapsto> (case disc_tab d fid of None \<Rightarrow> (0, 0) | Some x \<Rightarrow> x))"
    using alloc_tab [OF wf room] by blast
  have loc: "location d1 fid = Some off" by (simp add: l1)
  let ?b = "replicate discardRecordSize 0 :: bytes"
  define d2 where "d2 = d1\<lparr>d_file := write_at (d_file d1) (nat off) ?b\<rparr>"
  note put = file_put_slot [OF wf1 loc, of 0 ?b, simplified, folded d2_def]
  have b12: "discardRecordSize \<le> 12" by (simp add: discardRecordSize_def)
  have loc2: "location d2 fid = Some off" using loc by (simp add: d2_def)
  have z: "sub (d_file d2) (nat off) 12 = replicate 12 0"
    using sub_write_same [of "d_file d1" "nat off" ?b] by (simp add: d2_def discardRecordSize_def)
  define d' where "d' = d2\<lparr>freeList := freeList d2 @ [off], location := (location d2)(fid := None)\<rparr>"
  note fr = free_slot_wf [OF put(2) loc2 z, folded d'_def, OF b12]
  have "clear d fid = (Inr (), d')"
    using a put(1) b12 loc2 by (simp add: clear_def d'_def)
  moreover have "disc_tab d' = (disc_tab d)(fid := None)"
    using fr(2) put(3) [OF b12] t1 by (auto simp: fun_eq_iff)
  moreover have "d_file d1 = d_file d"
    using a by (auto simp: alloc_def Let_def split: option.splits if_splits)
  then have "recorded d \<longrightarrow> recorded d'"
    using put(4) [OF b12] l1 unfolding recorded_def by (auto simp: d'_def d2_def split: if_splits)
  ultimately show ?thesis using fr(1) sc by (auto simp: same_chan_def d'_def d2_def l1)
qed

subsection \<open>Emptying the channel\<close>

text \<open>The goroutine's loop, for at most \<open>n\<close> messages.\<close>

fun listenUpdate :: "nat \<Rightarrow> discard \<Rightarrow> unit result \<times> discard" where
  "listenUpdate 0 d = (Inr (), d)"
| "listenUpdate (Suc n) d =
     (case listenUpdate_step d of
        None \<Rightarrow> (Inr (), d)
      | Some (Inl e, d') \<Rightarrow> (Inl e, d')
      | Some (Inr _, d') \<Rightarrow> listenUpdate n d')"

definition reported :: "Value_t list \<Rightarrow> u32 \<Rightarrow> int" where
  "reported vs fid = sum_list (map v_entrySize (filter (\<lambda>v. v_fid v = fid) vs))"

lemma listenUpdate_tab:
  assumes "discard_wf d" "\<forall>v \<in> set (valChan d). 0 < v_entrySize v \<and> disc_tab d (v_fid v) \<noteq> None"
  shows "\<exists>d'. listenUpdate (length (valChan d)) d = (Inr (), d') \<and> discard_wf d' \<and> valChan d' = []
    \<and> (\<forall>g. disc_tab d' g = map_option (\<lambda>(t, n). (t, n + word_of_int (reported (valChan d) g))) (disc_tab d g))"
  using assms
proof (induction "valChan d" arbitrary: d)
  case Nil
  then show ?case by (auto simp: reported_def option.map_ident case_prod_beta split: option.split)
next
  case (Cons v vs)
  let ?d0 = "d\<lparr>valChan := vs\<rparr>"
  have vc: "valChan d = v # vs" using Cons.hyps(2) by simp
  have v: "0 < v_entrySize v" "disc_tab d (v_fid v) \<noteq> None" using Cons.prems(2) vc by auto
  have tab0: "disc_tab ?d0 = disc_tab d" by (simp add: disc_tab_def fun_eq_iff)
  have "discard_wf ?d0" using Cons.prems(1) by (simp add: discard_wf_def)
  moreover have "location ?d0 (v_fid v) \<noteq> None" using v(2) by (simp add: disc_tab_def)
  ultimately obtain d1 where d1: "incrDiscard ?d0 (v_fid v) (v_entrySize v) = (Inr (), d1)" "discard_wf d1"
    "same_chan ?d0 d1" "disc_tab d1 = (disc_tab d)(v_fid v \<mapsto> (case disc_tab d (v_fid v) of
        None \<Rightarrow> (0, word_of_int (v_entrySize v)) | Some (t, n) \<Rightarrow> (t, n + word_of_int (v_entrySize v))))"
    using incrDiscard_tab [of ?d0 "v_fid v" "v_entrySize v"] v(1) tab0 by auto
  have ch: "vs = valChan d1" using d1(3) by (simp add: same_chan_def)
  have pr: "\<forall>w \<in> set (valChan d1). 0 < v_entrySize w \<and> disc_tab d1 (v_fid w) \<noteq> None"
    using Cons.prems(2) vc ch d1(4) by auto
  from Cons.hyps(1) [OF ch d1(2) pr] obtain d' where d':
    "listenUpdate (length (valChan d1)) d1 = (Inr (), d')" "discard_wf d'" "valChan d' = []"
    "\<And>g. disc_tab d' g = map_option (\<lambda>(t, n). (t, n + word_of_int (reported (valChan d1) g))) (disc_tab d1 g)"
    by blast
  have "listenUpdate (length (valChan d)) d = (Inr (), d')"
    using d1(1) d'(1) ch by (simp add: vc listenUpdate_step_def)
  moreover have "disc_tab d' g =
      map_option (\<lambda>(t, n). (t, n + word_of_int (reported (valChan d) g))) (disc_tab d g)" for g
    using v(2) ch [symmetric]
    by (auto simp: d'(4) d1(4) reported_def vc ac_simps split: option.splits)
  ultimately show ?case using d'(2,3) by blast
qed

subsection \<open>Scanning the file\<close>

lemma slot_mem: "m < 682 \<Longrightarrow> int (12 * m) \<in> slots"
  by (auto simp: slots_def)

lemma read_record:
  assumes "length c = 8192"
  shows "m < 682 \<Longrightarrow> FileIO_Read c discardRecordSize (int (12 * m)) = Inr (sub c (12 * m) 12)"
    "FileIO_Read c discardRecordSize (int (12 * 682)) = Inl EOF"
  using assms by (simp_all add: FileIO_Read_def discardRecordSize_def nat_mult_distrib)

lemma record_fields:
  "uint32_of (take 4 (sub c (12 * m) 12)) = rec_fid c (int (12 * m))"
  "uint32_of (take 4 (drop 4 (sub c (12 * m) 12))) = rec_total c (int (12 * m))"
  "uint32_of (take 4 (drop 8 (sub c (12 * m) 12))) = rec_disc c (int (12 * m))"
proof -
  have n: "nat (int (12 * m)) = 12 * m" by (rule nat_int)
  have "take 4 (drop i (sub c (12 * m) 12)) = sub c (12 * m + i) 4" if "i \<le> 8" for i
    using sub_sub [of i 4 12 c "12 * m"] that by (simp add: sub_def)
  from this [of 0] this [of 4] this [of 8] show
    "uint32_of (take 4 (sub c (12 * m) 12)) = rec_fid c (int (12 * m))"
    "uint32_of (take 4 (drop 4 (sub c (12 * m) 12))) = rec_total c (int (12 * m))"
    "uint32_of (take 4 (drop 8 (sub c (12 * m) 12))) = rec_disc c (int (12 * m))"
    by (simp_all only: rec_fid_def rec_total_def rec_disc_def n drop0 add_0_right)
qed

text \<open>Each slot is either free and zero, or the record of exactly one file.\<close>

lemma slot_cases:
  assumes wf: "discard_wf d" and r: "recorded d" and m: "m < 682"
  obtains (free) "int (12 * m) \<in> set (freeList d)" "rec_fid (d_file d) (int (12 * m)) = 0"
      "rec_total (d_file d) (int (12 * m)) = 0" "\<And>g. location d g \<noteq> Some (int (12 * m))"
  | (used) g where "location d g = Some (int (12 * m))" "int (12 * m) \<notin> set (freeList d)" "g \<noteq> 0"
      "rec_fid (d_file d) (int (12 * m)) = g" "rec_total (d_file d) (int (12 * m)) \<noteq> 0"
proof (cases "int (12 * m) \<in> set (freeList d)")
  case True
  note z = rec_zero [OF wfD(6) [OF wf True]]
  show ?thesis using free True z wfD(4) [OF wf] by blast
next
  case False
  have "int (12 * m) \<in> set (freeList d) \<union> ran (location d)"
    using wf slot_mem [OF m] unfolding discard_wf_def by blast
  with False obtain g where g: "location d g = Some (int (12 * m))" by (auto simp: ran_def)
  then show ?thesis using used False r unfolding recorded_def by blast
qed

definition free_upto :: "discard \<Rightarrow> nat \<Rightarrow> int list" where
  "free_upto d m = map (\<lambda>j. int (12 * j)) (filter (\<lambda>j. int (12 * j) \<in> set (freeList d)) [0..<m])"

definition loc_upto :: "discard \<Rightarrow> nat \<Rightarrow> u32 \<Rightarrow> int option" where
  "loc_upto d m g = (case location d g of None \<Rightarrow> None | Some off \<Rightarrow> if off < int (12 * m) then Some off else None)"

lemma loc_upto_Suc:
  assumes wf: "discard_wf d"
  shows "loc_upto d (Suc m) g =
    (if location d g = Some (int (12 * m)) then Some (int (12 * m)) else loc_upto d m g)"
proof (cases "location d g")
  case (Some off)
  then obtain i where "off = int (12 * i)" using wfD(4) [OF wf Some] by (auto simp: slots_def)
  then show ?thesis using Some by (cases i m rule: linorder_cases) (simp_all add: loc_upto_def)
qed (simp add: loc_upto_def)

lemma newDiscard_loop_upto:
  assumes wf: "discard_wf d" and r: "recorded d" and "m \<le> 682"
  shows "newDiscard_loop (d_file d) (12 * m) (free_upto d m) (loc_upto d m)
    = Inr (free_upto d 682, loc_upto d 682)"
  using assms(3)
proof (induction rule: inc_induct)
  case base
  show ?case
    using read_record(2) [OF wfD(1) [OF wf]] by (subst newDiscard_loop.simps) simp
next
  case (step m)
  have rd: "FileIO_Read (d_file d) discardRecordSize (int (12 * m)) = Inr (sub (d_file d) (12 * m) 12)"
    using read_record(1) [OF wfD(1) [OF wf]] step(2) by simp
  have next_off: "12 * m + discardRecordSize = 12 * Suc m" by (simp add: discardRecordSize_def)
  note unf = newDiscard_loop.simps [of "d_file d" "12 * m"] rd record_fields next_off Let_def
  from step(2) have "m < 682" by simp
  from wf r this show ?case
  proof (cases rule: slot_cases)
    case free
    have "free_upto d m @ [int (12 * m)] = free_upto d (Suc m)"
      using free(1) by (simp add: free_upto_def)
    moreover have "loc_upto d (Suc m) = loc_upto d m"
      using free(4) by (simp add: loc_upto_Suc [OF wf] fun_eq_iff)
    ultimately show ?thesis using free step(3) by (simp only: unf sum.case) simp
  next
    case (used g)
    have "free_upto d (Suc m) = free_upto d m" using used(2) by (simp add: free_upto_def)
    moreover have "(loc_upto d m)(g \<mapsto> int (12 * m)) = loc_upto d (Suc m)"
    proof
      fix h
      have "h \<noteq> g \<Longrightarrow> location d h \<noteq> Some (int (12 * m))"
        using wfD(5) [OF wf used(1), of h] by blast
      then show "((loc_upto d m)(g \<mapsto> int (12 * m))) h = loc_upto d (Suc m) h"
        using used(1) by (cases "h = g") (simp_all only: loc_upto_Suc [OF wf] fun_upd_apply if_True if_False simp_thms)
    qed
    ultimately show ?thesis using used step(3) by (simp only: unf sum.case) simp
  qed
qed

lemma newDiscard_reload:
  assumes wf: "discard_wf d" and r: "recorded d"
  shows "\<exists>d'. newDiscard (Some (d_file d)) n = Inr d' \<and> discard_wf d' \<and> recorded d'
    \<and> disc_tab d' = disc_tab d \<and> location d' = location d \<and> valChan d' = [] \<and> \<not> chanClosed d'"
proof -
  have sl: "\<exists>i < 682. off = int (12 * i)" if "location d g = Some off" for g off
    using wfD(4) [OF wf that] by (auto simp: slots_def)
  have l: "loc_upto d 682 = location d" "loc_upto d 0 = Map.empty"
    using sl by (fastforce simp: loc_upto_def fun_eq_iff split: option.splits)+
  let ?d' = "\<lparr>d_once = False, d_file = d_file d, valChan = [], chanCap = n, chanClosed = False,
    freeList = free_upto d 682, location = location d\<rparr>"
  have "newDiscard (Some (d_file d)) n = Inr ?d'"
    using newDiscard_loop_upto [OF wf r, of 0] wfD(1) [OF wf] l
    by (simp add: newDiscard_def discardFileSize_def Let_def free_upto_def)
  moreover have "set (free_upto d 682) = set (freeList d)"
    using wfD(3) [OF wf] by (auto simp: free_upto_def slots_def)
  moreover have "distinct (free_upto d 682)"
    by (simp add: free_upto_def distinct_map inj_on_def)
  ultimately show ?thesis
    using wf r by (simp add: discard_wf_def recorded_def disc_tab_def fun_eq_iff)
qed

text \<open>The table of a new file: every record is free.\<close>

definition fresh_discard :: "nat \<Rightarrow> discard" where
  "fresh_discard n = \<lparr>d_once = False, d_file = replicate 8192 0, valChan = [], chanCap = n,
     chanClosed = False, freeList = map (\<lambda>i. int (12 * i)) [0..<682], location = Map.empty\<rparr>"

lemma fresh_discard_simps [simp]:
  "length (freeList (fresh_discard n)) = 682" "valChan (fresh_discard n) = []" "chanCap (fresh_discard n) = n"
  "\<not> chanClosed (fresh_discard n)" "location (fresh_discard n) = Map.empty" "disc_tab (fresh_discard n) = Map.empty"
  by (simp_all add: fresh_discard_def disc_tab_def fun_eq_iff)

lemma fresh_discard_wf [simp]: "discard_wf (fresh_discard n)" "recorded (fresh_discard n)"
  by (auto simp: fresh_discard_def discard_wf_def slots_def distinct_map inj_on_def sub_def recorded_def)

lemma fresh_discard_ok [simp]: "discard_ok (fresh_discard n)"
  by (simp add: discard_ok_def)

lemma newDiscard_fresh: "newDiscard None n = Inr (fresh_discard n)"
proof -
  let ?d = "fresh_discard n"
  have "filter (\<lambda>j. int (12 * j) \<in> set (freeList ?d)) [0..<682] = [0..<682]"
    by (auto simp: filter_id_conv fresh_discard_def)
  then have "free_upto ?d 682 = freeList ?d" "free_upto ?d 0 = []"
    by (simp_all add: free_upto_def fresh_discard_def)
  moreover have "loc_upto ?d m = location ?d" for m
    by (simp add: loc_upto_def fun_eq_iff)
  moreover have "d_file ?d = replicate 8192 0" "freeList ?d = map (\<lambda>i. int (12 * i)) [0..<682]"
    by (simp_all add: fresh_discard_def)
  ultimately have "newDiscard_loop (replicate 8192 0) 0 [] Map.empty =
      Inr (map (\<lambda>i. int (12 * i)) [0..<682], Map.empty)"
    using newDiscard_loop_upto [OF fresh_discard_wf, of 0 n] by simp
  then show ?thesis
    by (simp add: newDiscard_def discardFileSize_def fresh_discard_def Let_def)
qed

subsection \<open>Compaction candidates\<close>

definition candidate :: "discard \<Rightarrow> u32 \<Rightarrow> rat \<Rightarrow> u32 \<Rightarrow> bool" where
  "candidate d activeFid ratio fid \<longleftrightarrow> fid \<noteq> activeFid \<and>
     (\<exists>t n. disc_tab d fid = Some (t, n) \<and> ratio < f64_quot n t)"

definition ccl_upto :: "discard \<Rightarrow> u32 \<Rightarrow> rat \<Rightarrow> nat \<Rightarrow> u32 list" where
  "ccl_upto d a ratio m =
     map (\<lambda>j. rec_fid (d_file d) (int (12 * j)))
       (filter (\<lambda>j. \<exists>g. location d g = Some (int (12 * j)) \<and> candidate d a ratio g) [0..<m])"

lemma getCCL_loop_upto:
  assumes wf: "discard_wf d" and r: "recorded d" and "0 \<le> ratio" and "m \<le> 682"
  shows "getCCL_loop (d_file d) (12 * m) a ratio (ccl_upto d a ratio m) = Inr (ccl_upto d a ratio 682)"
  using assms(4)
proof (induction rule: inc_induct)
  case base
  show ?case
    using read_record(2) [OF wfD(1) [OF wf]] by (subst getCCL_loop.simps) simp
next
  case (step m)
  have rd: "FileIO_Read (d_file d) discardRecordSize (int (12 * m)) = Inr (sub (d_file d) (12 * m) 12)"
    using read_record(1) [OF wfD(1) [OF wf]] step(2) by simp
  have next_off: "12 * m + discardRecordSize = 12 * Suc m" by (simp add: discardRecordSize_def)
  note unf = getCCL_loop.simps [of "d_file d" "12 * m"] rd record_fields next_off Let_def
  from step(2) have "m < 682" by simp
  from wf r this show ?case
  proof (cases rule: slot_cases)
    case free
    then have "ccl_upto d a ratio (Suc m) = ccl_upto d a ratio m" by (simp add: ccl_upto_def)
    with free step(3) assms(3) show ?thesis by (simp only: unf sum.case) auto
  next
    case (used g)
    have u: "location d h = Some (int (12 * m)) \<longleftrightarrow> h = g" for h
      using wfD(5) [OF wf used(1), of h] used(1) by blast
    have c: "candidate d a ratio g \<longleftrightarrow>
        g \<noteq> a \<and> ratio < f64_quot (rec_disc (d_file d) (int (12 * m))) (rec_total (d_file d) (int (12 * m)))"
      using used(1) by (simp add: candidate_def disc_tab_def)
    have "ccl_upto d a ratio (Suc m) =
        (if candidate d a ratio g then ccl_upto d a ratio m @ [g] else ccl_upto d a ratio m)"
      using used(4) u by (simp add: ccl_upto_def)
    with used step(3) c show ?thesis by (simp only: unf sum.case) auto
  qed
qed

lemma getCCL_spec:
  assumes wf: "discard_wf d" and r: "recorded d" and "0 \<le> ratio"
  shows "\<exists>ccl. getCCL d a ratio = Inr ccl \<and> sorted ccl \<and> distinct ccl \<and> set ccl = {fid. candidate d a ratio fid}"
proof -
  let ?l = "ccl_upto d a ratio 682"
  let ?P = "\<lambda>j. \<exists>g. location d g = Some (int (12 * j)) \<and> candidate d a ratio g"
  have e: "getCCL d a ratio = Inr (sort ?l)"
    using getCCL_loop_upto [OF assms, of 0] by (simp add: getCCL_def ccl_upto_def)
  have id: "rec_fid (d_file d) (int (12 * j)) = g" if "location d g = Some (int (12 * j))" for j g
    using r that unfolding recorded_def by blast
  have "inj_on (\<lambda>j. rec_fid (d_file d) (int (12 * j))) {j. ?P j}"
  proof (rule inj_onI)
    fix i j
    assume "i \<in> {j. ?P j}" "j \<in> {j. ?P j}"
      "rec_fid (d_file d) (int (12 * i)) = rec_fid (d_file d) (int (12 * j))"
    then obtain g h where "location d g = Some (int (12 * i))" "location d h = Some (int (12 * j))" "g = h"
      using id by auto
    then show "i = j" by simp
  qed
  then have "distinct ?l"
    by (auto simp: ccl_upto_def distinct_map intro: inj_on_subset)
  moreover have "set ?l = {fid. candidate d a ratio fid}"
  proof (intro set_eqI iffI)
    fix g assume "g \<in> set ?l"
    then show "g \<in> {fid. candidate d a ratio fid}" using id by (auto simp: ccl_upto_def)
  next
    fix g assume "g \<in> {fid. candidate d a ratio fid}"
    then obtain off where off: "location d g = Some off" and c: "candidate d a ratio g"
      by (auto simp: candidate_def disc_tab_def)
    obtain i where i: "i < 682" "off = int (12 * i)" using wfD(4) [OF wf off] by (auto simp: slots_def)
    then have "i \<in> set (filter ?P [0..<682])" using off c by auto
    moreover have "g = rec_fid (d_file d) (int (12 * i))" using id off i by simp
    ultimately show "g \<in> set ?l" unfolding ccl_upto_def by auto
  qed
  ultimately show ?thesis using e by auto
qed

subsection \<open>The ratio test in integers\<close>

lemma round_even_le: "x \<le> of_int k \<Longrightarrow> round_even x \<le> k"
  by (auto simp: round_even_def Let_def floor_le_iff)

lemma round_even_gt: "of_int k + 1/2 < x \<Longrightarrow> k < round_even x"
  by (auto simp: round_even_def Let_def) linarith+

lemma quot_shift_enough: "2 ^ 52 * t \<le> v * 2 ^ (s + n) \<Longrightarrow> 2 ^ 52 * t \<le> v * 2 ^ quot_shift n s v t"
  by (induction n arbitrary: s) auto

lemma quot_above_half:
  assumes "a < 2 * b" "0 < a" "a < 2 ^ Suc r"
  shows "(2::rat) ^ r + 1/2 < of_nat (b * 2 ^ Suc r) / of_nat a"
proof -
  have "(2::nat) ^ Suc r * Suc a \<le> 2 ^ Suc r * (2 * b)" using assms by (intro mult_le_mono2) simp
  then have "2 ^ Suc r * a + a < 2 * (b * 2 ^ Suc r)" using assms(3) by (simp add: mult.commute [of b])
  then have "of_nat (2 ^ Suc r * a + a) < (of_nat (2 * (b * 2 ^ Suc r)) :: rat)" by (simp only: of_nat_less_iff)
  then show ?thesis using assms(2) by (simp add: pos_less_divide_eq distrib_right)
qed

lemma quot_below_half:
  assumes "2 * b \<le> a" "0 < a"
  shows "of_nat (b * 2 ^ Suc r) / of_nat a \<le> (2::rat) ^ r"
proof -
  have "b * 2 ^ Suc r \<le> 2 ^ r * a" using assms(1) by simp
  then have "of_nat (b * 2 ^ Suc r) \<le> (of_nat (2 ^ r * a) :: rat)" by (simp only: of_nat_le_iff)
  then show ?thesis using assms(2) by (simp add: pos_divide_le_eq)
qed

lemma f64_quot_half:
  assumes "t \<noteq> 0"
  shows "1/2 < f64_quot v t \<longleftrightarrow> unat t < 2 * unat v"
proof (cases "v = 0")
  case False
  define s where "s = quot_shift 100 0 (unat v) (unat t)"
  let ?x = "of_nat (unat v * 2 ^ s) / of_nat (unat t) :: rat"
  have v: "1 \<le> unat v" and t: "1 \<le> unat t" using False assms by (simp_all add: Suc_leI unat_gt_0)
  have "unat t < 2 ^ LENGTH(32)" "unat v < 2 ^ LENGTH(32)" by (rule unsigned_less)+
  then have t32: "unat t < 2 ^ 32" and v32: "unat v < 2 ^ 32" by simp_all
  have "2 ^ 52 * unat t \<le> 1 * 2 ^ (0 + 100)" using t32 by simp
  also have "\<dots> \<le> unat v * 2 ^ (0 + 100)" using v by (intro mult_right_mono) auto
  finally have sh: "2 ^ 52 * unat t \<le> unat v * 2 ^ s" unfolding s_def by (rule quot_shift_enough)
  have ts: "unat t < 2 ^ s"
  proof (rule ccontr)
    assume "\<not> unat t < 2 ^ s"
    then have "unat v * 2 ^ s \<le> unat v * unat t" by simp
    also have "\<dots> \<le> 2 ^ 32 * unat t" using v32 by simp
    finally show False using sh t by simp
  qed
  then obtain r where r: "s = Suc r" using t by (cases s) auto
  have f: "f64_quot v t = of_int (round_even ?x) / 2 ^ s"
    using False by (simp add: f64_quot_def Let_def s_def)
  have half: "1/2 < f64_quot v t \<longleftrightarrow> 2 ^ r < round_even ?x"
  proof -
    have "1/2 < f64_quot v t \<longleftrightarrow> (2 ^ r :: rat) < of_int (round_even ?x)"
      unfolding f r by (simp add: pos_less_divide_eq)
    also have "\<dots> \<longleftrightarrow> 2 ^ r < round_even ?x"
      using of_int_less_iff [of "2 ^ r" "round_even ?x", where 'a = rat] by (simp only: of_int_power of_int_numeral)
    finally show ?thesis .
  qed
  show ?thesis
  proof
    assume lt: "unat t < 2 * unat v"
    have "of_int (2 ^ r) + 1/2 < ?x"
      using quot_above_half [OF lt, of r] t ts r by simp
    then show "1/2 < f64_quot v t" unfolding half by (rule round_even_gt)
  next
    assume "1/2 < f64_quot v t"
    moreover have "\<not> 2 ^ r < round_even ?x" if "2 * unat v \<le> unat t"
    proof -
      have "?x \<le> of_int (2 ^ r)" using quot_below_half [OF that, of r] t r by simp
      then show ?thesis using round_even_le [of ?x "2 ^ r"] by simp
    qed
    ultimately show "unat t < 2 * unat v" unfolding half by (meson not_le)
  qed
qed (simp add: f64_quot_def)

subsection \<open>Properties\<close>

text \<open>
  C32. The discard table survives a restart: opening the file that a well-formed table has
  written gives a well-formed table with the same total and discarded sizes for every log file.
\<close>

theorem discard_reload:
  assumes "discard_wf d" "recorded d"
  shows "\<exists>d'. newDiscard (Some (d_file d)) n = Inr d' \<and> discard_wf d' \<and> recorded d' \<and>
    disc_tab d' = disc_tab d \<and> valChan d' = [] \<and> \<not> chanClosed d'"
  using newDiscard_reload [OF assms, of n] by blast

theorem discard_reload_witness:
  "\<exists>d d'. setTotal (fresh_discard 8) 3 100 = (Inr (), d) \<and> newDiscard (Some (d_file d)) 8 = Inr d' \<and>
     disc_tab d' = [3 \<mapsto> (100, 0)]"
proof -
  obtain d where d: "setTotal (fresh_discard 8) 3 100 = (Inr (), d)" "discard_wf d" "recorded d"
    "disc_tab d = [3 \<mapsto> (100, 0)]"
    using setTotal_tab [of "fresh_discard 8" 3 100] fresh_discard_simps(1) [of 8] by fastforce
  then show ?thesis using discard_reload [OF d(2,3), of 8] by auto
qed

text \<open>
  Emptying the channel adds, for every log file, the sizes of exactly the entries that were
  reported for it, modulo 2^32, keeps all totals, and leaves the channel empty.
\<close>

theorem listenUpdate_adds:
  assumes "discard_wf d" "\<forall>v \<in> set (valChan d). 0 < v_entrySize v \<and> disc_tab d (v_fid v) \<noteq> None"
  shows "\<exists>d'. listenUpdate (length (valChan d)) d = (Inr (), d') \<and> discard_wf d' \<and> valChan d' = [] \<and>
    (\<forall>g. disc_tab d' g = map_option (\<lambda>(t, n). (t, n + word_of_int (reported (valChan d) g))) (disc_tab d g))"
  using assms by (rule listenUpdate_tab)

theorem listenUpdate_adds_witness:
  "\<exists>d d'. chan_send (snd (setTotal (fresh_discard 8) 3 100))
       \<lparr>v_value = None, v_vType = valueTypeString, v_fid = 3, v_offset = 0, v_entrySize = 40, v_expiredAt = 0\<rparr> = (Inr (), d) \<and>
     listenUpdate 1 d = (Inr (), d') \<and> disc_tab d' 3 = Some (100, 40)"
proof -
  let ?v = "\<lparr>v_value = None, v_vType = valueTypeString, v_fid = 3, v_offset = 0, v_entrySize = 40, v_expiredAt = 0\<rparr>"
  obtain d0 where d0: "setTotal (fresh_discard 8) 3 100 = (Inr (), d0)" "discard_wf d0" "same_chan (fresh_discard 8) d0"
    "disc_tab d0 = [3 \<mapsto> (100, 0)]"
    using setTotal_tab [of "fresh_discard 8" 3 100] fresh_discard_simps(1) [of 8] by fastforce
  let ?d = "d0\<lparr>valChan := [?v]\<rparr>"
  have s: "chan_send d0 ?v = (Inr (), ?d)" using d0(3) by (simp add: chan_send_def same_chan_def)
  have "disc_tab ?d = disc_tab d0" by (simp add: disc_tab_def fun_eq_iff)
  then have t: "disc_tab ?d = [3 \<mapsto> (100, 0)]" using d0(4) by simp
  have "discard_wf ?d" using d0(2) by (simp add: discard_wf_def)
  from listenUpdate_adds [OF this] obtain d' where "listenUpdate 1 ?d = (Inr (), d')"
    "disc_tab d' 3 = map_option (\<lambda>(t, n). (t, n + word_of_int (reported [?v] 3))) (disc_tab ?d 3)"
    unfolding t by auto
  then show ?thesis using d0(1) s t by (auto simp: reported_def)
qed

text \<open>
  The compaction candidates for the default ratio 0.5 are, in ascending order and without
  repetition, exactly the files other than the active one of which more than half has been
  discarded; the rounding of the floating-point quotient never changes the answer.
\<close>

theorem getCCL_half:
  assumes "discard_wf d" "recorded d"
  shows "\<exists>ccl. getCCL d activeFid (1/2) = Inr ccl \<and> sorted ccl \<and> distinct ccl \<and>
    set ccl = {fid. fid \<noteq> activeFid \<and> (\<exists>t n. disc_tab d fid = Some (t, n) \<and> unat t < 2 * unat n)}"
proof -
  have "1/2 < f64_quot n t \<longleftrightarrow> unat t < 2 * unat n" if "disc_tab d fid = Some (t, n)" for fid t n
    using that assms(2) by (intro f64_quot_half) (auto simp: disc_tab_def recorded_def)
  then have "{fid. candidate d activeFid (1/2) fid} =
      {fid. fid \<noteq> activeFid \<and> (\<exists>t n. disc_tab d fid = Some (t, n) \<and> unat t < 2 * unat n)}"
    unfolding candidate_def by blast
  then show ?thesis using getCCL_spec [OF assms, of "1/2" activeFid] by simp
qed

theorem getCCL_half_witness:
  "\<exists>d. incrDiscard (snd (setTotal (fresh_discard 8) 3 100)) 3 51 = (Inr (), d) \<and> getCCL d 4 (1/2) = Inr [3]"
proof -
  obtain d0 where d0: "setTotal (fresh_discard 8) 3 100 = (Inr (), d0)" "discard_wf d0" "recorded d0"
    "disc_tab d0 = [3 \<mapsto> (100, 0)]"
    using setTotal_tab [of "fresh_discard 8" 3 100] fresh_discard_simps(1) [of 8] by fastforce
  then have "disc_tab d0 3 \<noteq> None" by simp
  then have l: "location d0 3 \<noteq> None" by (simp add: disc_tab_def)
  obtain d where d: "incrDiscard d0 3 51 = (Inr (), d)" "discard_wf d" "recorded d" "disc_tab d = [3 \<mapsto> (100, 51)]"
    using incrDiscard_tab [OF d0(2), of 3 51] d0(3,4) l by auto
  obtain ccl where c: "getCCL d 4 (1/2) = Inr ccl" "sorted ccl" "distinct ccl" "set ccl = {3}"
    using getCCL_half [OF d(2,3), of 4] unfolding d(4) by (auto split: if_splits)
  then have "ccl = [3]" by (cases ccl; cases "tl ccl") auto
  then show ?thesis using c d(1) d0(1) by simp
qed

text \<open>
  clear forgets a log file and nothing else: its record is zeroed and its slot becomes free,
  every other record keeps its sizes, and the file can be registered again as if it were new.
\<close>

theorem clear_setTotal:
  assumes wf: "discard_wf d" and r: "recorded d" and fid: "disc_tab d fid \<noteq> None" and tot: "tot \<noteq> 0"
  shows "\<exists>d1 d2. clear d fid = (Inr (), d1) \<and> discard_wf d1 \<and> disc_tab d1 = (disc_tab d)(fid := None) \<and>
    setTotal d1 fid tot = (Inr (), d2) \<and> discard_wf d2 \<and> disc_tab d2 = (disc_tab d)(fid \<mapsto> (tot, 0))"
proof -
  have loc: "location d fid \<noteq> None" using fid by (simp add: disc_tab_def)
  then have nz: "fid \<noteq> 0" using r by (auto simp: recorded_def)
  obtain d1 where d1: "clear d fid = (Inr (), d1)" "discard_wf d1" "disc_tab d1 = (disc_tab d)(fid := None)"
    "location d1 = (location d)(fid := None)"
    using clear_tab [OF wf] loc by blast
  obtain off where off: "location d fid = Some off" using loc by blast
  have "off \<in> slots" "off \<notin> ran (location d1)"
    using wfD(4,5) [OF wf off] by (auto simp: d1(4) ran_def split: if_splits)
  then have "freeList d1 \<noteq> []" using d1(2) unfolding discard_wf_def by auto
  then show ?thesis
    using setTotal_tab [OF d1(2), of fid tot] d1 nz tot by auto
qed

theorem clear_setTotal_witness:
  "\<exists>d1. clear (snd (setTotal (fresh_discard 8) 3 100)) 3 = (Inr (), d1) \<and> disc_tab d1 = Map.empty"
proof -
  obtain d0 where d0: "setTotal (fresh_discard 8) 3 100 = (Inr (), d0)" "discard_wf d0" "recorded d0"
    "disc_tab d0 = [3 \<mapsto> (100, 0)]"
    using setTotal_tab [of "fresh_discard 8" 3 100] fresh_discard_simps(1) [of 8] by fastforce
  then show ?thesis using clear_setTotal [OF d0(2,3), of 3 7] by auto
qed

end
