(* ===== verification/Discard_Spec.thy ===== *)
theory Discard_Spec
  imports Discard
begin

text \<open>
  What the discard table of \<open>discard.go\<close> promises to its clients, over arbitrary sequences of
  calls: a finite map from file ids to total and discarded sizes with room for 682 files. The
  operations refine the map, keep the slots of the file partitioned into free ones and records, and
  end the process exactly when a new file finds no room.
\<close>

datatype disc_op =
    IncrDiscard u32 int
  | SetTotal u32 u32
  | Clear u32
  | RemoveDiscard u32

fun disc_exec :: "disc_op \<Rightarrow> discard \<Rightarrow> unit result \<times> discard" where
  "disc_exec (IncrDiscard fid delta) d = incrDiscard d fid delta"
| "disc_exec (SetTotal fid tot) d = setTotal d fid tot"
| "disc_exec (Clear fid) d = clear d fid"
| "disc_exec (RemoveDiscard fid) d = removeDiscard d fid"

fun disc_run :: "disc_op list \<Rightarrow> discard \<Rightarrow> unit result \<times> discard" where
  "disc_run [] d = (Inr (), d)"
| "disc_run (x # xs) d =
     (case disc_exec x d of (Inl e, d') \<Rightarrow> (Inl e, d') | (Inr _, d') \<Rightarrow> disc_run xs d')"

subsection \<open>The table as a finite map\<close>

type_synonym table = "u32 \<rightharpoonup> u32 \<times> u32"

text \<open>The file that a call needs a slot for, if any.\<close>

fun wanted :: "disc_op \<Rightarrow> table \<Rightarrow> u32 option" where
  "wanted (IncrDiscard fid delta) tab = (if 0 < delta \<and> tab fid = None then Some fid else None)"
| "wanted (SetTotal fid tot) tab = (if fid \<noteq> 0 \<and> tot \<noteq> 0 \<and> tab fid = None then Some fid else None)"
| "wanted (Clear fid) tab = (if tab fid = None then Some fid else None)"
| "wanted (RemoveDiscard fid) tab = None"

fun table_step :: "disc_op \<Rightarrow> table \<Rightarrow> table" where
  "table_step (IncrDiscard fid delta) tab =
     (if delta \<le> 0 then tab
      else tab(fid \<mapsto> (case tab fid of None \<Rightarrow> (0, word_of_int delta) | Some (t, n) \<Rightarrow> (t, n + word_of_int delta))))"
| "table_step (SetTotal fid tot) tab =
     (if fid = 0 \<or> tot = 0 \<or> tab fid \<noteq> None then tab else tab(fid \<mapsto> (tot, 0)))"
| "table_step (Clear fid) tab = tab(fid := None)"
| "table_step (RemoveDiscard fid) tab = (if fid = 0 then tab else tab(fid := None))"

definition max_records :: nat where "max_records = 682"

fun table_run :: "disc_op list \<Rightarrow> table \<Rightarrow> table option" where
  "table_run [] tab = Some tab"
| "table_run (x # xs) tab =
     (if wanted x tab \<noteq> None \<and> card (dom tab) = max_records then None else table_run xs (table_step x tab))"

subsection \<open>Room\<close>

lemma dom_disc_tab: "dom (disc_tab d) = dom (location d)"
  by (auto simp: disc_tab_def dom_def)

lemma disc_tab_None: "disc_tab d fid = None \<longleftrightarrow> location d fid = None"
  by (simp add: disc_tab_def)

lemma slots_finite: "finite slots" and card_slots: "card slots = max_records"
  by (simp_all add: slots_def max_records_def card_image inj_on_def)

lemma wf_room:
  assumes wf: "discard_wf d"
  shows "length (freeList d) + card (dom (disc_tab d)) = max_records"
proof -
  have w: "distinct (freeList d)" "set (freeList d) \<union> ran (location d) = slots"
    "set (freeList d) \<inter> ran (location d) = {}" "inj_on (location d) (dom (location d))"
    using wf by (simp_all add: discard_wf_def)
  have "ran (location d) = (the \<circ> location d) ` dom (location d)" by (force simp: ran_def image_iff)
  moreover have "inj_on (the \<circ> location d) (dom (location d))"
    using w(4) by (auto intro!: inj_onI dest: inj_onD [OF _ trans [OF _ sym]])
  ultimately have "card (ran (location d)) = card (dom (location d))" by (metis card_image)
  moreover have "card slots = card (set (freeList d)) + card (ran (location d))"
    unfolding w(2) [symmetric] using w(2,3) slots_finite by (intro card_Un_disjoint) (auto intro: finite_subset)
  ultimately show ?thesis using w(1) by (simp add: card_slots distinct_card dom_disc_tab)
qed

lemma wf_full: "discard_wf d \<Longrightarrow> freeList d = [] \<longleftrightarrow> card (dom (disc_tab d)) = max_records"
  using wf_room [of d] by (cases "freeList d") auto

subsection \<open>The operations\<close>

lemma removeDiscard_tab:
  assumes wf: "discard_wf d"
  shows "\<exists>d'. removeDiscard d fid = (Inr (), d') \<and> discard_wf d' \<and>
    disc_tab d' = (if fid = 0 then disc_tab d else (disc_tab d)(fid := None))"
proof (cases "fid = 0 \<or> location d fid = None")
  case True
  then show ?thesis using wf by (auto simp: removeDiscard_def disc_tab_None fun_upd_idem split: option.splits)
next
  case False
  then obtain off where loc: "location d fid = Some off" by auto
  have "clear d fid = removeDiscard d fid"
    using False loc by (auto simp: clear_def removeDiscard_def alloc_known file_put_def split: sum.splits prod.splits)
  then show ?thesis using clear_tab [OF wf, of fid] loc False by auto
qed

lemma exec_refines:
  assumes wf: "discard_wf d" and room: "wanted x (disc_tab d) \<noteq> None \<Longrightarrow> freeList d \<noteq> []"
  shows "\<exists>d'. disc_exec x d = (Inr (), d') \<and> discard_wf d' \<and> disc_tab d' = table_step x (disc_tab d)"
proof (cases x)
  case (IncrDiscard fid delta)
  show ?thesis
  proof (cases "0 < delta")
    case True
    have "location d fid \<noteq> None \<or> freeList d \<noteq> []" using room True IncrDiscard by (auto simp: disc_tab_None)
    from incrDiscard_tab [OF wf this True] show ?thesis using IncrDiscard True by auto
  qed (use IncrDiscard wf in \<open>simp add: incrDiscard_def\<close>)
next
  case (SetTotal fid tot)
  show ?thesis
  proof (cases "fid = 0 \<or> tot = 0 \<or> location d fid \<noteq> None")
    case True
    then show ?thesis using SetTotal wf by (auto simp: setTotal_def disc_tab_None)
  next
    case False
    then show ?thesis using setTotal_tab [OF wf, of fid tot] room SetTotal by (auto simp: disc_tab_None)
  qed
next
  case (Clear fid)
  then have "location d fid \<noteq> None \<or> freeList d \<noteq> []" using room by (auto simp: disc_tab_None)
  from clear_tab [OF wf this] show ?thesis using Clear by auto
next
  case (RemoveDiscard fid)
  then show ?thesis using removeDiscard_tab [OF wf, of fid] by simp
qed

lemma exec_full:
  assumes "wanted x (disc_tab d) \<noteq> None" "freeList d = []"
  shows "disc_exec x d = (Inl Fatal, d)"
  using assms by (cases x) (auto simp: incrDiscard_def setTotal_def clear_def alloc_full disc_tab_None split: if_splits)

subsection \<open>Properties\<close>

text \<open>
  C20. On a well-formed discard table every sequence of calls of incrDiscard, setTotal, clear and
  removeDiscard does what the finite map does: as long as a slot is left for every new file the
  calls succeed, the table stays well formed (each of the 682 slots is free and zero or belongs to one
  file) and holds exactly the sizes of the map; the process ends, by \<open>log.Fatalf\<close>, exactly when
  a call needs a record for a new file while 682 files have one.
\<close>

theorem discard_calls_refine:
  assumes "discard_wf d"
  shows "case table_run xs (disc_tab d) of
      Some tab \<Rightarrow> \<exists>d'. disc_run xs d = (Inr (), d') \<and> discard_wf d' \<and> disc_tab d' = tab
    | None \<Rightarrow> \<exists>d'. disc_run xs d = (Inl Fatal, d') \<and> discard_wf d' \<and> card (dom (disc_tab d')) = max_records"
  using assms
proof (induction xs arbitrary: d)
  case (Cons x xs)
  show ?case
  proof (cases "wanted x (disc_tab d) \<noteq> None \<and> card (dom (disc_tab d)) = max_records")
    case True
    then show ?thesis using exec_full [of x d] wf_full [OF Cons.prems] Cons.prems by simp
  next
    case False
    then obtain d1 where d1: "disc_exec x d = (Inr (), d1)" "discard_wf d1" "disc_tab d1 = table_step x (disc_tab d)"
      using exec_refines [OF Cons.prems, of x] wf_full [OF Cons.prems] by blast
    then have "disc_run (x # xs) d = disc_run xs d1" by simp
    moreover have "table_run (x # xs) (disc_tab d) = table_run xs (table_step x (disc_tab d))" using False by (simp only: table_run.simps if_False)
    ultimately show ?thesis using Cons.IH [OF d1(2)] by (simp only: d1(3))
  qed
qed simp

theorem discard_calls_refine_witness:
  "\<exists>d'. disc_run [SetTotal 3 100, IncrDiscard 3 7, SetTotal 4 50, Clear 3] (fresh_discard 8) = (Inr (), d') \<and>
     disc_tab d' = [4 \<mapsto> (50, 0)]"
  using discard_calls_refine [of "fresh_discard 8" "[SetTotal 3 100, IncrDiscard 3 7, SetTotal 4 50, Clear 3]"]
  by (auto simp: max_records_def fun_upd_twist simp del: disc_run.simps)

end
