(* ===== verification/Concurrent_Map.thy ===== *)
theory Concurrent_Map
  imports Lazy_Prelude
begin

unbundle bit_operations_syntax

text \<open>
  \<open>ds/concurrent_map.go\<close>: a map split into shards. The shard of a key is its hash modulo
  the shard count, which the code keeps in eight bits. The locale \<open>kv_map\<close> is the interface
  the database uses it by (a map with lookup, update and removal); it is interpreted on the
  sharded map. An operation is one step and takes no lock; the locks of the shards are
  in \<open>Shard_Locks\<close>.
\<close>

definition DefaultShardCount :: int where
  "DefaultShardCount = 32"

subsection \<open>A shard\<close>

type_synonym ('k, 'v) MapShard = "'k \<Rightarrow> 'v option"

definition MapShard_Get :: "('k, 'v) MapShard \<Rightarrow> 'k \<Rightarrow> 'v option" where
  "MapShard_Get ms key = ms key"

definition MapShard_Set :: "('k, 'v) MapShard \<Rightarrow> 'k \<Rightarrow> 'v \<Rightarrow> ('k, 'v) MapShard" where
  "MapShard_Set ms key value = ms(key \<mapsto> value)"

definition MapShard_Has :: "('k, 'v) MapShard \<Rightarrow> 'k \<Rightarrow> bool" where
  "MapShard_Has ms key \<longleftrightarrow> ms key \<noteq> None"

definition MapShard_Remove :: "('k, 'v) MapShard \<Rightarrow> 'k \<Rightarrow> ('k, 'v) MapShard" where
  "MapShard_Remove ms key = ms(key := None)"

definition MapShard_Pop :: "('k, 'v) MapShard \<Rightarrow> 'k \<Rightarrow> 'v option \<times> ('k, 'v) MapShard" where
  "MapShard_Pop ms key = (ms key, ms(key := None))"

subsection \<open>The sharded map\<close>

record ('k, 'v) ConcurrentMap =
  shards :: "('k, 'v) MapShard list"
  sharding :: "'k \<Rightarrow> u32"
  shardCount :: byte

definition newConcurrentMap :: "int \<Rightarrow> ('k \<Rightarrow> u32) \<Rightarrow> ('k, 'v) ConcurrentMap" where
  "newConcurrentMap mapShardCount sh =
     (let n = (if mapShardCount < DefaultShardCount then DefaultShardCount else mapShardCount)
      in \<lparr>shards = replicate (nat n) Map.empty, sharding = sh, shardCount = word_of_int n\<rparr>)"

definition fnv32 :: "bytes \<Rightarrow> u32" where
  "fnv32 key = foldl (\<lambda>h b. (h * 16777619) XOR ucast b) 2166136261 key"

definition SimpleSharding :: "u32 \<Rightarrow> u32" where
  "SimpleSharding key = key"

definition NewConcurrentMap :: "int \<Rightarrow> (bytes, 'v) ConcurrentMap" where
  "NewConcurrentMap mapShardCount = newConcurrentMap mapShardCount fnv32"

definition NewWithCustomShardingFunction :: "int \<Rightarrow> ('k \<Rightarrow> u32) \<Rightarrow> ('k, 'v) ConcurrentMap" where
  "NewWithCustomShardingFunction mapShardCount sh = newConcurrentMap mapShardCount sh"

text \<open>The index of the shard: a division by zero and an index out of range panic.\<close>

definition GetShard :: "('k, 'v) ConcurrentMap \<Rightarrow> 'k \<Rightarrow> nat result" where
  "GetShard cm key =
     (if shardCount cm = 0 then Inl Panic
      else let i = unat (sharding cm key) mod unat (shardCount cm)
           in if i < length (shards cm) then Inr i else Inl Panic)"

definition cm_Get :: "('k, 'v) ConcurrentMap \<Rightarrow> 'k \<Rightarrow> 'v option result" where
  "cm_Get cm key =
     (case GetShard cm key of Inl e \<Rightarrow> Inl e | Inr i \<Rightarrow> Inr (MapShard_Get (shards cm ! i) key))"

definition cm_Set :: "('k, 'v) ConcurrentMap \<Rightarrow> 'k \<Rightarrow> 'v \<Rightarrow> ('k, 'v) ConcurrentMap result" where
  "cm_Set cm key value =
     (case GetShard cm key of
        Inl e \<Rightarrow> Inl e
      | Inr i \<Rightarrow> Inr (cm\<lparr>shards := (shards cm)[i := MapShard_Set (shards cm ! i) key value]\<rparr>))"

definition cm_Has :: "('k, 'v) ConcurrentMap \<Rightarrow> 'k \<Rightarrow> bool result" where
  "cm_Has cm key =
     (case GetShard cm key of Inl e \<Rightarrow> Inl e | Inr i \<Rightarrow> Inr (MapShard_Has (shards cm ! i) key))"

definition cm_Remove :: "('k, 'v) ConcurrentMap \<Rightarrow> 'k \<Rightarrow> ('k, 'v) ConcurrentMap result" where
  "cm_Remove cm key =
     (case GetShard cm key of
        Inl e \<Rightarrow> Inl e
      | Inr i \<Rightarrow> Inr (cm\<lparr>shards := (shards cm)[i := MapShard_Remove (shards cm ! i) key]\<rparr>))"

definition cm_Pop :: "('k, 'v) ConcurrentMap \<Rightarrow> 'k \<Rightarrow> ('v option \<times> ('k, 'v) ConcurrentMap) result" where
  "cm_Pop cm key =
     (case GetShard cm key of
        Inl e \<Rightarrow> Inl e
      | Inr i \<Rightarrow>
          (case MapShard_Pop (shards cm ! i) key of
             (v, ms) \<Rightarrow> Inr (v, cm\<lparr>shards := (shards cm)[i := ms]\<rparr>)))"

definition cm_Size :: "('k, 'v) ConcurrentMap \<Rightarrow> nat" where
  "cm_Size cm = sum_list (map (\<lambda>m. card (dom m)) (shards cm))"

subsection \<open>Invariant and abstraction\<close>

definition shard_of :: "('k, 'v) ConcurrentMap \<Rightarrow> 'k \<Rightarrow> nat" where
  "shard_of cm key = unat (sharding cm key) mod unat (shardCount cm)"

definition cm_view :: "('k, 'v) ConcurrentMap \<Rightarrow> 'k \<Rightarrow> 'v option" where
  "cm_view cm key = (shards cm ! shard_of cm key) key"

definition cm_wf :: "('k, 'v) ConcurrentMap \<Rightarrow> bool" where
  "cm_wf cm \<longleftrightarrow> shardCount cm \<noteq> 0 \<and> unat (shardCount cm) \<le> length (shards cm) \<and>
     (\<forall>i < length (shards cm). finite (dom (shards cm ! i)) \<and>
        (\<forall>k \<in> dom (shards cm ! i). shard_of cm k = i))"

locale kv_map =
  fixes get :: "'m \<Rightarrow> 'k \<Rightarrow> 'v option result"
    and put :: "'m \<Rightarrow> 'k \<Rightarrow> 'v \<Rightarrow> 'm result"
    and remove :: "'m \<Rightarrow> 'k \<Rightarrow> 'm result"
    and view :: "'m \<Rightarrow> 'k \<Rightarrow> 'v option"
    and inv :: "'m \<Rightarrow> bool"
  assumes get_view: "inv m \<Longrightarrow> get m k = Inr (view m k)"
    and put_view: "inv m \<Longrightarrow> \<exists>m'. put m k v = Inr m' \<and> inv m' \<and> view m' = (view m)(k \<mapsto> v)"
    and remove_view: "inv m \<Longrightarrow> \<exists>m'. remove m k = Inr m' \<and> inv m' \<and> view m' = (view m)(k := None)"
begin

lemma get_put:
  "inv m \<Longrightarrow> put m k v = Inr m' \<Longrightarrow> get m' k' = (if k' = k then Inr (Some v) else get m k')"
  using put_view [of m k v] by (auto simp: get_view)

lemma get_remove:
  "inv m \<Longrightarrow> remove m k = Inr m' \<Longrightarrow> get m' k' = (if k' = k then Inr None else get m k')"
  using remove_view [of m k] by (auto simp: get_view)

lemma put_inv: "inv m \<Longrightarrow> put m k v = Inr m' \<Longrightarrow> inv m' \<and> view m' = (view m)(k \<mapsto> v)"
  using put_view [of m k v] by auto

lemma remove_inv: "inv m \<Longrightarrow> remove m k = Inr m' \<Longrightarrow> inv m' \<and> view m' = (view m)(k := None)"
  using remove_view [of m k] by auto

end

lemma shard_of_less: "cm_wf cm \<Longrightarrow> shard_of cm k < length (shards cm)"
  unfolding cm_wf_def shard_of_def
  by (metis mod_less_divisor order_less_le_trans unat_gt_0)

lemma GetShard_wf: "cm_wf cm \<Longrightarrow> GetShard cm k = Inr (shard_of cm k)"
  using shard_of_less [of cm k] by (auto simp: GetShard_def cm_wf_def shard_of_def Let_def)

lemma shard_of_update [simp]: "shard_of (cm\<lparr>shards := s\<rparr>) = shard_of cm"
  by (simp add: shard_of_def fun_eq_iff)

lemma cm_wfI:
  assumes "shardCount cm \<noteq> 0" "unat (shardCount cm) \<le> length (shards cm)"
    and "\<And>i. i < length (shards cm) \<Longrightarrow>
      finite (dom (shards cm ! i)) \<and> (\<forall>k \<in> dom (shards cm ! i). shard_of cm k = i)"
  shows "cm_wf cm"
  using assms unfolding cm_wf_def by blast

lemma shardD:
  "cm_wf cm \<Longrightarrow> i < length (shards cm) \<Longrightarrow>
     finite (dom (shards cm ! i)) \<and> (\<forall>k \<in> dom (shards cm ! i). shard_of cm k = i)"
  by (simp add: cm_wf_def)

lemma cm_update_wf:
  assumes "cm_wf cm" "finite (dom m)" "\<forall>k' \<in> dom m. shard_of cm k' = s"
  shows "cm_wf (cm\<lparr>shards := (shards cm)[s := m]\<rparr>)"
proof (rule cm_wfI)
  let ?cm = "cm\<lparr>shards := (shards cm)[s := m]\<rparr>"
  show "shardCount ?cm \<noteq> 0" "unat (shardCount ?cm) \<le> length (shards ?cm)"
    using assms(1) by (simp_all add: cm_wf_def)
  fix i
  assume "i < length (shards ?cm)"
  then have i: "i < length (shards cm)" by simp
  show "finite (dom (shards ?cm ! i)) \<and> (\<forall>k' \<in> dom (shards ?cm ! i). shard_of ?cm k' = i)"
    using i shardD [OF assms(1) i] assms(2,3) by (cases "i = s") simp_all
qed

lemma cm_update_view:
  assumes "cm_wf cm" "m = (shards cm ! shard_of cm k)(k := x)"
  shows "cm_view (cm\<lparr>shards := (shards cm)[shard_of cm k := m]\<rparr>) = (cm_view cm)(k := x)"
  using assms shard_of_less [OF assms(1)] by (auto simp: cm_view_def nth_list_update)

lemma shard_dom:
  "cm_wf cm \<Longrightarrow> finite (dom (shards cm ! shard_of cm k)) \<and>
     (\<forall>k' \<in> dom (shards cm ! shard_of cm k). shard_of cm k' = shard_of cm k)"
  by (simp add: shardD shard_of_less)

interpretation cm: kv_map cm_Get cm_Set cm_Remove cm_view cm_wf
proof unfold_locales
  fix m :: "('a, 'b) ConcurrentMap" and k v
  assume wf: "cm_wf m"
  then show "cm_Get m k = Inr (cm_view m k)"
    by (simp add: cm_Get_def GetShard_wf MapShard_Get_def cm_view_def)
  have "cm_wf (m\<lparr>shards := (shards m)[shard_of m k := (shards m ! shard_of m k)(k := x)]\<rparr>)" for x
    using shard_dom [OF wf, of k] by (intro cm_update_wf wf)
      (auto intro: finite_subset [of _ "insert k (dom (shards m ! shard_of m k))"] split: if_splits)
  note upd = this cm_update_view [OF wf refl]
  show "\<exists>m'. cm_Set m k v = Inr m' \<and> cm_wf m' \<and> cm_view m' = (cm_view m)(k \<mapsto> v)"
    using wf upd by (simp add: cm_Set_def GetShard_wf MapShard_Set_def)
  show "\<exists>m'. cm_Remove m k = Inr m' \<and> cm_wf m' \<and> cm_view m' = (cm_view m)(k := None)"
    using wf upd by (simp add: cm_Remove_def GetShard_wf MapShard_Remove_def)
qed

lemma newConcurrentMap_wf:
  assumes "n < 32 \<or> n mod 256 \<noteq> 0"
  shows "cm_wf (newConcurrentMap n sh)"
proof -
  let ?n = "if n < DefaultShardCount then DefaultShardCount else n"
  have "0 \<le> ?n" by (simp add: DefaultShardCount_def)
  then have "?n mod 256 \<le> ?n" by (rule zmod_le_nonneg_dividend)
  then have "unat (word_of_int ?n :: byte) \<le> nat ?n"
    by (simp add: unsigned_of_int take_bit_eq_mod nat_mono)
  moreover have "(word_of_int ?n :: byte) \<noteq> 0"
    using assms by (auto simp: DefaultShardCount_def word_of_int_eq_0_iff dvd_eq_mod_eq_0)
  ultimately show ?thesis
    by (simp add: cm_wf_def newConcurrentMap_def Let_def)
qed

lemma newConcurrentMap_view:
  assumes "n < 32 \<or> n mod 256 \<noteq> 0"
  shows "cm_view (newConcurrentMap n sh :: ('k, 'v) ConcurrentMap) = Map.empty"
proof
  fix k
  define cm :: "('k, 'v) ConcurrentMap" where "cm = newConcurrentMap n sh"
  have "shards cm = replicate (length (shards cm)) Map.empty"
    by (simp add: cm_def newConcurrentMap_def Let_def)
  moreover have "shard_of cm k < length (shards cm)"
    unfolding cm_def by (rule shard_of_less) (rule newConcurrentMap_wf [OF assms])
  ultimately have "shards cm ! shard_of cm k = Map.empty"
    by (metis nth_replicate)
  then show "cm_view (newConcurrentMap n sh :: ('k, 'v) ConcurrentMap) k = None"
    by (simp add: cm_view_def cm_def)
qed

lemma cm_dom:
  assumes wf: "cm_wf cm"
  shows "dom (cm_view cm) = (\<Union>i < length (shards cm). dom (shards cm ! i))"
proof (intro equalityI subsetI)
  fix k assume "k \<in> dom (cm_view cm)"
  then have "k \<in> dom (shards cm ! shard_of cm k)" by (auto simp: cm_view_def)
  then show "k \<in> (\<Union>i < length (shards cm). dom (shards cm ! i))"
    using shard_of_less [OF wf, of k] by blast
next
  fix k assume "k \<in> (\<Union>i < length (shards cm). dom (shards cm ! i))"
  then obtain i where i: "i < length (shards cm)" "k \<in> dom (shards cm ! i)" by blast
  then have "shard_of cm k = i" using shardD [OF wf i(1)] by blast
  with i(2) show "k \<in> dom (cm_view cm)" by (auto simp: cm_view_def)
qed

lemma cm_finite: "cm_wf cm \<Longrightarrow> finite (dom (cm_view cm))"
  unfolding cm_dom using shardD [of cm] by auto

lemma cm_Size_view:
  assumes wf: "cm_wf cm"
  shows "cm_Size cm = card (dom (cm_view cm))"
proof -
  let ?n = "length (shards cm)" and ?d = "\<lambda>i. dom (shards cm ! i)"
  have "?d i \<inter> ?d j = {}" if "i < ?n" "j < ?n" "i \<noteq> j" for i j
    using shardD [OF wf that(1)] shardD [OF wf that(2)] that(3) by (metis disjoint_iff)
  moreover have "finite (?d i)" if "i < ?n" for i
    using shardD [OF wf that] by blast
  ultimately have "card (dom (cm_view cm)) = (\<Sum>i < ?n. card (?d i))"
    unfolding cm_dom [OF wf] by (intro card_UN_disjoint) auto
  then show ?thesis
    by (simp add: cm_Size_def sum_list_sum_nth atLeast0LessThan)
qed

subsection \<open>Properties\<close>

text \<open>
  C40. The sharded map is a map: after Set a lookup gives the new value for that key and the old
  result for every other one, after Remove the key is gone and the others are as before, Has and Pop answer as
  a lookup, and Size is, before and after, the number of keys for which a lookup finds a value. The map is well
  formed (\<open>cm_wf\<close>), as \<open>NewConcurrentMap\<close> makes it unless the number of shards is a multiple of 256.
\<close>

theorem ConcurrentMap_refines:
  assumes "cm_wf cm"
  shows "\<exists>c1 c2. cm_Set cm k v = Inr c1 \<and> cm_wf c1 \<and> cm_Remove cm k = Inr c2 \<and> cm_wf c2 \<and>
    (\<forall>k'. cm_Get c1 k' = (if k' = k then Inr (Some v) else cm_Get cm k')) \<and>
    (\<forall>k'. cm_Get c2 k' = (if k' = k then Inr None else cm_Get cm k')) \<and>
    (\<exists>x. cm_Get cm k = Inr x \<and> cm_Has cm k = Inr (x \<noteq> None) \<and> cm_Pop cm k = Inr (x, c2)) \<and>
    (\<forall>c \<in> {cm, c1, c2}. finite {k'. cm_Get c k' \<noteq> Inr None} \<and> cm_Size c = card {k'. cm_Get c k' \<noteq> Inr None})"
proof -
  obtain c1 where c1: "cm_Set cm k v = Inr c1" "cm_wf c1" "cm_view c1 = (cm_view cm)(k \<mapsto> v)"
    using cm.put_view [OF assms] by blast
  obtain c2 where c2: "cm_Remove cm k = Inr c2" "cm_wf c2" using cm.remove_view [OF assms] by blast
  have siz: "finite {k'. cm_Get c k' \<noteq> Inr None} \<and> cm_Size c = card {k'. cm_Get c k' \<noteq> Inr None}" if "cm_wf c" for c :: "('a, 'b) ConcurrentMap"
    using cm_Size_view [OF that] cm_finite [OF that] by (simp add: cm.get_view [OF that] dom_def)
  have "\<forall>c \<in> {cm, c1, c2}. finite {k'. cm_Get c k' \<noteq> Inr None} \<and> cm_Size c = card {k'. cm_Get c k' \<noteq> Inr None}"
    using siz assms c1(2) c2(2) by blast
  moreover have "cm_Has cm k = Inr (cm_view cm k \<noteq> None)" "cm_Pop cm k = Inr (cm_view cm k, c2)"
    using c2(1) by (simp_all add: cm_Has_def cm_Pop_def cm_Remove_def GetShard_wf [OF assms] MapShard_Has_def MapShard_Pop_def
        MapShard_Remove_def cm_view_def)
  ultimately show ?thesis
    using c1(1,2) c2 cm.get_put [OF assms c1(1)] cm.get_remove [OF assms c2(1)] cm.get_view [OF assms, of k] by blast
qed

theorem ConcurrentMap_refines_witness:
  "\<exists>c1. cm_Set (NewConcurrentMap 32) [1] (7::nat) = Inr c1 \<and> cm_Get c1 [1] = Inr (Some 7) \<and> cm_Get c1 [2] = Inr None \<and> cm_Size c1 = 1"
proof -
  let ?m = "NewConcurrentMap 32 :: (bytes, nat) ConcurrentMap"
  have wf: "cm_wf ?m" by (simp add: NewConcurrentMap_def newConcurrentMap_wf)
  have none: "cm_Get ?m k = Inr None" for k
    by (simp add: cm.get_view [OF wf]) (simp add: NewConcurrentMap_def newConcurrentMap_view)
  obtain c1 where c1: "cm_Set ?m [1] 7 = Inr c1" "\<forall>k'. cm_Get c1 k' = (if k' = [1] then Inr (Some 7) else cm_Get ?m k')"
    "cm_Size c1 = card {k'. cm_Get c1 k' \<noteq> Inr None}"
    using ConcurrentMap_refines [OF wf, of "[1]" 7] by auto
  moreover have "{k'. cm_Get c1 k' \<noteq> Inr None} = {[1]}" using c1(2) none by auto
  ultimately show ?thesis using none by auto
qed

text \<open>
  The shard count is kept in eight bits. A new map finds the shard of every key, unless the
  requested count is a multiple of 256, when the division by zero panics for every key.
\<close>

theorem GetShard_new:
  "(\<exists>i < length (shards cm). GetShard cm k = Inr i) \<and> \<not> (32 \<le> n \<and> n mod 256 = 0) \<or>
   GetShard cm k = Inl Panic \<and> 32 \<le> n \<and> n mod 256 = 0" if "cm = newConcurrentMap n sh"
proof (cases "32 \<le> n \<and> n mod 256 = 0")
  case True
  then have "(word_of_int n :: byte) = 0" by (simp add: word_of_int_eq_0_iff dvd_eq_mod_eq_0)
  with True that show ?thesis by (simp add: GetShard_def newConcurrentMap_def DefaultShardCount_def)
next
  case False
  then have wf: "cm_wf cm" using newConcurrentMap_wf [of n sh] that by auto
  then show ?thesis using GetShard_wf [OF wf, of k] shard_of_less [OF wf, of k] False by blast
qed

theorem GetShard_new_witness:
  "GetShard (newConcurrentMap 256 fnv32 :: (bytes, nat) ConcurrentMap) [1] = Inl Panic"
  using GetShard_new [of "newConcurrentMap 256 fnv32 :: (bytes, nat) ConcurrentMap" 256 fnv32 "[1]"] by simp

end
