(* ===== verification/Go_Sync.thy ===== *)
theory Go_Sync
  imports Lazy_Prelude
begin

text \<open>
  \<open>sync.RWMutex\<close>: taking a lock that is not free blocks (\<open>None\<close>), releasing one that is not
  held stops the process. \<open>locked\<close> is a critical section with a deferred \<open>Unlock\<close>.
\<close>

record RWMutex =
  writer :: bool
  readers :: nat

definition RW_Lock :: "RWMutex \<Rightarrow> RWMutex option" where
  "RW_Lock mu = (if writer mu \<or> readers mu \<noteq> 0 then None else Some (mu\<lparr>writer := True\<rparr>))"

definition RW_RLock :: "RWMutex \<Rightarrow> RWMutex option" where
  "RW_RLock mu = (if writer mu then None else Some (mu\<lparr>readers := readers mu + 1\<rparr>))"

definition RW_Unlock :: "RWMutex \<Rightarrow> RWMutex result" where
  "RW_Unlock mu = (if writer mu then Inr (mu\<lparr>writer := False\<rparr>) else Inl Fatal)"

definition RW_RUnlock :: "RWMutex \<Rightarrow> RWMutex result" where
  "RW_RUnlock mu = (if readers mu = 0 then Inl Fatal else Inr (mu\<lparr>readers := readers mu - 1\<rparr>))"

text \<open>The lock that has just been taken can be released, so the last \<open>None\<close> does not occur.\<close>

definition locked :: "('d \<Rightarrow> 'r \<times> 'd) \<Rightarrow> 'd \<Rightarrow> RWMutex \<Rightarrow> ('r \<times> 'd \<times> RWMutex) option" where
  "locked f db mu =
     (case RW_Lock mu of
        None \<Rightarrow> None
      | Some mu1 \<Rightarrow>
          (case f db of
             (r, db') \<Rightarrow> (case RW_Unlock mu1 of Inl e \<Rightarrow> None | Inr mu2 \<Rightarrow> Some (r, db', mu2))))"

lemma lock_unlock:
  "RW_Lock mu = Some mu1 \<Longrightarrow> RW_Unlock mu1 = Inr mu"
  by (cases mu) (auto simp: RW_Lock_def RW_Unlock_def split: if_splits)

lemma locked_free: "RW_Lock mu \<noteq> None \<Longrightarrow> f db = (r, db') \<Longrightarrow> locked f db mu = Some (r, db', mu)"
  using lock_unlock by (auto simp: locked_def)

lemma locked_held: "writer mu \<Longrightarrow> locked f db mu = None"
  by (simp add: locked_def RW_Lock_def)

end
