(* ===== verification/Shard_Locks.thy ===== *)
theory Shard_Locks
  imports Concurrent_Map Go_Sync
begin

text \<open>
  The locks of the shards (\<open>GetShardByReading\<close>, \<open>GetShardByWriting\<close> of \<open>ds/concurrent_map.go\<close>): a
  client gets the shard of a key with its lock taken, works on the shard and releases the lock.
  The locks stand beside the shards, in the same order. \<open>shard_reach\<close> is the machine of any number
  of such clients, together with the methods of the map, which take no lock.
\<close>

definition GetShardByReading ::
    "('k, 'v) ConcurrentMap \<Rightarrow> 'k \<Rightarrow> RWMutex list \<Rightarrow> (nat result \<times> RWMutex list) option" where
  "GetShardByReading cm key mus =
     (case GetShard cm key of
        Inl e \<Rightarrow> Some (Inl e, mus)
      | Inr i \<Rightarrow> map_option (\<lambda>mu. (Inr i, mus[i := mu])) (RW_RLock (mus ! i)))"

definition GetShardByWriting ::
    "('k, 'v) ConcurrentMap \<Rightarrow> 'k \<Rightarrow> RWMutex list \<Rightarrow> (nat result \<times> RWMutex list) option" where
  "GetShardByWriting cm key mus =
     (case GetShard cm key of
        Inl e \<Rightarrow> Some (Inl e, mus)
      | Inr i \<Rightarrow> map_option (\<lambda>mu. (Inr i, mus[i := mu])) (RW_Lock (mus ! i)))"

subsection \<open>Clients\<close>

text \<open>A client holds the shard with this index, for writing or for reading.\<close>

type_synonym holder = "nat \<times> bool"

definition release :: "holder \<Rightarrow> RWMutex list \<Rightarrow> RWMutex list result" where
  "release h mus =
     (case (if snd h then RW_Unlock (mus ! fst h) else RW_RUnlock (mus ! fst h)) of
        Inl e \<Rightarrow> Inl e
      | Inr mu \<Rightarrow> Inr (mus[fst h := mu]))"

inductive shard_reach :: "('k, 'v) ConcurrentMap \<Rightarrow> RWMutex list \<Rightarrow> holder list \<Rightarrow> bool" where
  shards_new: "cm_wf cm \<Longrightarrow> shard_reach cm (replicate (length (shards cm)) \<lparr>writer = False, readers = 0\<rparr>) []"
| shards_read: "shard_reach cm mus hs \<Longrightarrow> GetShardByReading cm key mus = Some (Inr i, mus') \<Longrightarrow>
    shard_reach cm mus' ((i, False) # hs)"
| shards_write: "shard_reach cm mus hs \<Longrightarrow> GetShardByWriting cm key mus = Some (Inr i, mus') \<Longrightarrow>
    shard_reach cm mus' ((i, True) # hs)"
| shards_release: "shard_reach cm mus (xs @ h # ys) \<Longrightarrow> release h mus = Inr mus' \<Longrightarrow> shard_reach cm mus' (xs @ ys)"
| shards_set: "shard_reach cm mus hs \<Longrightarrow> cm_Set cm key v = Inr cm' \<Longrightarrow> shard_reach cm' mus hs"
| shards_remove: "shard_reach cm mus hs \<Longrightarrow> cm_Remove cm key = Inr cm' \<Longrightarrow> shard_reach cm' mus hs"

definition writers_of :: "nat \<Rightarrow> holder list \<Rightarrow> nat" where
  "writers_of i hs = length (filter (\<lambda>h. h = (i, True)) hs)"

definition readers_of :: "nat \<Rightarrow> holder list \<Rightarrow> nat" where
  "readers_of i hs = length (filter (\<lambda>h. h = (i, False)) hs)"

lemma holders_simps [simp]:
  "writers_of i [] = 0" "readers_of i [] = 0"
  "writers_of i (h # hs) = (if h = (i, True) then 1 else 0) + writers_of i hs"
  "readers_of i (h # hs) = (if h = (i, False) then 1 else 0) + readers_of i hs"
  "writers_of i (xs @ ys) = writers_of i xs + writers_of i ys"
  "readers_of i (xs @ ys) = readers_of i xs + readers_of i ys"
  by (simp_all add: writers_of_def readers_of_def)

definition mutex_ok :: "RWMutex \<Rightarrow> nat \<Rightarrow> nat \<Rightarrow> bool" where
  "mutex_ok mu w r \<longleftrightarrow> w = (if writer mu then 1 else 0) \<and> r = readers mu \<and> (writer mu \<longrightarrow> readers mu = 0)"

definition shard_inv :: "('k, 'v) ConcurrentMap \<Rightarrow> RWMutex list \<Rightarrow> holder list \<Rightarrow> bool" where
  "shard_inv cm mus hs \<longleftrightarrow> cm_wf cm \<and> length mus = length (shards cm) \<and> (\<forall>h \<in> set hs. fst h < length (shards cm)) \<and>
     (\<forall>i < length mus. mutex_ok (mus ! i) (writers_of i hs) (readers_of i hs))"

lemma mutex_ok_steps:
  "mutex_ok mu w r \<Longrightarrow> RW_Lock mu = Some mu' \<Longrightarrow> mutex_ok mu' (Suc w) r"
  "mutex_ok mu w r \<Longrightarrow> RW_RLock mu = Some mu' \<Longrightarrow> mutex_ok mu' w (Suc r)"
  "mutex_ok mu (Suc w) r \<Longrightarrow> RW_Unlock mu = Inr mu' \<Longrightarrow> mutex_ok mu' w r"
  "mutex_ok mu w (Suc r) \<Longrightarrow> RW_RUnlock mu = Inr mu' \<Longrightarrow> mutex_ok mu' w r"
  by (auto simp: mutex_ok_def RW_Lock_def RW_RLock_def RW_Unlock_def RW_RUnlock_def split: if_splits)

lemma shard_inv_step:
  assumes "shard_inv cm mus hs" "i < length mus" "mutex_ok mu (writers_of i hs') (readers_of i hs')"
    and "\<And>j. j \<noteq> i \<Longrightarrow> writers_of j hs' = writers_of j hs \<and> readers_of j hs' = readers_of j hs"
    and "\<forall>h \<in> set hs'. fst h = i \<or> h \<in> set hs"
  shows "shard_inv cm (mus[i := mu]) hs'"
  using assms unfolding shard_inv_def by (auto simp: nth_list_update)

lemma release_inv:
  assumes inv: "shard_inv cm mus (xs @ h # ys)" and r: "release h mus = Inr mus'"
  shows "shard_inv cm mus' (xs @ ys)"
proof -
  obtain i w where h: "h = (i, w)" by (cases h)
  obtain mu where mu: "(if w then RW_Unlock (mus ! i) else RW_RUnlock (mus ! i)) = Inr mu" "mus' = mus[i := mu]"
    using r h by (cases w) (auto simp: release_def split: sum.splits)
  have i: "i < length mus" "mutex_ok (mus ! i) (writers_of i (xs @ h # ys)) (readers_of i (xs @ h # ys))"
    using inv h by (auto simp: shard_inv_def)
  have "mutex_ok mu (writers_of i (xs @ ys)) (readers_of i (xs @ ys))"
    using i(2) mu(1) h mutex_ok_steps(3,4) [of "mus ! i" _ _ mu] by (cases w) auto
  then show ?thesis unfolding mu(2) using h by (intro shard_inv_step [OF inv i(1)]) auto
qed

lemma shard_reach_inv: "shard_reach cm mus hs \<Longrightarrow> shard_inv cm mus hs"
proof (induction rule: shard_reach.induct)
  case (shards_new cm)
  then show ?case by (simp add: shard_inv_def mutex_ok_def)
next
  case (shards_read cm mus hs key i mus')
  have wf: "cm_wf cm" "length mus = length (shards cm)" using shards_read.IH by (simp_all add: shard_inv_def)
  then obtain mu where "i = shard_of cm key" "RW_RLock (mus ! i) = Some mu" "mus' = mus[i := mu]"
    using shards_read.hyps(2) by (auto simp: GetShardByReading_def GetShard_wf)
  then show ?case using shards_read.IH mutex_ok_steps(2) shard_of_less [OF wf(1), of key] wf(2)
    by (auto intro!: shard_inv_step [OF shards_read.IH] simp: shard_inv_def)
next
  case (shards_write cm mus hs key i mus')
  have wf: "cm_wf cm" "length mus = length (shards cm)" using shards_write.IH by (simp_all add: shard_inv_def)
  then obtain mu where "i = shard_of cm key" "RW_Lock (mus ! i) = Some mu" "mus' = mus[i := mu]"
    using shards_write.hyps(2) by (auto simp: GetShardByWriting_def GetShard_wf)
  then show ?case using shards_write.IH mutex_ok_steps(1) shard_of_less [OF wf(1), of key] wf(2)
    by (auto intro!: shard_inv_step [OF shards_write.IH] simp: shard_inv_def)
next
  case (shards_release cm mus xs h ys mus')
  then show ?case by (auto intro: release_inv)
next
  case (shards_set cm mus hs key v cm')
  have "length (shards cm') = length (shards cm)"
    using shards_set.hyps(2) by (auto simp: cm_Set_def split: sum.splits)
  then show ?case using shards_set.IH cm.put_inv [OF _ shards_set.hyps(2)] by (simp add: shard_inv_def)
next
  case (shards_remove cm mus hs key cm')
  have "length (shards cm') = length (shards cm)"
    using shards_remove.hyps(2) by (auto simp: cm_Remove_def split: sum.splits)
  then show ?case using shards_remove.IH cm.remove_inv [OF _ shards_remove.hyps(2)] by (simp add: shard_inv_def)
qed

subsection \<open>Properties\<close>

text \<open>
  Among the clients that take the lock of a shard a writer is alone: a shard that is held for
  writing is held by nobody else, a client that asks for it blocks, and every holder can release
  its lock.
\<close>

theorem shard_lock_exclusive:
  assumes reach: "shard_reach cm mus (xs @ h # ys)"
  shows "(\<exists>mus'. release h mus = Inr mus') \<and>
    (snd h \<longrightarrow> fst h \<notin> fst ` set (xs @ ys) \<and>
       (shard_of cm key = fst h \<longrightarrow> GetShardByReading cm key mus = None \<and> GetShardByWriting cm key mus = None))"
proof -
  obtain i w where h: "h = (i, w)" by (cases h)
  have inv: "shard_inv cm mus (xs @ h # ys)" using reach by (rule shard_reach_inv)
  then have wf: "cm_wf cm" and m: "mutex_ok (mus ! i) (writers_of i (xs @ h # ys)) (readers_of i (xs @ h # ys))"
    using h by (auto simp: shard_inv_def)
  have "\<exists>mus'. release h mus = Inr mus'"
    using m h by (cases w) (auto simp: release_def mutex_ok_def RW_Unlock_def RW_RUnlock_def split: if_splits)
  moreover have "i \<notin> fst ` set (xs @ ys) \<and> writer (mus ! i)" if w
  proof -
    have "writer (mus ! i)" and z: "writers_of i (xs @ ys) = 0" "readers_of i (xs @ ys) = 0"
      using m h that by (auto simp: mutex_ok_def split: if_splits)
    moreover have "(i, b) \<notin> set (xs @ ys)" for b
      using z by (cases b) (auto simp: writers_of_def readers_of_def filter_empty_conv simp del: holders_simps)
    ultimately show ?thesis by force
  qed
  ultimately show ?thesis
    using h wf by (auto simp: GetShardByReading_def GetShardByWriting_def GetShard_wf RW_RLock_def RW_Lock_def)
qed

text \<open>
  The methods of the map do not take the lock: while a client holds the shard of a key for writing,
  as \<open>Merge\<close> does, \<open>Set\<close> of the same key goes through and changes what the client reads.
\<close>

theorem shard_lock_bypassed:
  assumes "shard_reach cm mus ((shard_of cm key, True) # hs)" "cm_Get cm key = Inr x" "x \<noteq> Some v"
  shows "\<exists>cm'. cm_Set cm key v = Inr cm' \<and> shard_reach cm' mus ((shard_of cm key, True) # hs) \<and>
    cm_Get cm' key = Inr (Some v) \<and> cm_Get cm' key \<noteq> cm_Get cm key"
proof -
  have wf: "cm_wf cm" using shard_reach_inv [OF assms(1)] by (simp add: shard_inv_def)
  obtain cm' where "cm_Set cm key v = Inr cm'" using cm.put_view [OF wf] by blast
  then show ?thesis using cm.get_put [OF wf] shards_set [OF assms(1)] assms(2,3) by force
qed

end
