(* ===== verification/Mmap.thy ===== *)
theory Mmap
  imports IO_Controller
begin

unbundle bit_operations_syntax

text \<open>
  \<open>mmap/\<close> and the controller of \<open>iocontroller/mmap.go\<close>: mapping a file into memory and reading and
  writing the mapped bytes.

  The system calls are a record of operations on the state of the operating system, with their
  documented behaviour as the locale \<open>mm_os\<close>: a shared mapping shows the contents of its file and a
  store into it changes the file. Over any such system the controller does what
  \<open>IO_Controller\<close> says of a mapped file. A page table with byte-sized pages satisfies the laws.
\<close>

subsection \<open>The operating system\<close>

text \<open>The header of a byte slice: where it starts, its length and its capacity.\<close>

record mslice =
  s_data :: nat
  s_len :: nat
  s_cap :: nat

definition nil_slice :: mslice where
  "nil_slice = \<lparr>s_data = 0, s_len = 0, s_cap = 0\<rparr>"

definition PROT_READ :: int where "PROT_READ = 1"
definition PROT_WRITE :: int where "PROT_WRITE = 2"
definition MAP_SHARED :: int where "MAP_SHARED = 1"
definition MADV_NORMAL :: int where "MADV_NORMAL = 0"
definition MADV_RANDOM :: int where "MADV_RANDOM = 1"
definition MS_SYNC :: int where "MS_SYNC = 4"

text \<open>A file descriptor is known by the name of its file.\<close>

record 'k os =
  os_Mmap :: "bytes \<Rightarrow> int \<Rightarrow> int \<Rightarrow> int \<Rightarrow> int \<Rightarrow> 'k \<Rightarrow> mslice result \<times> 'k"
  os_Munmap :: "mslice \<Rightarrow> 'k \<Rightarrow> err option \<times> 'k"
  sys_munmap :: "nat \<Rightarrow> nat \<Rightarrow> 'k \<Rightarrow> err option \<times> 'k"
  sys_mremap :: "nat \<Rightarrow> nat \<Rightarrow> nat \<Rightarrow> int \<Rightarrow> 'k \<Rightarrow> nat result \<times> 'k"
  os_Madvise :: "mslice \<Rightarrow> int \<Rightarrow> 'k \<Rightarrow> err option \<times> 'k"
  sys_madvise :: "nat \<Rightarrow> nat \<Rightarrow> int \<Rightarrow> 'k \<Rightarrow> err option \<times> 'k"
  os_Msync :: "mslice \<Rightarrow> int \<Rightarrow> 'k \<Rightarrow> err option \<times> 'k"
  os_load :: "nat \<Rightarrow> nat \<Rightarrow> 'k \<Rightarrow> bytes"
  os_store :: "nat \<Rightarrow> bytes \<Rightarrow> 'k \<Rightarrow> 'k"
  os_OpenFile :: "bytes \<Rightarrow> 'k \<Rightarrow> err option \<times> 'k"
  os_Size :: "bytes \<Rightarrow> 'k \<Rightarrow> int result"
  os_Truncate :: "bytes \<Rightarrow> int \<Rightarrow> 'k \<Rightarrow> err option \<times> 'k"
  os_Close :: "bytes \<Rightarrow> 'k \<Rightarrow> err option \<times> 'k"
  os_Remove :: "bytes \<Rightarrow> 'k \<Rightarrow> err option \<times> 'k"

subsection \<open>The package mmap\<close>

definition mMap :: "'k os \<Rightarrow> bytes \<Rightarrow> bool \<Rightarrow> int \<Rightarrow> 'k \<Rightarrow> mslice result \<times> 'k" where
  "mMap K fd writable fsz k =
     (let mType = (if writable then PROT_READ OR PROT_WRITE else PROT_READ)
      in os_Mmap K fd 0 fsz mType MAP_SHARED k)"

definition mUnmap :: "'k os \<Rightarrow> mslice \<Rightarrow> 'k \<Rightarrow> err option \<times> 'k" where
  "mUnmap K b k =
     (if s_len b = 0 \<or> s_len b \<noteq> s_cap b then (Some EINVAL, k) else sys_munmap K (s_data b) (s_len b) k)"

definition MREMAP_MAYMOVE :: int where "MREMAP_MAYMOVE = 1"

definition mRemap :: "'k os \<Rightarrow> mslice \<Rightarrow> nat \<Rightarrow> 'k \<Rightarrow> mslice result \<times> 'k" where
  "mRemap K b n k =
     (case sys_mremap K (s_data b) (s_len b) n MREMAP_MAYMOVE k of
        (Inl e, k') \<Rightarrow> (Inl e, k')
      | (Inr addr, k') \<Rightarrow> (Inr \<lparr>s_data = addr, s_len = n, s_cap = n\<rparr>, k'))"

definition mAdvise :: "'k os \<Rightarrow> mslice \<Rightarrow> bool \<Rightarrow> 'k \<Rightarrow> err option \<times> 'k" where
  "mAdvise K b randomRead k = os_Madvise K b (if randomRead then MADV_RANDOM else MADV_NORMAL) k"

definition mSync :: "'k os \<Rightarrow> mslice \<Rightarrow> 'k \<Rightarrow> err option \<times> 'k" where
  "mSync K b k = os_Msync K b MS_SYNC k"

text \<open>The variants for macOS; \<open>&b[0]\<close> of an empty slice panics.\<close>

definition mUnmap_darwin :: "'k os \<Rightarrow> mslice \<Rightarrow> 'k \<Rightarrow> err option \<times> 'k" where
  "mUnmap_darwin K b k = os_Munmap K b k"

definition mAdvise_darwin :: "'k os \<Rightarrow> mslice \<Rightarrow> bool \<Rightarrow> 'k \<Rightarrow> err option \<times> 'k" where
  "mAdvise_darwin K b randomRead k =
     (if s_len b = 0 then (Some Panic, k)
      else sys_madvise K (s_data b) (s_len b) (if randomRead then MADV_RANDOM else MADV_NORMAL) k)"

definition MMap :: "'k os \<Rightarrow> bytes \<Rightarrow> bool \<Rightarrow> int \<Rightarrow> 'k \<Rightarrow> mslice result \<times> 'k" where
  "MMap K fd writable fsz k = mMap K fd writable fsz k"

definition MUnmap :: "'k os \<Rightarrow> mslice \<Rightarrow> 'k \<Rightarrow> err option \<times> 'k" where
  "MUnmap K b k = mUnmap K b k"

definition MAdvise :: "'k os \<Rightarrow> mslice \<Rightarrow> bool \<Rightarrow> 'k \<Rightarrow> err option \<times> 'k" where
  "MAdvise K b randomRead k = mAdvise K b randomRead k"

definition MSync :: "'k os \<Rightarrow> mslice \<Rightarrow> 'k \<Rightarrow> err option \<times> 'k" where
  "MSync K b k = mSync K b k"

subsection \<open>The controller\<close>

text \<open>The sum of two \<open>int64\<close> values wraps around.\<close>

definition i64 :: "int \<Rightarrow> int" where
  "i64 x = (x + 2 ^ 63) mod 2 ^ 64 - 2 ^ 63"

lemma i64_id: "- (2 ^ 63) \<le> x \<Longrightarrow> x < 2 ^ 63 \<Longrightarrow> i64 x = x"
  by (simp add: i64_def)

record MMapCtl =
  m_fd :: bytes
  m_buf :: mslice
  m_bufLen :: int

definition os_openFile :: "'k os \<Rightarrow> bytes \<Rightarrow> int \<Rightarrow> 'k \<Rightarrow> bytes result \<times> 'k" where
  "os_openFile K fName fsize k =
     (case os_OpenFile K fName k of
        (Some e, k1) \<Rightarrow> (Inl e, k1)
      | (None, k1) \<Rightarrow>
          (case os_Size K fName k1 of
             Inl e \<Rightarrow> (Inl e, k1)
           | Inr n \<Rightarrow>
               if n < fsize
               then (case os_Truncate K fName fsize k1 of
                       (Some e, k2) \<Rightarrow> (Inl e, k2)
                     | (None, k2) \<Rightarrow> (Inr fName, k2))
               else (Inr fName, k1)))"

definition Ctl_New :: "'k os \<Rightarrow> bytes \<Rightarrow> int \<Rightarrow> 'k \<Rightarrow> MMapCtl result \<times> 'k" where
  "Ctl_New K fName fsize k =
     (if fsize \<le> 0 then (Inl ErrInvalidFsize, k)
      else case os_openFile K fName fsize k of
             (Inl e, k1) \<Rightarrow> (Inl e, k1)
           | (Inr file, k1) \<Rightarrow>
               (case MMap K file True fsize k1 of
                  (Inl e, k2) \<Rightarrow> (Inl e, k2)
                | (Inr buf, k2) \<Rightarrow> (Inr \<lparr>m_fd = file, m_buf = buf, m_bufLen = int (s_len buf)\<rparr>, k2)))"

text \<open>\<open>buf[offset:]\<close>\<close>

definition reslice :: "mslice \<Rightarrow> int \<Rightarrow> mslice result" where
  "reslice b offset =
     (if 0 \<le> offset \<and> offset \<le> int (s_len b)
      then Inr \<lparr>s_data = s_data b + nat offset, s_len = s_len b - nat offset, s_cap = s_cap b - nat offset\<rparr>
      else Inl Panic)"

definition Ctl_Write :: "'k os \<Rightarrow> MMapCtl \<Rightarrow> bytes \<Rightarrow> int \<Rightarrow> 'k \<Rightarrow> nat result \<times> 'k" where
  "Ctl_Write K m b offset k =
     (let len = int (length b)
      in if len \<le> 0 then (Inr 0, k)
         else if offset < 0 \<or> i64 (offset + len) > m_bufLen m then (Inl EOF, k)
         else case reslice (m_buf m) offset of
                Inl e \<Rightarrow> (Inl e, k)
              | Inr s \<Rightarrow> (let n = min (s_len s) (length b) in (Inr n, os_store K (s_data s) (take n b) k)))"

text \<open>The bytes that are copied into the caller's slice of length \<open>n\<close>.\<close>

definition Ctl_Read :: "'k os \<Rightarrow> MMapCtl \<Rightarrow> nat \<Rightarrow> int \<Rightarrow> 'k \<Rightarrow> bytes result" where
  "Ctl_Read K m n offset k =
     (if offset < 0 \<or> offset \<ge> m_bufLen m \<or> i64 (offset + int n) \<ge> m_bufLen m then Inl EOF
      else case reslice (m_buf m) offset of
             Inl e \<Rightarrow> Inl e
           | Inr s \<Rightarrow> Inr (os_load K (s_data s) (min (s_len s) n) k))"

definition Ctl_Sync :: "'k os \<Rightarrow> MMapCtl \<Rightarrow> 'k \<Rightarrow> err option \<times> 'k" where
  "Ctl_Sync K m k = MSync K (m_buf m) k"

definition Ctl_Close :: "'k os \<Rightarrow> MMapCtl \<Rightarrow> 'k \<Rightarrow> err option \<times> 'k" where
  "Ctl_Close K m k =
     (case MSync K (m_buf m) k of
        (Some e, k1) \<Rightarrow> (Some e, k1)
      | (None, k1) \<Rightarrow>
          (case MUnmap K (m_buf m) k1 of
             (Some e, k2) \<Rightarrow> (Some e, k2)
           | (None, k2) \<Rightarrow> os_Close K (m_fd m) k2))"

definition Ctl_Delete :: "'k os \<Rightarrow> MMapCtl \<Rightarrow> 'k \<Rightarrow> err option \<times> MMapCtl \<times> 'k" where
  "Ctl_Delete K m k =
     (case MUnmap K (m_buf m) k of
        (Some e, k1) \<Rightarrow> (Some e, m, k1)
      | (None, k1) \<Rightarrow>
          (let m' = m\<lparr>m_buf := nil_slice\<rparr>
           in case os_Truncate K (m_fd m) 0 k1 of
                (Some e, k2) \<Rightarrow> (Some e, m', k2)
              | (None, k2) \<Rightarrow>
                  (case os_Close K (m_fd m) k2 of
                     (Some e, k3) \<Rightarrow> (Some e, m', k3)
                   | (None, k3) \<Rightarrow> (case os_Remove K (m_fd m) k3 of (e, k4) \<Rightarrow> (e, m', k4)))))"

subsection \<open>What the system calls promise\<close>

text \<open>
  A controller is good when its buffer is the whole mapping of its file, in a state of the system
  \<open>k\<close>.
\<close>

definition ctl_ok :: "('k \<Rightarrow> mslice \<Rightarrow> bytes \<Rightarrow> bool) \<Rightarrow> 'k \<Rightarrow> MMapCtl \<Rightarrow> bool" where
  "ctl_ok mapped k m \<longleftrightarrow>
     mapped k (m_buf m) (m_fd m) \<and> m_bufLen m = int (s_len (m_buf m)) \<and> m_bufLen m < 2 ^ 63"

definition abs_ctl :: "MMapCtl \<Rightarrow> IOController" where
  "abs_ctl m = MMapController (m_fd m) (m_bufLen m)"

text \<open>Two slices that share no byte.\<close>

definition apart :: "mslice \<Rightarrow> mslice \<Rightarrow> bool" where
  "apart b b' \<longleftrightarrow> s_data b + s_len b \<le> s_data b' \<or> s_data b' + s_len b' \<le> s_data b"

text \<open>
  The laws of a system whose calls succeed, as they are documented; the branches for their errors are in the
  definitions above. \<open>content\<close> are the files, \<open>mapped k b f\<close> says that the slice \<open>b\<close> is a shared, writable mapping of
  the start of \<open>f\<close>.
\<close>

locale mm_os =
  fixes K :: "'k os" and content :: "'k \<Rightarrow> fs" and mapped :: "'k \<Rightarrow> mslice \<Rightarrow> bytes \<Rightarrow> bool"
  assumes mapped_ok: "mapped k b f \<Longrightarrow>
      \<exists>c. content k f = Some c \<and> 0 < s_len b \<and> s_len b \<le> length c \<and> s_cap b = s_len b"
    and Mmap_ok: "content k f = Some c \<Longrightarrow> 0 < n \<Longrightarrow> n \<le> int (length c) \<Longrightarrow>
      \<exists>b k'. os_Mmap K f 0 n (PROT_READ OR PROT_WRITE) MAP_SHARED k = (Inr b, k') \<and> mapped k' b f \<and>
        s_len b = nat n \<and> content k' = content k \<and> (\<forall>b' g. mapped k b' g \<longrightarrow> mapped k' b' g \<and> apart b b')"
    and munmap_ok: "mapped k b f \<Longrightarrow>
      \<exists>k'. sys_munmap K (s_data b) (s_len b) k = (None, k') \<and> content k' = content k \<and>
        (\<forall>b' g. mapped k b' g \<longrightarrow> apart b b' \<longrightarrow> mapped k' b' g)"
    and mremap_ok: "mapped k b f \<Longrightarrow> content k f = Some c \<Longrightarrow> 0 < sz \<Longrightarrow> sz \<le> length c \<Longrightarrow>
      \<exists>a k'. sys_mremap K (s_data b) (s_len b) sz MREMAP_MAYMOVE k = (Inr a, k') \<and>
        mapped k' \<lparr>s_data = a, s_len = sz, s_cap = sz\<rparr> f \<and> content k' = content k \<and>
        (\<forall>b' g. mapped k b' g \<longrightarrow> apart b b' \<longrightarrow> mapped k' b' g)"
    and Msync_ok: "mapped k b f \<Longrightarrow>
      \<exists>k'. os_Msync K b MS_SYNC k = (None, k') \<and> content k' = content k \<and> (\<forall>b' g. mapped k b' g \<longrightarrow> mapped k' b' g)"
    and load_ok: "mapped k b f \<Longrightarrow> content k f = Some c \<Longrightarrow> i + l \<le> s_len b \<Longrightarrow>
      os_load K (s_data b + i) l k = sub c i l"
    and store_ok: "mapped k b f \<Longrightarrow> content k f = Some c \<Longrightarrow> i + length x \<le> s_len b \<Longrightarrow>
      content (os_store K (s_data b + i) x k) = (content k)(f \<mapsto> write_at c i x) \<and>
      (mapped k b' g \<longrightarrow> mapped (os_store K (s_data b + i) x k) b' g)"
    and OpenFile_ok: "\<exists>k'. os_OpenFile K f k = (None, k') \<and>
      content k' = (if content k f = None then (content k)(f \<mapsto> []) else content k) \<and>
      (\<forall>b' g. mapped k b' g \<longrightarrow> mapped k' b' g)"
    and Size_ok: "content k f = Some c \<Longrightarrow> os_Size K f k = Inr (int (length c))"
    and Truncate_ok: "content k f = Some c \<Longrightarrow> 0 \<le> n \<Longrightarrow>
      \<exists>k'. os_Truncate K f n k = (None, k') \<and>
        content k' = (content k)(f \<mapsto> take (nat n) c @ replicate (nat n - length c) 0) \<and>
        (\<forall>b' g. mapped k b' g \<longrightarrow> g \<noteq> f \<or> int (length c) \<le> n \<longrightarrow> mapped k' b' g)"
    and Close_ok: "\<exists>k'. os_Close K f k = (None, k') \<and> content k' = content k \<and> (\<forall>b' g. mapped k b' g \<longrightarrow> mapped k' b' g)"
    and Remove_ok: "content k f \<noteq> None \<Longrightarrow>
      \<exists>k'. os_Remove K f k = (None, k') \<and> content k' = (content k)(f := None) \<and>
        (\<forall>b' g. mapped k b' g \<longrightarrow> g \<noteq> f \<longrightarrow> mapped k' b' g)"
begin

lemma ctl_okE:
  assumes "ctl_ok mapped k m"
  obtains c where "content k (m_fd m) = Some c" "mapped k (m_buf m) (m_fd m)" "0 < s_len (m_buf m)"
    "s_len (m_buf m) \<le> length c" "s_cap (m_buf m) = s_len (m_buf m)" "m_bufLen m = int (s_len (m_buf m))"
    "m_bufLen m < 2 ^ 63"
  using assms mapped_ok [of k "m_buf m" "m_fd m"] by (auto simp: ctl_ok_def)

lemma openFile_ok:
  assumes n: "0 < n"
  obtains k' c where "os_openFile K f n k = (Inr f, k')" "content k' = openFile f n (content k)"
    "content k' f = Some c" "n \<le> int (length c)" "\<forall>b g. mapped k b g \<longrightarrow> mapped k' b g"
proof -
  define c where "c = (case content k f of None \<Rightarrow> [] | Some c \<Rightarrow> c)"
  obtain k1 where k1: "os_OpenFile K f k = (None, k1)" "content k1 = (content k)(f \<mapsto> c)"
    "\<And>b g. mapped k b g \<Longrightarrow> mapped k1 b g"
    using OpenFile_ok [of f k] by (auto simp: c_def map_upd_triv split: if_splits option.splits)
  show thesis
  proof (cases "int (length c) < n")
    case True
    obtain k2 where "os_Truncate K f n k1 = (None, k2)"
      "content k2 = (content k1)(f \<mapsto> take (nat n) c @ replicate (nat n - length c) 0)"
      "\<And>b g. mapped k1 b g \<Longrightarrow> mapped k2 b g"
      using Truncate_ok [of k1 f c n] k1(2) n True by auto
    then show thesis
      using that [of k2 "c @ replicate (nat n - length c) 0"] k1 Size_ok [of k1 f c] True
      by (simp add: os_openFile_def openFile_def Let_def c_def [symmetric])
  next
    case False
    then show thesis using that [of k1 c] k1 Size_ok [of k1 f c]
      by (simp add: os_openFile_def openFile_def Let_def c_def [symmetric])
  qed
qed

lemma New_refines:
  assumes n: "n < 2 ^ 63"
  shows "case NewMMapController f n (content k) of
     Inl e \<Rightarrow> Ctl_New K f n k = (Inl e, k)
   | Inr (h, d) \<Rightarrow> \<exists>m k'. Ctl_New K f n k = (Inr m, k') \<and> content k' = d \<and> ctl_ok mapped k' m \<and>
       h = abs_ctl m \<and> (\<forall>m'. ctl_ok mapped k m' \<longrightarrow> ctl_ok mapped k' m' \<and> apart (m_buf m) (m_buf m'))"
proof (cases "0 < n")
  case True
  then obtain k1 c where k1: "os_openFile K f n k = (Inr f, k1)" "content k1 = openFile f n (content k)"
    "content k1 f = Some c" "n \<le> int (length c)" "\<forall>b g. mapped k b g \<longrightarrow> mapped k1 b g"
    by (rule openFile_ok [of n f k])
  obtain b k2 where "os_Mmap K f 0 n (PROT_READ OR PROT_WRITE) MAP_SHARED k1 = (Inr b, k2)" "mapped k2 b f"
    "s_len b = nat n" "content k2 = content k1" "\<And>b' g. mapped k1 b' g \<Longrightarrow> mapped k2 b' g \<and> apart b b'"
    using Mmap_ok [OF k1(3) True k1(4)] by blast
  then show ?thesis using k1 True n
    by (auto simp: NewMMapController_def Ctl_New_def MMap_def mMap_def ctl_ok_def abs_ctl_def)
qed (simp add: NewMMapController_def Ctl_New_def)

lemma Write_refines:
  assumes m: "ctl_ok mapped k m" and off: "off + int (length b) < 2 ^ 63"
  shows "\<exists>r k'. Ctl_Write K m b off k = (r, k') \<and> IO_Write (abs_ctl m) b off (content k) = (r, content k') \<and>
    (\<forall>m'. ctl_ok mapped k m' \<longrightarrow> ctl_ok mapped k' m')"
  using m
proof (rule ctl_okE)
  fix c
  assume c: "content k (m_fd m) = Some c" and mp: "mapped k (m_buf m) (m_fd m)" and len: "m_bufLen m = int (s_len (m_buf m))"
  show ?thesis
  proof (cases "length b = 0 \<or> off < 0 \<or> m_bufLen m < off + int (length b)")
    case True
    then show ?thesis using c off by (auto simp: Ctl_Write_def IO_Write_def MMap_Write_def Let_def abs_ctl_def map_upd_triv i64_id)
  next
    case False
    define i where "i = nat off"
    have i: "off = int i" "i + length b \<le> s_len (m_buf m)" "b \<noteq> []" using False len by (auto simp: i_def)
    have "Ctl_Write K m b off k = (Inr (length b), os_store K (s_data (m_buf m) + i) b k)"
      using i len off by (simp add: Ctl_Write_def reslice_def Let_def i64_id)
    then show ?thesis using store_ok [OF mp c i(2)] i c len by (simp add: IO_Write_def MMap_Write_def Let_def ctl_ok_def abs_ctl_def)
  qed
qed

lemma Read_refines:
  assumes m: "ctl_ok mapped k m" and off: "off + int n < 2 ^ 63"
  shows "Ctl_Read K m n off k = IO_Read (abs_ctl m) (content k) n off"
  using m
proof (rule ctl_okE)
  fix c
  assume c: "content k (m_fd m) = Some c" and mp: "mapped k (m_buf m) (m_fd m)" and len: "m_bufLen m = int (s_len (m_buf m))"
  show ?thesis
  proof (cases "off < 0 \<or> off \<ge> m_bufLen m \<or> off + int n \<ge> m_bufLen m")
    case True
    then show ?thesis using c off by (auto simp: Ctl_Read_def IO_Read_def MMap_Read_def abs_ctl_def i64_id)
  next
    case False
    define i where "i = nat off"
    have i: "off = int i" "i + n \<le> s_len (m_buf m)" "i < s_len (m_buf m)" using False len by (auto simp: i_def)
    then have "min (s_len (m_buf m) - i) n = n" by simp
    then show ?thesis using load_ok [OF mp c i(2)] i(1,3) c len False off
      by (simp add: Ctl_Read_def IO_Read_def MMap_Read_def reslice_def abs_ctl_def i64_id)
  qed
qed

lemma unmap_ok:
  assumes m: "ctl_ok mapped k m"
  obtains k' where "MUnmap K (m_buf m) k = (None, k')" "content k' = content k"
    "\<forall>b g. mapped k b g \<longrightarrow> apart (m_buf m) b \<longrightarrow> mapped k' b g"
  using m
proof (rule ctl_okE)
  assume mp: "mapped k (m_buf m) (m_fd m)" and "0 < s_len (m_buf m)" "s_cap (m_buf m) = s_len (m_buf m)"
  then show thesis using that munmap_ok [OF mp] by (auto simp: MUnmap_def mUnmap_def)
qed

lemma Sync_refines:
  assumes m: "ctl_ok mapped k m"
  obtains k' where "Ctl_Sync K m k = (None, k')" "content k' = content k" "\<forall>m'. ctl_ok mapped k m' \<longrightarrow> ctl_ok mapped k' m'"
    "IO_Sync (abs_ctl m) (content k) = Inr ()"
  using m
proof (rule ctl_okE)
  fix c
  assume "mapped k (m_buf m) (m_fd m)" "content k (m_fd m) = Some c"
  then show thesis using that Msync_ok [of k "m_buf m" "m_fd m"]
    by (auto simp: Ctl_Sync_def MSync_def mSync_def IO_Sync_def ctl_ok_def abs_ctl_def)
qed

lemma Close_refines:
  assumes m: "ctl_ok mapped k m"
  shows "\<exists>k'. Ctl_Close K m k = (None, k') \<and> content k' = content k \<and> IO_Close (abs_ctl m) (content k) = Inr () \<and>
    (\<forall>m'. ctl_ok mapped k m' \<and> apart (m_buf m) (m_buf m') \<longrightarrow> ctl_ok mapped k' m')"
proof -
  obtain k1 where k1: "Ctl_Sync K m k = (None, k1)" "content k1 = content k" "\<forall>m'. ctl_ok mapped k m' \<longrightarrow> ctl_ok mapped k1 m'"
    "IO_Sync (abs_ctl m) (content k) = Inr ()"
    using m by (rule Sync_refines)
  then have "ctl_ok mapped k1 m" using m by blast
  then obtain k2 where k2: "MUnmap K (m_buf m) k1 = (None, k2)" "content k2 = content k1"
    "\<forall>b g. mapped k1 b g \<longrightarrow> apart (m_buf m) b \<longrightarrow> mapped k2 b g" by (rule unmap_ok)
  obtain k3 where k3: "os_Close K (m_fd m) k2 = (None, k3)" "content k3 = content k2" "\<forall>b g. mapped k2 b g \<longrightarrow> mapped k3 b g"
    using Close_ok by blast
  have "ctl_ok mapped k3 m'" if "ctl_ok mapped k m'" "apart (m_buf m) (m_buf m')" for m'
    using k1(3) k2(3) k3(3) that unfolding ctl_ok_def by blast
  then show ?thesis using k1 k2 k3 by (simp add: Ctl_Close_def Ctl_Sync_def IO_Close_def IO_Sync_def)
qed

lemma Remove_refines:
  assumes m: "ctl_ok mapped k m"
  shows "\<exists>k'. Ctl_Delete K m k = (None, m\<lparr>m_buf := nil_slice\<rparr>, k') \<and>
    IO_Delete (abs_ctl m) (content k) = (Inr (), content k') \<and>
    (\<forall>m'. ctl_ok mapped k m' \<and> apart (m_buf m) (m_buf m') \<and> m_fd m' \<noteq> m_fd m \<longrightarrow> ctl_ok mapped k' m')"
proof -
  obtain c where c: "content k (m_fd m) = Some c" using m by (rule ctl_okE)
  obtain k1 where k1: "MUnmap K (m_buf m) k = (None, k1)" "content k1 = content k"
    "\<forall>b g. mapped k b g \<longrightarrow> apart (m_buf m) b \<longrightarrow> mapped k1 b g" using m by (rule unmap_ok)
  obtain k2 where k2: "os_Truncate K (m_fd m) 0 k1 = (None, k2)" "content k2 = (content k1)(m_fd m \<mapsto> [])"
    "\<forall>b g. mapped k1 b g \<longrightarrow> g \<noteq> m_fd m \<longrightarrow> mapped k2 b g"
    using Truncate_ok [of k1 "m_fd m" c 0] k1(2) c by auto
  obtain k3 where k3: "os_Close K (m_fd m) k2 = (None, k3)" "content k3 = content k2" "\<forall>b g. mapped k2 b g \<longrightarrow> mapped k3 b g"
    using Close_ok by blast
  obtain k4 where k4: "os_Remove K (m_fd m) k3 = (None, k4)" "content k4 = (content k3)(m_fd m := None)"
    "\<forall>b g. mapped k3 b g \<longrightarrow> g \<noteq> m_fd m \<longrightarrow> mapped k4 b g"
    using Remove_ok [of k3 "m_fd m"] k2(2) k3(2) by auto
  have "ctl_ok mapped k4 m'" if "ctl_ok mapped k m'" "apart (m_buf m) (m_buf m')" "m_fd m' \<noteq> m_fd m" for m'
    using k1(3) k2(3) k3(3) k4(3) that unfolding ctl_ok_def by blast
  then show ?thesis using k1 k2 k3 k4 c by (simp add: Ctl_Delete_def IO_Delete_def Let_def abs_ctl_def)
qed

lemma remap_ok:
  assumes "mapped k b f" "content k f = Some c" "0 < n" "n \<le> length c"
  shows "\<exists>b' k'. mRemap K b n k = (Inr b', k') \<and> s_len b' = n \<and> mapped k' b' f \<and> content k' = content k"
  using mremap_ok [OF assms] by (auto simp: mRemap_def)

end

subsection \<open>A page table\<close>

text \<open>
  A system that has the laws: pages of one byte, allocated at increasing addresses, each bound to
  an offset of a file. Loads and stores go through the table byte by byte.
\<close>

record kernel =
  k_files :: fs
  k_table :: "nat \<Rightarrow> (bytes \<times> nat) option"
  k_brk :: nat

definition k_alloc :: "bytes \<Rightarrow> nat \<Rightarrow> kernel \<Rightarrow> kernel" where
  "k_alloc f n k = k\<lparr>k_table := \<lambda>a. if k_brk k \<le> a \<and> a < k_brk k + n then Some (f, a - k_brk k) else k_table k a,
     k_brk := k_brk k + n\<rparr>"

definition k_get :: "kernel \<Rightarrow> nat \<Rightarrow> byte" where
  "k_get k a = (case k_table k a of None \<Rightarrow> 0
     | Some (f, i) \<Rightarrow> (case k_files k f of None \<Rightarrow> 0 | Some c \<Rightarrow> if i < length c then c ! i else 0))"

definition k_put :: "nat \<Rightarrow> byte \<Rightarrow> kernel \<Rightarrow> kernel" where
  "k_put a v k = (case k_table k a of None \<Rightarrow> k
     | Some (f, i) \<Rightarrow> (case k_files k f of None \<Rightarrow> k | Some c \<Rightarrow> k\<lparr>k_files := (k_files k)(f \<mapsto> c[i := v])\<rparr>))"

fun k_store :: "nat \<Rightarrow> bytes \<Rightarrow> kernel \<Rightarrow> kernel" where
  "k_store a [] k = k"
| "k_store a (v # x) k = k_store (Suc a) x (k_put a v k)"

definition paged :: "kernel os" where
  "paged = \<lparr>
     os_Mmap = \<lambda>f off n prot flags k.
       (if n \<le> 0 then (Inl EINVAL, k)
        else (Inr \<lparr>s_data = k_brk k, s_len = nat n, s_cap = nat n\<rparr>, k_alloc f (nat n) k)),
     os_Munmap = \<lambda>b k. (None, k\<lparr>k_table := \<lambda>a. if s_data b \<le> a \<and> a < s_data b + s_len b then None else k_table k a\<rparr>),
     sys_munmap = \<lambda>d n k. (None, k\<lparr>k_table := \<lambda>a. if d \<le> a \<and> a < d + n then None else k_table k a\<rparr>),
     sys_mremap = \<lambda>d n m flags k.
       (case k_table k d of None \<Rightarrow> (Inl EINVAL, k) | Some (f, _) \<Rightarrow> (Inr (k_brk k), k_alloc f m k)),
     os_Madvise = \<lambda>b adv k. (None, k),
     sys_madvise = \<lambda>d n adv k. (None, k),
     os_Msync = \<lambda>b flags k. (None, k),
     os_load = \<lambda>a n k. map (k_get k) [a..<a + n],
     os_store = k_store,
     os_OpenFile = \<lambda>f k. (None, if k_files k f = None then k\<lparr>k_files := (k_files k)(f \<mapsto> [])\<rparr> else k),
     os_Size = \<lambda>f k. (case k_files k f of None \<Rightarrow> Inl ErrFileClosed | Some c \<Rightarrow> Inr (int (length c))),
     os_Truncate = \<lambda>f n k. (case k_files k f of None \<Rightarrow> (Some ErrFileClosed, k)
        | Some c \<Rightarrow> (None, k\<lparr>k_files := (k_files k)(f \<mapsto> take (nat n) c @ replicate (nat n - length c) 0)\<rparr>)),
     os_Close = \<lambda>f k. (None, k),
     os_Remove = \<lambda>f k. (None, k\<lparr>k_files := (k_files k)(f := None)\<rparr>)\<rparr>"

definition k_mapped :: "kernel \<Rightarrow> mslice \<Rightarrow> bytes \<Rightarrow> bool" where
  "k_mapped k b f \<longleftrightarrow>
     0 < s_len b \<and> s_cap b = s_len b \<and> s_data b + s_len b \<le> k_brk k \<and>
     (\<forall>i < s_len b. k_table k (s_data b + i) = Some (f, i)) \<and>
     (case k_files k f of None \<Rightarrow> False | Some c \<Rightarrow> s_len b \<le> length c)"

lemma k_put_eq:
  "k_table k a = Some (f, i) \<Longrightarrow> k_files k f = Some c \<Longrightarrow>
   k_put a v k = k\<lparr>k_files := (k_files k)(f \<mapsto> c[i := v])\<rparr>"
  by (simp add: k_put_def)

lemma write_at_in: "i + length x \<le> length c \<Longrightarrow> write_at c i x = take i c @ x @ drop (i + length x) c"
  by (cases "x = []") (simp_all add: write_at_def)

lemma write_at_Cons:
  assumes "i + Suc (length x) \<le> length c"
  shows "write_at c i (v # x) = write_at (c[i := v]) (Suc i) x"
  using assms by (simp add: write_at_in upd_conv_take_nth_drop min_def drop_Cons' add.commute)

lemma k_store_eq:
  assumes "\<And>j. j < length x \<Longrightarrow> k_table k (a + j) = Some (f, i + j)" "k_files k f = Some c" "i + length x \<le> length c"
  shows "k_store a x k = k\<lparr>k_files := (k_files k)(f \<mapsto> write_at c i x)\<rparr>"
  using assms
proof (induction x arbitrary: a i k c)
  case Nil
  then show ?case by (simp add: write_at_def map_upd_triv)
next
  case (Cons v x)
  have "k_table k a = Some (f, i)" using Cons.prems(1) [of 0] by simp
  then have put: "k_put a v k = k\<lparr>k_files := (k_files k)(f \<mapsto> c[i := v])\<rparr>"
    using Cons.prems(2) by (rule k_put_eq)
  have "k_store (Suc a) x (k_put a v k) = (k_put a v k)\<lparr>k_files := (k_files (k_put a v k))(f \<mapsto> write_at (c[i := v]) (Suc i) x)\<rparr>"
  proof (rule Cons.IH)
    fix j
    assume "j < length x"
    then show "k_table (k_put a v k) (Suc a + j) = Some (f, Suc i + j)" using Cons.prems(1) [of "Suc j"] by (simp add: put)
  qed (use Cons.prems(3) put in auto)
  then show ?case using Cons.prems(3) by (simp add: put write_at_Cons) (simp add: fun_upd_def)
qed

lemma k_alloc_mapped:
  "k_files k f = Some c \<Longrightarrow> 0 < n \<Longrightarrow> n \<le> length c \<Longrightarrow> k_mapped (k_alloc f n k) \<lparr>s_data = k_brk k, s_len = n, s_cap = n\<rparr> f"
  by (simp add: k_mapped_def k_alloc_def)

lemma k_alloc_files [simp]: "k_files (k_alloc f n k) = k_files k"
  by (simp add: k_alloc_def)

lemma k_mapped_file: "k_mapped k b f \<Longrightarrow> \<exists>c. k_files k f = Some c \<and> 0 < s_len b \<and> s_len b \<le> length c \<and> s_cap b = s_len b"
  by (auto simp: k_mapped_def split: option.splits)

lemma k_mapped_start: "k_mapped k b f \<Longrightarrow> k_table k (s_data b) = Some (f, 0)"
  by (auto simp: k_mapped_def dest: spec [of _ 0])

lemma k_alloc_frame: "k_mapped k b g \<Longrightarrow> k_mapped (k_alloc f n k) b g"
  by (simp add: k_mapped_def k_alloc_def)

lemma k_files_frame:
  assumes "k_mapped k b g" "\<And>c. k_files k g = Some c \<Longrightarrow> \<exists>c'. d g = Some c' \<and> length c \<le> length c'"
  shows "k_mapped (k\<lparr>k_files := d\<rparr>) b g"
  using assms by (force simp: k_mapped_def split: option.splits)

lemma k_mapped_below: "k_mapped k b f \<Longrightarrow> apart \<lparr>s_data = k_brk k, s_len = n, s_cap = n\<rparr> b"
  by (simp add: k_mapped_def apart_def)

lemma k_unmap_frame:
  assumes "k_mapped k b' g" "apart b b'"
  shows "k_mapped (k\<lparr>k_table := \<lambda>a. if s_data b \<le> a \<and> a < s_data b + s_len b then None else k_table k a\<rparr>) b' g"
  using assms by (auto simp: k_mapped_def apart_def)

interpretation paged: mm_os paged k_files k_mapped
proof
  fix k b f c and i l :: nat
  assume m: "k_mapped k b f" "k_files k f = Some c" and l: "i + l \<le> s_len b"
  have "map (k_get k) [s_data b + i..<s_data b + i + l] = sub c i l"
  proof (rule nth_equalityI)
    fix j
    assume "j < length (map (k_get k) [s_data b + i..<s_data b + i + l])"
    then have "k_table k (s_data b + (i + j)) = Some (f, i + j)" "i + j < length c" "j < l"
      using m l by (simp_all add: k_mapped_def)
    then show "map (k_get k) [s_data b + i..<s_data b + i + l] ! j = sub c i l ! j"
      using m(2) by (simp add: k_get_def sub_def add.assoc)
  qed (use m l in \<open>auto simp: k_mapped_def sub_def min_def\<close>)
  then show "os_load paged (s_data b + i) l k = sub c i l" by (simp add: paged_def)
next
  fix k b f c i b' g and x :: bytes
  assume m: "k_mapped k b f" "k_files k f = Some c" and x: "i + length x \<le> s_len b"
  have "k_store (s_data b + i) x k = k\<lparr>k_files := (k_files k)(f \<mapsto> write_at c i x)\<rparr>"
    using m x by (intro k_store_eq) (auto simp: k_mapped_def add.assoc)
  then show "k_files (os_store paged (s_data b + i) x k) = (k_files k)(f \<mapsto> write_at c i x) \<and>
    (k_mapped k b' g \<longrightarrow> k_mapped (os_store paged (s_data b + i) x k) b' g)"
    using m(2) by (auto simp: paged_def intro!: k_files_frame)
qed (auto simp: paged_def k_alloc_mapped k_alloc_frame k_mapped_file k_mapped_start k_mapped_below k_unmap_frame intro!: k_files_frame)

subsection \<open>Properties\<close>

text \<open>
  C21. Over any system whose calls succeed and do what they document, the controller on a memory mapping does what
  a mapped file should do: opening creates or extends the file and gives a good controller, whose
  buffer shares no byte with that of another; on a good controller every write and read has the result, and leaves
  the files, that the abstract controller says, a sync and a close succeed and leave the files as they are, and a
  deletion removes the file. Opening, writing and syncing keep every good controller good, closing keeps those
  with other buffers, and deleting those with other buffers on other files.
\<close>

theorem mmap_controller_refines:
  assumes sys: "mm_os K content mapped"
    and n: "n < 2 ^ 63" and len: "off + int (length b) < 2 ^ 63" and m: "ctl_ok mapped k m"
  shows "(case NewMMapController f n (content k) of
            Inl e \<Rightarrow> Ctl_New K f n k = (Inl e, k)
          | Inr (h, d) \<Rightarrow> \<exists>m1 k'. Ctl_New K f n k = (Inr m1, k') \<and> content k' = d \<and> h = abs_ctl m1 \<and> ctl_ok mapped k' m1 \<and>
              (\<forall>m'. ctl_ok mapped k m' \<longrightarrow> ctl_ok mapped k' m' \<and> apart (m_buf m1) (m_buf m'))) \<and>
    (\<exists>r k'. Ctl_Write K m b off k = (r, k') \<and> IO_Write (abs_ctl m) b off (content k) = (r, content k') \<and>
       (\<forall>m'. ctl_ok mapped k m' \<longrightarrow> ctl_ok mapped k' m')) \<and>
    Ctl_Read K m (length b) off k = IO_Read (abs_ctl m) (content k) (length b) off \<and>
    (\<exists>k'. Ctl_Sync K m k = (None, k') \<and> content k' = content k \<and> IO_Sync (abs_ctl m) (content k) = Inr () \<and>
       (\<forall>m'. ctl_ok mapped k m' \<longrightarrow> ctl_ok mapped k' m')) \<and>
    (\<exists>k'. Ctl_Close K m k = (None, k') \<and> content k' = content k \<and> IO_Close (abs_ctl m) (content k) = Inr () \<and>
       (\<forall>m'. ctl_ok mapped k m' \<and> apart (m_buf m) (m_buf m') \<longrightarrow> ctl_ok mapped k' m')) \<and>
    (\<exists>k'. Ctl_Delete K m k = (None, m\<lparr>m_buf := nil_slice\<rparr>, k') \<and>
       IO_Delete (abs_ctl m) (content k) = (Inr (), content k') \<and>
       (\<forall>m'. ctl_ok mapped k m' \<and> apart (m_buf m) (m_buf m') \<and> m_fd m' \<noteq> m_fd m \<longrightarrow> ctl_ok mapped k' m'))"
proof (intro conjI)
  show "case NewMMapController f n (content k) of
            Inl e \<Rightarrow> Ctl_New K f n k = (Inl e, k)
          | Inr (h, d) \<Rightarrow> \<exists>m1 k'. Ctl_New K f n k = (Inr m1, k') \<and> content k' = d \<and> h = abs_ctl m1 \<and> ctl_ok mapped k' m1 \<and>
              (\<forall>m'. ctl_ok mapped k m' \<longrightarrow> ctl_ok mapped k' m' \<and> apart (m_buf m1) (m_buf m'))"
    using mm_os.New_refines [OF sys n, of f k] by (auto split: sum.splits)
  show "\<exists>k'. Ctl_Sync K m k = (None, k') \<and> content k' = content k \<and> IO_Sync (abs_ctl m) (content k) = Inr () \<and>
       (\<forall>m'. ctl_ok mapped k m' \<longrightarrow> ctl_ok mapped k' m')"
    using mm_os.Sync_refines [OF sys m] by blast
qed (rule mm_os.Read_refines [OF sys m len] mm_os.Write_refines [OF sys m len] mm_os.Close_refines [OF sys m] mm_os.Remove_refines [OF sys m])+

definition sample_kernel :: kernel where
  "sample_kernel = k_alloc [1] 4 \<lparr>k_files = [[1] \<mapsto> [0, 0, 0, 0, 9]], k_table = Map.empty, k_brk = 16\<rparr>"

definition sample_ctl :: MMapCtl where
  "sample_ctl = \<lparr>m_fd = [1], m_buf = \<lparr>s_data = 16, s_len = 4, s_cap = 4\<rparr>, m_bufLen = 4\<rparr>"

lemma sample_ctl_ok: "ctl_ok k_mapped sample_kernel sample_ctl"
  by (simp add: ctl_ok_def sample_kernel_def sample_ctl_def k_alloc_def k_mapped_def)

lemma sample_write:
  "IO_Write (abs_ctl sample_ctl) [7, 8] 1 (k_files sample_kernel) = (Inr 2, [[1] \<mapsto> [0, 7, 8, 0, 9]])"
  by (simp add: sample_kernel_def sample_ctl_def abs_ctl_def IO_Write_def MMap_Write_def write_at_def numeral_2_eq_2)

theorem mmap_controller_refines_witness:
  "\<exists>k'. Ctl_Write paged sample_ctl [7, 8] 1 sample_kernel = (Inr 2, k') \<and> k_files k' [1] = Some [0, 7, 8, 0, 9]"
  using mmap_controller_refines [OF paged.mm_os_axioms _ _ sample_ctl_ok, where n = 1 and off = 1 and b = "[7, 8]" and f = "[1]"]
  unfolding sample_write by (auto dest: fun_cong [where x = "[1]"])

text \<open>
  After a deletion the controller keeps the length of the mapping it no longer has: a write or a
  read inside it panics instead of giving an error, and a write at offset zero reports that no byte
  was written and no error. The same panic follows an offset whose sum with the length exceeds
  the range of \<open>int64\<close>.
\<close>

theorem deleted_controller_panics:
  assumes "b \<noteq> []" "0 \<le> off" "off + int (length b) \<le> m_bufLen m" "m_bufLen m < 2 ^ 63"
  shows "Ctl_Write K (m\<lparr>m_buf := nil_slice\<rparr>) b off k =
      (if off = 0 then (Inr 0, os_store K 0 [] k) else (Inl Panic, k)) \<and>
    (0 < off \<and> off + int (length b) < m_bufLen m \<longrightarrow>
      Ctl_Read K (m\<lparr>m_buf := nil_slice\<rparr>) (length b) off k = Inl Panic)"
  using assms by (simp add: Ctl_Write_def Ctl_Read_def reslice_def nil_slice_def Let_def i64_id)

theorem Write_offset_overflow:
  assumes m: "m_bufLen m = int (s_len (m_buf m))" "m_bufLen m < 2 ^ 63" and b: "0 < length b" "length b < 2 ^ 63"
    and off: "m_bufLen m < off" "off < 2 ^ 63" "2 ^ 63 \<le> off + int (length b)"
  shows "Ctl_Write K m b off k = (Inl Panic, k)"
proof -
  have "i64 (off + int (length b)) = off + int (length b) - 2 ^ 64"
    using b off by (simp add: i64_def) (subst mod_pos_geq; simp)+
  then show ?thesis using m b off by (simp add: Ctl_Write_def Let_def reslice_def)
qed

text \<open>On Linux, unmapping the empty slice or a part of a mapping is refused.\<close>

lemma MUnmap_refuses: "s_len b = 0 \<or> s_len b < s_cap b \<Longrightarrow> MUnmap K b k = (Some EINVAL, k)"
  by (auto simp: MUnmap_def mUnmap_def)

end
