(* ===== verification/Conv.thy ===== *)
theory Conv
  imports Mmap
begin

text \<open>
  \<open>ByteToString\<close> and \<open>StringToByte\<close> of \<open>util/conv.go\<close>: conversions that only rewrite the header and
  share the bytes. The header of a string has no capacity. Elsewhere in the development a string
  and a byte slice are the list of their bytes, which \<open>str_bytes\<close> and \<open>slice_bytes\<close> give for a
  header and a memory; the conversions are the identity on them.
\<close>

record strhdr =
  str_data :: nat
  str_len :: nat

text \<open>A slice header begins with the two words of a string header.\<close>

definition ByteToString :: "mslice \<Rightarrow> strhdr" where
  "ByteToString b = \<lparr>str_data = s_data b, str_len = s_len b\<rparr>"

definition StringToByte :: "strhdr \<Rightarrow> mslice" where
  "StringToByte s = \<lparr>s_data = str_data s, s_len = str_len s, s_cap = str_len s\<rparr>"

definition slice_bytes :: "'k os \<Rightarrow> 'k \<Rightarrow> mslice \<Rightarrow> bytes" where
  "slice_bytes K k b = os_load K (s_data b) (s_len b) k"

definition str_bytes :: "'k os \<Rightarrow> 'k \<Rightarrow> strhdr \<Rightarrow> bytes" where
  "str_bytes K k s = os_load K (str_data s) (str_len s) k"

lemma conv_bytes:
  "str_bytes K k (ByteToString b) = slice_bytes K k b"
  "slice_bytes K k (StringToByte s) = str_bytes K k s"
  by (simp_all add: str_bytes_def slice_bytes_def ByteToString_def StringToByte_def)

lemma conv_roundtrip:
  "ByteToString (StringToByte s) = s" "StringToByte (ByteToString b) = b\<lparr>s_cap := s_len b\<rparr>"
  by (simp_all add: ByteToString_def StringToByte_def)

text \<open>
  The bytes are shared: a store into the slice of a mapped buffer changes the string made from it, so a
  string made by \<open>ByteToString\<close> is a constant only as long as nobody writes to the slice.
\<close>

context mm_os
begin

lemma string_shares:
  assumes m: "mapped k b f" and x: "length x = s_len b"
  shows "str_bytes K (os_store K (s_data b) x k) (ByteToString b) = x"
proof -
  obtain c where c: "content k f = Some c" "s_len b \<le> length c" using mapped_ok [OF m] by blast
  note st = store_ok [OF m c(1), of 0 x b f, simplified]
  have "content (os_store K (s_data b) x k) f = Some (write_at c 0 x)" "mapped (os_store K (s_data b) x k) b f"
    using st x m by simp_all
  then have "os_load K (s_data b + 0) (s_len b) (os_store K (s_data b) x k) = sub (write_at c 0 x) 0 (s_len b)"
    by (intro load_ok) auto
  then show ?thesis using sub_write_same [of c 0 x] x by (simp add: str_bytes_def ByteToString_def)
qed

end

end
