(* ===== verification/Crc32.thy ===== *)
theory Crc32
  imports Lazy_Prelude
begin

unbundle bit_operations_syntax

text \<open>
  What the sources use of Go's \<open>hash/crc32\<close>: the table-driven IEEE checksum with the
  reversed polynomial \<open>0xEDB88320\<close>, and \<open>Update\<close>, which continues a checksum.
  The log entries rely on one law of it, stated as the locale \<open>checksum\<close>: continuing a
  checksum is the checksum of the concatenation. The locale is interpreted on the CRC.
\<close>

definition crc_poly :: u32 where
  "crc_poly = 0xEDB88320"

definition crc_bit :: "u32 \<Rightarrow> u32" where
  "crc_bit c = (if bit c 0 then drop_bit 1 c XOR crc_poly else drop_bit 1 c)"

text \<open>One entry of \<open>IEEETable\<close>.\<close>

definition crc_table :: "byte \<Rightarrow> u32" where
  "crc_table i = (crc_bit ^^ 8) (ucast i)"

definition crc_byte :: "u32 \<Rightarrow> byte \<Rightarrow> u32" where
  "crc_byte c v = crc_table (ucast c XOR v) XOR drop_bit 8 c"

definition crc32_Update :: "u32 \<Rightarrow> bytes \<Rightarrow> u32" where
  "crc32_Update c p = NOT (foldl crc_byte (NOT c) p)"

definition crc32_ChecksumIEEE :: "bytes \<Rightarrow> u32" where
  "crc32_ChecksumIEEE p = crc32_Update 0 p"

locale checksum =
  fixes update :: "'s \<Rightarrow> 'b list \<Rightarrow> 's" and start :: 's
  assumes update_append: "update (update c xs) ys = update c (xs @ ys)"
    and update_Nil: "update c [] = c"
begin

lemma update_three: "update (update (update start xs) ys) zs = update start (xs @ ys @ zs)"
  by (simp add: update_append)

lemma update_concat: "foldl update c xss = update c (concat xss)"
  by (induction xss arbitrary: c) (simp_all add: update_append update_Nil)

end

interpretation crc: checksum crc32_Update 0
  by unfold_locales (simp_all add: crc32_Update_def)

subsection \<open>Damage that the checksum detects\<close>

text \<open>
  A byte step is eight bit steps on the state with the byte added, and a bit step is linear and
  injective. So two texts of the same length that differ only within four consecutive bytes
  have different checksums.
\<close>

lemma xor_cancel:
  fixes a b c :: u32
  shows "a XOR c = b XOR c \<longleftrightarrow> a = b" "c XOR a = c XOR b \<longleftrightarrow> a = b"
proof -
  have u: "(x XOR c) XOR c = x" for x by (simp add: xor.assoc)
  show "a XOR c = b XOR c \<longleftrightarrow> a = b"
  proof
    assume "a XOR c = b XOR c"
    then have "(a XOR c) XOR c = (b XOR c) XOR c" by (rule arg_cong)
    then show "a = b" by (simp only: u)
  qed simp
  then show "c XOR a = c XOR b \<longleftrightarrow> a = b" by (simp only: xor.commute [of c])
qed

lemma crc_bit_xor: "crc_bit (a XOR b) = crc_bit a XOR crc_bit b"
  by (rule bit_word_eqI) (auto simp: crc_bit_def bit_simps)

lemma bit_crc_bit_31: "bit (crc_bit c) 31 = bit c 0"
  by (auto simp: crc_bit_def crc_poly_def bit_simps dest: bit_imp_le_length)

lemma inj_crc_bit: "inj crc_bit"
proof (rule injI)
  fix a b assume eq: "crc_bit a = crc_bit b"
  then have "bit a 0 = bit b 0" by (metis bit_crc_bit_31)
  with eq have d: "drop_bit 1 a = drop_bit 1 b"
    by (auto simp: crc_bit_def xor_cancel split: if_splits)
  show "a = b"
  proof (rule bit_word_eqI)
    fix n assume "n < LENGTH(32)"
    show "bit a n = bit b n"
    proof (cases n)
      case 0 then show ?thesis using \<open>bit a 0 = bit b 0\<close> by simp
    next
      case (Suc m)
      then show ?thesis using arg_cong [OF d, of "\<lambda>w. bit w m"] by (simp add: bit_simps)
    qed
  qed
qed

lemma crc_bits_xor: "(crc_bit ^^ n) (a XOR b) = (crc_bit ^^ n) a XOR (crc_bit ^^ n) b"
  by (induction n) (simp_all add: crc_bit_xor)

lemma inj_crc_bits: "(crc_bit ^^ n) a = (crc_bit ^^ n) b \<longleftrightarrow> a = b"
  by (induction n) (simp_all add: inj_eq [OF inj_crc_bit])

text \<open>Bits that are zero are shifted out.\<close>

lemma crc_bits_low:
  assumes "take_bit n w = 0"
  shows "(crc_bit ^^ n) w = drop_bit n w"
  using assms
proof (induction n arbitrary: w)
  case (Suc n)
  have "bit w 0 = False" using arg_cong [OF Suc.prems, of "\<lambda>w. bit w 0"] by (simp add: bit_simps)
  then have "crc_bit w = drop_bit 1 w" by (simp add: crc_bit_def)
  moreover have "take_bit n (drop_bit 1 w) = 0"
    using Suc.prems by (simp add: take_bit_drop_bit)
  ultimately show ?case using Suc.IH [of "drop_bit 1 w"] by (simp add: funpow_Suc_right del: funpow.simps)
qed simp

lemma crc_byte_bits: "crc_byte c v = (crc_bit ^^ 8) (c XOR ucast v)"
proof -
  let ?l = "ucast (ucast c XOR v :: byte) :: u32" and ?h = "push_bit 8 (drop_bit 8 c)"
  have "c XOR ucast v = ?l XOR ?h"
    by (rule bit_word_eqI) (auto simp: bit_simps)
  then have "(crc_bit ^^ 8) (c XOR ucast v) = (crc_bit ^^ 8) ?l XOR (crc_bit ^^ 8) ?h" by (simp only: crc_bits_xor)
  moreover have "(crc_bit ^^ 8) ?h = drop_bit 8 c"
    by (subst crc_bits_low; intro bit_word_eqI) (auto simp: bit_simps dest: bit_imp_le_length)
  ultimately show ?thesis by (simp add: crc_byte_def crc_table_def)
qed

fun le_word :: "bytes \<Rightarrow> u32" where
  "le_word [] = 0"
| "le_word (b # r) = ucast b XOR push_bit 8 (le_word r)"

lemma bit_le_word: "bit (le_word r) n \<Longrightarrow> n < 8 * length r"
proof (induction r arbitrary: n)
  case (Cons b r)
  show ?case
  proof (cases "n < 8")
    case False
    then have "bit (le_word r) (n - 8)" using Cons.prems by (auto simp: bit_simps dest: bit_imp_le_length)
    then show ?thesis using Cons.IH [of "n - 8"] by simp
  qed simp
qed simp

lemma le_word_small:
  assumes "length r \<le> 3"
  shows "(crc_bit ^^ 8) (push_bit 8 (le_word r)) = le_word r" "drop_bit 8 (push_bit 8 (le_word r)) = le_word r"
proof -
  have "bit (le_word r) n \<longrightarrow> n < 24" for n using bit_le_word [of r n] assms by auto
  then show d: "drop_bit 8 (push_bit 8 (le_word r)) = le_word r"
    by (intro bit_word_eqI) (auto simp: bit_simps)
  have "take_bit 8 (push_bit 8 (le_word r)) = 0" by (rule bit_word_eqI) (simp add: bit_simps)
  then show "(crc_bit ^^ 8) (push_bit 8 (le_word r)) = le_word r" by (simp only: crc_bits_low d)
qed

lemma crc_bytes_bits: "length r \<le> 4 \<Longrightarrow> foldl crc_byte c r = (crc_bit ^^ (8 * length r)) (c XOR le_word r)"
proof (induction r arbitrary: c)
  case (Cons b r)
  then have "foldl crc_byte c (b # r) = (crc_bit ^^ (8 * length r)) ((crc_bit ^^ 8) (c XOR ucast b) XOR (crc_bit ^^ 8) (push_bit 8 (le_word r)))"
    by (simp add: crc_byte_bits [of c] le_word_small)
  also have "\<dots> = (crc_bit ^^ (8 * length r)) ((crc_bit ^^ 8) (c XOR le_word (b # r)))"
    by (simp only: crc_bits_xor [symmetric] le_word.simps xor.assoc)
  also have "\<dots> = (crc_bit ^^ (8 * length r + 8)) (c XOR le_word (b # r))"
    by (simp only: funpow_add comp_apply)
  also have "8 * length r + 8 = 8 * length (b # r)" by simp
  finally show ?case .
qed simp

lemma le_word_inj: "length x = length y \<Longrightarrow> length x \<le> 4 \<Longrightarrow> le_word x = le_word y \<Longrightarrow> x = y"
proof (induction x y rule: list_induct2)
  case (Cons a x b y)
  have a: "ucast (le_word (a # x)) = a" and b: "ucast (le_word (b # y)) = b"
    by (rule bit_word_eqI, auto simp: bit_simps dest: bit_imp_le_length)+
  have ab: "a = b" by (rule trans [OF a [symmetric] trans [OF arg_cong [OF Cons.prems(2), of ucast] b]])
  then have p: "push_bit 8 (le_word x) = push_bit 8 (le_word y)" using Cons.prems(2) by (simp only: le_word.simps xor_cancel)
  have l: "length x \<le> 3" "length y \<le> 3" using Cons.prems(1) Cons.hyps by simp_all
  have "le_word x = le_word y" using arg_cong [OF p, of "drop_bit 8"] by (simp only: le_word_small(2) [OF l(1)] le_word_small(2) [OF l(2)])
  then show ?case using Cons.IH l(1) ab by simp
qed simp

lemma crc_bytes_inj: "foldl crc_byte a q = foldl crc_byte b q \<longleftrightarrow> a = b"
  by (induction q arbitrary: a b) (simp_all add: crc_byte_bits inj_crc_bits xor_cancel)

lemma crc32_burst:
  assumes "length x = length y" "length x \<le> 4" "x \<noteq> y"
  shows "crc32_ChecksumIEEE (p @ x @ q) \<noteq> crc32_ChecksumIEEE (p @ y @ q)"
  using assms le_word_inj [OF assms(1,2)]
  by (auto simp: crc32_ChecksumIEEE_def crc32_Update_def crc_bytes_inj crc_bytes_bits inj_crc_bits xor_cancel)

end
