(* ===== verification/Log_Entry.thy ===== *)
theory Log_Entry
  imports Go_Binary Crc32
begin

text \<open>
  \<open>logfile/log_entry.go\<close>: the record of the log, its binary form and the header decoder.

  An encoded entry is: CRC (4 bytes), status, then as variable-length integers the expiry
  time, transaction id, transaction status, key size and value size, then key and value.
  \<open>EncodeEntry\<close> builds the header in a buffer of \<open>MaxHeaderSize\<close> bytes; writing past it
  panics. \<open>entry_bytes\<close> is the specification of the layout; the theorems say that
  \<open>EncodeEntry\<close> produces it exactly when the header fits, and that \<open>decodeHeader\<close> and
  \<open>getEntryCrc\<close> invert it.
\<close>

subsection \<open>The entry\<close>

definition SDelete :: byte where "SDelete = 1"
definition SListMeta :: byte where "SListMeta = 2"
definition TxCommited :: "16 word" where "TxCommited = 1"
definition TxUncommited :: "16 word" where "TxUncommited = 2"

definition MaxHeaderSize :: nat where
  "MaxHeaderSize = 25"

record LogEntry =
  crc :: u32
  ExpiredAt :: i64
  Stat :: byte
  TxID :: u64
  TxStat :: "16 word"
  kSize :: u32
  vSize :: u32
  Key :: bytes
  Value :: slice

text \<open>The zero value, \<open>LogEntry{}\<close>.\<close>

definition empty_entry :: LogEntry where
  "empty_entry = \<lparr>crc = 0, ExpiredAt = 0, Stat = 0, TxID = 0, TxStat = 0, kSize = 0, vSize = 0,
     Key = [], Value = None\<rparr>"

subsection \<open>Encoding\<close>

text \<open>\<open>binary.PutVarint(buf[off:], x)\<close>: writes in place, or panics when the buffer ends.\<close>

definition put_varint :: "bytes \<Rightarrow> nat \<Rightarrow> i64 \<Rightarrow> (bytes \<times> nat) result" where
  "put_varint buf off x =
     (let v = PutVarint x
      in if off + length v \<le> length buf then Inr (write_at buf off v, length v) else Inl Panic)"

text \<open>The five header fields, written one after the other.\<close>

fun put_varints :: "bytes \<Rightarrow> nat \<Rightarrow> i64 list \<Rightarrow> (bytes \<times> nat) result" where
  "put_varints buf off [] = Inr (buf, off)"
| "put_varints buf off (x # xs) =
     (case put_varint buf off x of
        Inl e \<Rightarrow> Inl e
      | Inr (buf', n) \<Rightarrow> put_varints buf' (off + n) xs)"

definition header_fields :: "LogEntry \<Rightarrow> i64 list" where
  "header_fields le =
     [ExpiredAt le, TxID le, ucast (TxStat le),
      word_of_nat (length (Key le)), word_of_nat (length (bs (Value le)))]"

definition EncodeEntry :: "LogEntry option \<Rightarrow> (bytes \<times> nat) result" where
  "EncodeEntry ole =
     (case ole of
        None \<Rightarrow> Inr ([], 0)
      | Some le \<Rightarrow>
          (let buf = (replicate MaxHeaderSize 0)[4 := Stat le]
           in case put_varints buf 5 (header_fields le) of
                Inl e \<Rightarrow> Inl e
              | Inr (buf', offset) \<Rightarrow>
                  (let sz = offset + length (Key le) + length (bs (Value le));
                       newBuf = take offset buf' @ Key le @ bs (Value le);
                       c = crc32_ChecksumIEEE (drop 4 newBuf)
                   in Inr (write_at newBuf 0 (le32 c), sz))))"

subsection \<open>Decoding\<close>

text \<open>\<open>x, size := binary.Varint(buf[offset:]); offset += size\<close>.\<close>

definition get_varint :: "bytes \<Rightarrow> int \<Rightarrow> (i64 \<times> int) result" where
  "get_varint buf offset =
     (case slice_from buf offset of
        Inl e \<Rightarrow> Inl e
      | Inr r \<Rightarrow> (case Varint r of (x, n) \<Rightarrow> Inr (x, offset + n)))"

definition decodeHeader :: "bytes \<Rightarrow> (LogEntry option \<times> int) result" where
  "decodeHeader buf =
     (if length buf \<le> 4 then Inr (None, 0)
      else case un_le32 buf of Inl e \<Rightarrow> Inl e | Inr c \<Rightarrow>
      (case get_varint buf 5 of Inl e \<Rightarrow> Inl e | Inr (expiredAt, o1) \<Rightarrow>
      (case get_varint buf o1 of Inl e \<Rightarrow> Inl e | Inr (txID, o2) \<Rightarrow>
      (case get_varint buf o2 of Inl e \<Rightarrow> Inl e | Inr (txStatus, o3) \<Rightarrow>
      (case get_varint buf o3 of Inl e \<Rightarrow> Inl e | Inr (ks, o4) \<Rightarrow>
      (case get_varint buf o4 of Inl e \<Rightarrow> Inl e | Inr (vs, o5) \<Rightarrow>
         Inr (Some (empty_entry\<lparr>crc := c, Stat := buf ! 4, ExpiredAt := expiredAt, TxID := txID,
           TxStat := ucast txStatus, kSize := ucast ks, vSize := ucast vs\<rparr>), o5)))))))"

definition getEntryCrc :: "bytes \<Rightarrow> LogEntry option \<Rightarrow> u32" where
  "getEntryCrc buf ole =
     (if length buf \<le> 4 then 0
      else case ole of
        None \<Rightarrow> 0
      | Some le \<Rightarrow>
          crc32_Update (crc32_Update (crc32_ChecksumIEEE (drop 4 buf)) (Key le)) (bs (Value le)))"

subsection \<open>The layout of an encoded entry\<close>

definition header_tail :: "LogEntry \<Rightarrow> bytes" where
  "header_tail le = Stat le # concat (map PutVarint (header_fields le))"

definition header_size :: "LogEntry \<Rightarrow> nat" where
  "header_size le = 4 + length (header_tail le)"

definition entry_crc :: "LogEntry \<Rightarrow> u32" where
  "entry_crc le = crc32_ChecksumIEEE (header_tail le @ Key le @ bs (Value le))"

definition entry_bytes :: "LogEntry \<Rightarrow> bytes" where
  "entry_bytes le = le32 (entry_crc le) @ header_tail le @ Key le @ bs (Value le)"

definition entry_size :: "LogEntry \<Rightarrow> nat" where
  "entry_size le = header_size le + length (Key le) + length (bs (Value le))"

text \<open>
  What can be written and read back: the header fits the buffer, the sizes fit \<open>uint32\<close>,
  and the entry does not look like the end of the file.
\<close>

definition encodable :: "LogEntry \<Rightarrow> bool" where
  "encodable le \<longleftrightarrow> header_size le \<le> MaxHeaderSize \<and> length (Key le) < 2 ^ 32
     \<and> length (bs (Value le)) < 2 ^ 32 \<and> Key le \<noteq> []"

text \<open>The entry that reading it back gives: the decoder also fills in CRC and sizes.\<close>

definition stored :: "LogEntry \<Rightarrow> LogEntry" where
  "stored le = le\<lparr>crc := entry_crc le, kSize := word_of_nat (length (Key le)),
     vSize := word_of_nat (length (bs (Value le))), Value := Some (bs (Value le))\<rparr>"

subsection \<open>EncodeEntry produces the layout\<close>

lemma stored_simps [simp]:
  "crc (stored le) = entry_crc le" "Key (stored le) = Key le" "Stat (stored le) = Stat le"
  "ExpiredAt (stored le) = ExpiredAt le" "TxStat (stored le) = TxStat le" "TxID (stored le) = TxID le"
  "Value (stored le) = Some (bs (Value le))"
  by (simp_all add: stored_def)

lemma length_entry_bytes [simp]: "length (entry_bytes le) = entry_size le"
  by (simp add: entry_bytes_def entry_size_def header_size_def)

lemma entry_bytes_not_Nil [simp]: "entry_bytes le \<noteq> []"
  by (simp add: entry_bytes_def)

lemma entry_size_pos [simp]: "0 < entry_size le"
  by (simp add: entry_size_def header_size_def)

lemma entry_size_nz [simp]: "entry_size le \<noteq> 0"
  using entry_size_pos [of le] by linarith

lemma put_varints_spec:
  "put_varints buf off xs =
     (if off + length (concat (map PutVarint xs)) \<le> length buf
      then Inr (write_at buf off (concat (map PutVarint xs)), off + length (concat (map PutVarint xs)))
      else Inl Panic)" if "off \<le> length buf"
  using that
proof (induction xs arbitrary: buf off)
  case (Cons x xs)
  let ?v = "PutVarint x" and ?w = "concat (map PutVarint xs)"
  show ?case
  proof (cases "off + length ?v \<le> length buf")
    case True
    have "write_at (write_at buf off ?v) (off + length ?v) ?w = write_at buf off (?v @ ?w)"
      if "off + length ?v + length ?w \<le> length buf"
      using that by (cases "?w = []") (simp_all add: write_at_def Let_def ac_simps)
    with True show ?thesis
      using Cons.IH [of "off + length ?v" "write_at buf off ?v"]
      by (simp add: put_varint_def Let_def add.assoc)
  next
    case False
    then show ?thesis by (simp add: put_varint_def Let_def)
  qed
qed simp

lemma EncodeEntry_Some:
  "EncodeEntry (Some le) =
     (if header_size le \<le> MaxHeaderSize then Inr (entry_bytes le, entry_size le) else Inl Panic)"
proof -
  let ?v = "concat (map PutVarint (header_fields le))"
  let ?buf = "(replicate MaxHeaderSize 0)[4 := Stat le]"
  have len: "length ?buf = MaxHeaderSize" by simp
  have hs: "header_size le = 5 + length ?v"
    by (simp add: header_size_def header_tail_def)
  have pre: "take 5 ?buf = [0, 0, 0, 0, Stat le]"
    by (simp add: MaxHeaderSize_def numeral_eq_Suc)
  have "take (5 + length ?v) (write_at ?buf 5 ?v) = take 5 ?buf @ ?v"
    if "header_size le \<le> MaxHeaderSize"
    using that hs by (simp add: write_at_def Let_def header_fields_def MaxHeaderSize_def)
  then have nb: "take (5 + length ?v) (write_at ?buf 5 ?v) = [0, 0, 0, 0] @ header_tail le"
    if "header_size le \<le> MaxHeaderSize"
    using that by (simp add: pre header_tail_def)
  have "put_varints ?buf 5 (header_fields le) =
     (if header_size le \<le> MaxHeaderSize then Inr (write_at ?buf 5 ?v, 5 + length ?v) else Inl Panic)"
    using put_varints_spec [of 5 ?buf] hs by (simp add: MaxHeaderSize_def)
  moreover have "write_at ([0, 0, 0, 0] @ r) 0 (le32 c) = le32 c @ r" for r c
    by (simp add: write_at_def Let_def)
  ultimately show ?thesis
    by (simp add: EncodeEntry_def Let_def nb entry_bytes_def entry_crc_def entry_size_def hs
        del: append_Cons append_Nil) (simp add: write_at_def Let_def)
qed

subsection \<open>decodeHeader and getEntryCrc invert it\<close>

lemma get_varint_append [io_simps]:
  "get_varint (p @ PutVarint x @ r) (int (length p)) = Inr (x, int (length p + length (PutVarint x)))"
  by (simp add: get_varint_def slice_from_def Varint_PutVarint)

lemma decodeHeader_layout:
  "decodeHeader (le32 c @ header_tail le @ r) =
     Inr (Some (empty_entry\<lparr>crc := c, Stat := Stat le, ExpiredAt := ExpiredAt le, TxID := TxID le,
       TxStat := TxStat le, kSize := word_of_nat (length (Key le)),
       vSize := word_of_nat (length (bs (Value le)))\<rparr>), int (header_size le))"
proof -
  let ?p = "le32 c @ [Stat le]"
  let ?x1 = "ExpiredAt le" and ?x2 = "TxID le" and ?x3 = "ucast (TxStat le) :: i64"
    and ?x4 = "word_of_nat (length (Key le)) :: i64" and ?x5 = "word_of_nat (length (bs (Value le))) :: i64"
  let ?v = PutVarint
  define buf where "buf = le32 c @ header_tail le @ r"
  have b: "buf = ?p @ ?v ?x1 @ ?v ?x2 @ ?v ?x3 @ ?v ?x4 @ ?v ?x5 @ r"
    by (simp add: buf_def header_tail_def header_fields_def)
  have g1: "get_varint buf 5 = Inr (?x1, int (5 + length (?v ?x1)))"
    using get_varint_append [of ?p ?x1] by (simp add: b)
  have g2: "get_varint buf (int (5 + length (?v ?x1))) =
      Inr (?x2, int (5 + length (?v ?x1) + length (?v ?x2)))"
    using get_varint_append [of "?p @ ?v ?x1" ?x2] by (simp add: b)
  have g3: "get_varint buf (int (5 + length (?v ?x1) + length (?v ?x2))) =
      Inr (?x3, int (5 + length (?v ?x1) + length (?v ?x2) + length (?v ?x3)))"
    using get_varint_append [of "?p @ ?v ?x1 @ ?v ?x2" ?x3] by (simp add: b ac_simps)
  have g4: "get_varint buf (int (5 + length (?v ?x1) + length (?v ?x2) + length (?v ?x3))) =
      Inr (?x4, int (5 + length (?v ?x1) + length (?v ?x2) + length (?v ?x3) + length (?v ?x4)))"
    using get_varint_append [of "?p @ ?v ?x1 @ ?v ?x2 @ ?v ?x3" ?x4] by (simp add: b ac_simps)
  have g5: "get_varint buf
        (int (5 + length (?v ?x1) + length (?v ?x2) + length (?v ?x3) + length (?v ?x4))) =
      Inr (?x5, int (5 + length (?v ?x1) + length (?v ?x2) + length (?v ?x3) + length (?v ?x4)
        + length (?v ?x5)))"
    using get_varint_append [of "?p @ ?v ?x1 @ ?v ?x2 @ ?v ?x3 @ ?v ?x4" ?x5] by (simp add: b ac_simps)
  have hs: "int (5 + length (?v ?x1) + length (?v ?x2) + length (?v ?x3) + length (?v ?x4)
        + length (?v ?x5)) = int (header_size le)"
    by (simp add: header_size_def header_tail_def header_fields_def)
  have "\<not> length buf \<le> 4" "un_le32 buf = Inr c" "buf ! 4 = Stat le"
    by (simp_all add: b nth_append)
  moreover have "(ucast (word_of_nat n :: i64) :: u32) = word_of_nat n" for n
    by (rule bit_word_eqI) (simp add: bit_simps)
  moreover have "(ucast ?x3 :: 16 word) = TxStat le"
    by (rule bit_word_eqI) (simp add: bit_simps)
  ultimately show ?thesis
    unfolding buf_def [symmetric] decodeHeader_def by (simp only: g1 g2 g3 g4 g5 hs sum.case prod.case if_False)
qed

lemma getEntryCrc_layout:
  "getEntryCrc (le32 c @ header_tail le) (Some le') =
     crc32_ChecksumIEEE (header_tail le @ Key le' @ bs (Value le'))"
  by (simp add: getEntryCrc_def crc32_ChecksumIEEE_def crc.update_append header_tail_def)

text \<open>An entry with no expiry time and no transaction data always fits.\<close>

lemma plain_header_fits:
  assumes "ExpiredAt le = 0" "TxID le = 0" "unat (TxStat le) < 64"
    "length (Key le) < 2 ^ 32" "length (bs (Value le)) < 2 ^ 32"
  shows "header_size le \<le> 18"
proof -
  have "PutVarint 0 = [0]"
    by (simp add: PutVarint_def zigzag_def PutUvarint_small)
  moreover have "(ucast (TxStat le) :: i64) = word_of_nat (unat (TxStat le))"
    by simp
  then have "length (PutVarint (ucast (TxStat le))) \<le> 1"
    using assms(3) length_PutVarint_of_nat [of "unat (TxStat le)" 1] by simp
  moreover have "length (PutVarint (word_of_nat (length (Key le)))) \<le> 5"
    "length (PutVarint (word_of_nat (length (bs (Value le))))) \<le> 5"
    using assms(4,5) by (intro length_PutVarint_of_nat; simp)+
  ultimately show ?thesis
    by (simp add: header_size_def header_tail_def header_fields_def assms(1,2))
qed

end
