(* ===== verification/Log_File.thy ===== *)
theory Log_File
  imports Log_Entry IO_Controller
begin

text \<open>
  \<open>logfile/log_file.go\<close>: a log file is a file id, the offset of the next write and an
  IO controller. \<open>ReadLogEntry\<close> is written over the controller's \<open>Read\<close> method, as
  the code calls it through the interface; what it returns is proved once for every
  controller, in the locale \<open>io_controller\<close>. File names and how \<open>buildLogFiles\<close> (db.go)
  takes them apart are here too, with their round trip.
\<close>

subsection \<open>File names\<close>

definition FileIO :: byte where "FileIO = 0"
definition Mmap :: byte where "Mmap = 1"

definition FilePrefix :: bytes where
  "FilePrefix = str ''log.''"

definition FileTypesMap :: "bytes \<Rightarrow> byte option" where
  "FileTypesMap = [str ''strs'' \<mapsto> 0, str ''list'' \<mapsto> 1, str ''hash'' \<mapsto> 2, str ''set'' \<mapsto> 3,
     str ''zset'' \<mapsto> 4]"

definition FileNamesMap :: "byte \<Rightarrow> bytes option" where
  "FileNamesMap = [0 \<mapsto> str ''log.strs.'', 1 \<mapsto> str ''log.list.'', 2 \<mapsto> str ''log.hash.'',
     3 \<mapsto> str ''log.set.'', 4 \<mapsto> str ''log.zset.'']"

text \<open>\<open>fmt.Sprintf("%08d", fid)\<close>.\<close>

definition fmt_08d :: "u32 \<Rightarrow> bytes" where
  "fmt_08d fid = (let ds = digits (unat fid) in replicate (8 - length ds) 48 @ ds)"

text \<open>\<open>strings.Split\<close> with a one-byte separator.\<close>

fun split_on :: "byte \<Rightarrow> bytes \<Rightarrow> bytes list" where
  "split_on s [] = [[]]"
| "split_on s (b # r) =
     (if b = s then [] # split_on s r
      else (case split_on s r of [] \<Rightarrow> [[b]] | p # ps \<Rightarrow> (b # p) # ps))"

text \<open>
  The file type and id that \<open>buildLogFiles\<close> takes from a directory entry; \<open>None\<close> for a
  file it skips. A type name that is not in \<open>FileTypesMap\<close> reads as the map's zero value.
\<close>

definition parse_log_name :: "bytes \<Rightarrow> (byte \<times> u32) option" where
  "parse_log_name name =
     (if take (length FilePrefix) name \<noteq> FilePrefix then None
      else let splitInfo = split_on 46 name
           in if length splitInfo \<noteq> 3 then None
              else let typ = (case FileTypesMap (splitInfo ! 1) of None \<Rightarrow> 0 | Some t \<Rightarrow> t)
                   in (case ParseInt (splitInfo ! 2) of
                         None \<Rightarrow> None
                       | Some fid \<Rightarrow> Some (typ, ucast fid)))"

subsection \<open>Operations\<close>

record LogFile =
  Fid :: u32
  Offset :: int
  IoController :: IOController

definition log_name :: "byte \<Rightarrow> u32 \<Rightarrow> bytes" where
  "log_name ftype fid = (case FileNamesMap ftype of None \<Rightarrow> [] | Some p \<Rightarrow> p @ fmt_08d fid)"

definition Open_LogFile :: "u32 \<Rightarrow> int \<Rightarrow> byte \<Rightarrow> byte \<Rightarrow> fs \<Rightarrow> (LogFile \<times> fs) result" where
  "Open_LogFile fid fsize ftype ioType d =
     (if fsize \<le> 0 then Inl ErrIllegalFileSize
      else if FileNamesMap ftype = None then Inl ErrUnsupportedFileType
      else let fileName = log_name ftype fid
           in case (if ioType = FileIO then NewFileIOController fileName fsize d
                    else if ioType = Mmap then NewMMapController fileName fsize d
                    else Inl ErrUnsupportedIoType) of
                Inl e \<Rightarrow> Inl e
              | Inr (controller, d') \<Rightarrow>
                  Inr (\<lparr>Fid = fid, Offset = 0, IoController = controller\<rparr>, d'))"

definition ReadLogEntry_from :: "(nat \<Rightarrow> int \<Rightarrow> bytes result) \<Rightarrow> int \<Rightarrow> (LogEntry \<times> int) result" where
  "ReadLogEntry_from read offset =
     (case read MaxHeaderSize offset of
        Inl e \<Rightarrow> Inl e
      | Inr headerBuf \<Rightarrow>
          (case decodeHeader headerBuf of
             Inl e \<Rightarrow> Inl e
           | Inr (None, _) \<Rightarrow> Inl Panic
           | Inr (Some le, sz) \<Rightarrow>
               if crc le = 0 \<and> kSize le = 0 \<and> vSize le = 0 then Inl ErrLogEndOfFile
               else
                 (let ks = unat (kSize le); vs = unat (vSize le);
                      entrySize = sz + int ks + int vs
                  in case (if 0 < ks \<or> 0 < vs
                           then (case read (ks + vs) (offset + sz) of
                                   Inl e \<Rightarrow> Inl e
                                 | Inr kvBuf \<Rightarrow>
                                     Inr (le\<lparr>Key := take ks kvBuf, Value := Some (drop ks kvBuf)\<rparr>))
                           else Inr le) of
                       Inl e \<Rightarrow> Inl e
                     | Inr le' \<Rightarrow>
                         if sz < 0 \<or> int (length headerBuf) < sz then Inl Panic
                         else if getEntryCrc (take (nat sz) headerBuf) (Some le') \<noteq> crc le'
                         then Inl ErrInvalidCrc
                         else Inr (le', entrySize))))"

definition ReadLogEntry :: "LogFile \<Rightarrow> fs \<Rightarrow> int \<Rightarrow> (LogEntry \<times> int) result" where
  "ReadLogEntry lf d offset = ReadLogEntry_from (IO_Read (IoController lf) d) offset"

definition LogFile_Write :: "LogFile \<Rightarrow> bytes \<Rightarrow> fs \<Rightarrow> unit result \<times> LogFile \<times> fs" where
  "LogFile_Write lf buf d =
     (if length buf \<le> 0 then (Inr (), lf, d)
      else case IO_Write (IoController lf) buf (Offset lf) d of
             (Inl e, d') \<Rightarrow> (Inl e, lf, d')
           | (Inr n, d') \<Rightarrow>
               if n \<noteq> length buf then (Inl ErrWriteSizeNotEqual, lf, d')
               else (Inr (), lf\<lparr>Offset := Offset lf + int n\<rparr>, d'))"

definition LogFile_Sync :: "LogFile \<Rightarrow> fs \<Rightarrow> unit result" where
  "LogFile_Sync lf d = IO_Sync (IoController lf) d"

definition LogFile_Close :: "LogFile \<Rightarrow> fs \<Rightarrow> unit result" where
  "LogFile_Close lf d = IO_Close (IoController lf) d"

definition LogFile_Delete :: "LogFile \<Rightarrow> fs \<Rightarrow> unit result \<times> fs" where
  "LogFile_Delete lf d = IO_Delete (IoController lf) d"

subsection \<open>Entries in a file\<close>

definition entry_at :: "bytes \<Rightarrow> nat \<Rightarrow> LogEntry \<Rightarrow> bool" where
  "entry_at c off le \<longleftrightarrow> sub c off (entry_size le) = entry_bytes le"

lemma entry_at_bound: "entry_at c off le \<Longrightarrow> off + entry_size le \<le> length c"
proof -
  assume "entry_at c off le"
  then have "length (sub c off (entry_size le)) = entry_size le"
    by (simp only: entry_at_def length_entry_bytes)
  then have "entry_size le \<le> length c - off" by simp
  then show ?thesis using entry_size_pos [of le] by arith
qed

lemma entry_at_write [io_simps]: "entry_at (write_at c off (entry_bytes le)) off le"
  unfolding entry_at_def by (metis length_entry_bytes sub_write_same)

lemma entry_at_frame [frame_simps]:
  assumes "entry_at c off le" "off + entry_size le \<le> i"
  shows "entry_at (write_at c i b) off le"
  using assms entry_at_bound [OF assms(1)] by (simp add: entry_at_def sub_write_before)

text \<open>The layout of an entry with any four bytes in the place of the checksum.\<close>

definition layout_at :: "bytes \<Rightarrow> nat \<Rightarrow> u32 \<Rightarrow> LogEntry \<Rightarrow> bool" where
  "layout_at c off k le \<longleftrightarrow> sub c off (entry_size le) = le32 k @ header_tail le @ Key le @ bs (Value le)"

lemma entry_at_layout: "entry_at c off le \<longleftrightarrow> layout_at c off (entry_crc le) le"
  by (simp add: entry_at_def layout_at_def entry_bytes_def)

lemma layout_at_sub:
  assumes "layout_at c off k le" "i + n \<le> entry_size le"
  shows "sub c (off + i) n = sub (le32 k @ header_tail le @ Key le @ bs (Value le)) i n"
  using assms sub_sub [of i n "entry_size le" c off] by (simp add: layout_at_def)

lemma layout_at_header:
  assumes "layout_at c off k le" "header_size le \<le> n"
  shows "\<exists>r. sub c off n = le32 k @ header_tail le @ r"
proof -
  let ?h = "le32 k @ header_tail le"
  have len: "length ?h = header_size le" by (simp add: header_size_def)
  have "sub c off (length ?h) = sub (?h @ Key le @ bs (Value le)) 0 (length ?h)"
    using layout_at_sub [OF assms(1), of 0 "length ?h"] len by (simp add: entry_size_def)
  also have "\<dots> = ?h" by (simp add: sub_def)
  finally show ?thesis using sub_prefix [of c off ?h n] len assms(2) by auto
qed

lemma layout_at_payload:
  assumes "layout_at c off k le"
  shows "sub c (off + header_size le) (length (Key le) + length (bs (Value le))) = Key le @ bs (Value le)"
  using layout_at_sub [OF assms, of "header_size le" "length (Key le) + length (bs (Value le))"]
  by (simp add: entry_size_def sub_def header_size_def)

context io_controller
begin

text \<open>Reading an entry that is in the file, and the two ways reading ends.\<close>

lemma read_layout:
  assumes e: "encodable le" and at: "layout_at c off k le"
    and r1: "can_rd (length c) off MaxHeaderSize"
    and r2: "can_rd (length c) (off + header_size le) (length (Key le) + length (bs (Value le)))"
  shows "ReadLogEntry_from (rd c) (int off) =
    (if k = entry_crc le then Inr (stored le, int (entry_size le)) else Inl ErrInvalidCrc)"
proof -
  obtain r where h: "sub c off MaxHeaderSize = le32 k @ header_tail le @ r"
    using layout_at_header [OF at] e by (auto simp: encodable_def)
  have ks: "unat (word_of_nat (length (Key le)) :: u32) = length (Key le)"
    and vs: "unat (word_of_nat (length (bs (Value le))) :: u32) = length (bs (Value le))"
    using e by (simp_all add: encodable_def unat_of_nat)
  have k0: "0 < length (Key le)" using e by (simp add: encodable_def)
  then have kne: "(word_of_nat (length (Key le)) :: u32) \<noteq> 0"
    by (metis ks less_irrefl unat_0)
  have tk: "take (header_size le) (le32 k @ header_tail le @ r)
      = le32 k @ header_tail le"
    by (simp add: header_size_def)
  have "int off + int (header_size le) = int (off + header_size le)" by simp
  then have pay: "rd c (length (Key le) + length (bs (Value le))) (int off + int (header_size le))
      = Inr (Key le @ bs (Value le))"
    by (simp only: rd_ok [OF r2] layout_at_payload [OF at])
  have len: "\<not> int (length (le32 k @ header_tail le @ r)) < int (header_size le)"
    by (simp add: header_size_def)
  have crc_ok: "getEntryCrc (le32 k @ header_tail le) (Some x) = entry_crc le"
    if "Key x = Key le" "bs (Value x) = bs (Value le)" for x
    using that by (simp add: getEntryCrc_layout entry_crc_def)
  have st: "k = entry_crc le \<Longrightarrow> empty_entry\<lparr>crc := k, Stat := Stat le, ExpiredAt := ExpiredAt le,
      TxID := TxID le, TxStat := TxStat le, kSize := word_of_nat (length (Key le)),
      vSize := word_of_nat (length (bs (Value le))), Key := Key le, Value := Some (bs (Value le))\<rparr>
      = stored le"
    by (cases le) (simp add: stored_def empty_entry_def entry_crc_def header_tail_def header_fields_def)
  have tk2: "take (length a) (a @ b) = a" for a b :: bytes by simp
  show ?thesis
    using k0 kne len st
    by (simp add: ReadLogEntry_from_def rd_ok [OF r1] h decodeHeader_layout Let_def ks vs pay tk
        tk2 crc_ok entry_size_def del: take_append)
qed

lemma read_entry:
  assumes "encodable le" "entry_at c off le" "can_rd (length c) off MaxHeaderSize"
    "can_rd (length c) (off + header_size le) (length (Key le) + length (bs (Value le)))"
  shows "ReadLogEntry_from (rd c) (int off) = Inr (stored le, int (entry_size le))"
  using read_layout [OF assms(1) _ assms(3,4)] assms(2) by (simp add: entry_at_layout)

lemma read_short:
  "\<not> can_rd (length c) off MaxHeaderSize \<Longrightarrow> ReadLogEntry_from (rd c) (int off) = Inl EOF"
  by (simp add: ReadLogEntry_from_def rd_fail)

lemma read_zeros:
  assumes "can_rd (length c) off MaxHeaderSize" "sub c off MaxHeaderSize = replicate MaxHeaderSize 0"
  shows "ReadLogEntry_from (rd c) (int off) = Inl ErrLogEndOfFile"
proof -
  have v0: "Varint (0 # r) = (0, 1)" for r
    by (simp add: Varint_def Uvarint_def unzigzag_def)
  have "decodeHeader (replicate MaxHeaderSize 0) = Inr (Some empty_entry, 10)"
    by (simp add: decodeHeader_def MaxHeaderSize_def numeral_eq_Suc get_varint_def slice_from_def v0
        empty_entry_def)
  then show ?thesis
    using assms by (simp add: ReadLogEntry_from_def rd_ok empty_entry_def)
qed

end

subsection \<open>Damaged entries\<close>

text \<open>
  \<open>p @ w' @ q\<close> is an entry whose bytes \<open>w\<close> have been overwritten. It still has the layout of an
  entry, with a checksum that is not its own.
\<close>

definition damaged :: "LogEntry \<Rightarrow> bytes \<Rightarrow> bool" where
  "damaged le b \<longleftrightarrow> (\<exists>k le'. encodable le' \<and> entry_size le' = entry_size le \<and> header_size le' = header_size le \<and>
     b = le32 k @ header_tail le' @ Key le' @ bs (Value le') \<and> k \<noteq> entry_crc le')"

lemma damaged_crc:
  assumes "encodable le" "entry_bytes le = c @ r" "length c = 4" "length c' = 4" "c' \<noteq> c"
  shows "damaged le (c' @ r)"
proof -
  obtain w x y z where c': "c' = [w, x, y, z]" using assms(4) by (auto simp: numeral_eq_Suc length_Suc_conv)
  then obtain k where "un_le32 [w, x, y, z] = Inr k" by simp
  then have k: "le32 k = c'" using le32_un_le32 c' by blast
  have "c = le32 (entry_crc le)" "r = header_tail le @ Key le @ bs (Value le)"
    using assms(2,3) by (simp_all add: entry_bytes_def append_eq_append_conv)
  then show ?thesis unfolding damaged_def using assms(1,5) k by (intro exI [of _ k] exI [of _ le]) auto
qed

lemma damaged_stat:
  assumes "encodable le" "s \<noteq> Stat le"
  shows "damaged le (le32 (entry_crc le) @ s # tl (header_tail le) @ Key le @ bs (Value le))"
proof -
  let ?le = "le\<lparr>Stat := s\<rparr>"
  let ?r = "concat (map PutVarint (header_fields le)) @ Key le @ bs (Value le)"
  have t: "header_tail ?le = s # tl (header_tail le)" by (simp add: header_tail_def header_fields_def)
  have "entry_crc ?le \<noteq> entry_crc le"
    using crc32_burst [of "[s]" "[Stat le]" "[]" ?r] assms(2) by (simp add: entry_crc_def header_tail_def header_fields_def)
  then show ?thesis unfolding damaged_def using assms(1) t
    by (intro exI [of _ "entry_crc le"] exI [of _ ?le]) (auto simp: encodable_def entry_size_def header_size_def header_tail_def)
qed

lemma damaged_payload:
  assumes e: "encodable le" and kv: "Key le @ bs (Value le) = p @ w @ q"
    and w: "length w' = length w" "length w \<le> 4" "w' \<noteq> w"
  shows "damaged le (le32 (entry_crc le) @ header_tail le @ p @ w' @ q)"
proof -
  let ?n = "length (Key le)" and ?m = "length (bs (Value le))"
  have "length (p @ w' @ q) = ?n + ?m" using arg_cong [OF kv, of length] w(1) by simp
  then obtain K V where kv': "p @ w' @ q = K @ V" "length K = ?n" "length V = ?m"
    by (intro that [of "take ?n (p @ w' @ q)" "drop ?n (p @ w' @ q)"]) (simp_all del: take_append drop_append)
  let ?le = "le\<lparr>Key := K, Value := Some V\<rparr>"
  have t: "header_tail ?le = header_tail le" using kv'(2,3) by (simp add: header_tail_def header_fields_def bs_def)
  have "entry_crc ?le \<noteq> entry_crc le"
    using crc32_burst [of w' w "header_tail le @ p" q] w kv kv'(1) t by (simp add: entry_crc_def bs_def)
  moreover have "encodable ?le" "entry_size ?le = entry_size le" "header_size ?le = header_size le"
    using e kv'(2,3) t by (auto simp: encodable_def entry_size_def header_size_def bs_def)
  ultimately show ?thesis unfolding damaged_def using kv'(1) t
    by (intro exI [of _ "entry_crc le"] exI [of _ ?le]) (auto simp: bs_def)
qed

lemma damaged_entry:
  assumes e: "encodable le" and b: "entry_bytes le = p @ w @ q"
    and w: "length w' = length w" "length w \<le> 4" "w' \<noteq> w"
    and place: "length (p @ w) \<le> 4 \<or> length p = 4 \<and> length w = 1 \<or> header_size le \<le> length p"
  shows "damaged le (p @ w' @ q)"
proof -
  let ?c = "le32 (entry_crc le)" and ?kv = "Key le @ bs (Value le)"
  have eb: "entry_bytes le = ?c @ header_tail le @ ?kv" by (simp add: entry_bytes_def)
  consider "length (p @ w) \<le> 4" | "length p = 4" "length w = 1" | "header_size le \<le> length p" using place by blast
  then show ?thesis
  proof cases
    case 1
    let ?m = "4 - length (p @ w)"
    have "entry_bytes le = (p @ w @ take ?m q) @ drop ?m q" using b by simp
    moreover have "4 \<le> length (p @ w @ q)" by (simp add: b [symmetric] entry_size_def header_size_def)
    ultimately show ?thesis using damaged_crc [OF e, of "p @ w @ take ?m q" "drop ?m q" "p @ w' @ take ?m q"] 1 w by simp
  next
    case 2
    obtain s s' where s: "w = [s]" "w' = [s']" using 2(2) w(1) by (auto simp: length_Suc_conv)
    have "header_tail le = Stat le # tl (header_tail le)" by (simp add: header_tail_def)
    then have "p @ s # q = ?c @ Stat le # tl (header_tail le) @ ?kv" using b eb s(1) by (metis append_Cons append_Nil)
    then have "p = ?c" "s = Stat le" "q = tl (header_tail le) @ ?kv" using 2(1) by (simp_all add: append_eq_append_conv)
    then show ?thesis using damaged_stat [OF e, of s'] w(3) s by simp
  next
    case 3
    define p2 where "p2 = drop (header_size le) p"
    have "take (header_size le) (p @ w @ q) = ?c @ header_tail le" "drop (header_size le) (p @ w @ q) = ?kv"
      unfolding b [symmetric] eb by (simp_all add: header_size_def)
    then have "p = (?c @ header_tail le) @ p2" "?kv = p2 @ w @ q"
      using 3 append_take_drop_id [of "header_size le" p] by (simp_all add: p2_def)
    then show ?thesis using damaged_payload [OF e, of p2 w q w'] w by simp
  qed
qed

context io_controller
begin

lemma read_damaged:
  assumes d: "damaged le b" and c: "sub c off (entry_size le) = b" and r1: "can_rd (length c) off MaxHeaderSize"
    and r2: "can_rd (length c) (off + header_size le) (entry_size le - header_size le)"
  shows "ReadLogEntry_from (rd c) (int off) = Inl ErrInvalidCrc"
proof -
  obtain k le' where k: "encodable le'" "entry_size le' = entry_size le" "header_size le' = header_size le"
    "b = le32 k @ header_tail le' @ Key le' @ bs (Value le')" "k \<noteq> entry_crc le'"
    using d unfolding damaged_def by blast
  have "layout_at c off k le'" using c k(2,4) by (simp add: layout_at_def)
  moreover have "entry_size le - header_size le = length (Key le') + length (bs (Value le'))"
    unfolding k(2,3) [symmetric] by (simp add: entry_size_def)
  ultimately show ?thesis using read_layout [OF k(1) _ r1] r2 k(3,5) by simp
qed

end

subsection \<open>The round trip of file names\<close>

lemma fmt_08d_digits: "list_all is_digit (fmt_08d fid)" "fmt_08d fid \<noteq> []"
  by (auto simp: fmt_08d_def Let_def list_all_iff is_digit_def dest: digits_all [unfolded list_all_iff, THEN bspec])

lemma ParseInt_fmt_08d: "ParseInt (fmt_08d fid) = Some (ucast fid)"
proof -
  have v: "digits_val (fmt_08d fid) = unat fid"
    by (simp add: fmt_08d_def Let_def digits_val_zeros)
  have "unat fid < 2 ^ LENGTH(32)" by (rule unsigned_less)
  then have "unat fid < 2 ^ 63" by simp
  then show ?thesis
    using ParseInt_digits [OF fmt_08d_digits(2,1), of fid] by (simp add: v)
qed

lemma split_on_no_sep: "s \<notin> set p \<Longrightarrow> split_on s p = [p]"
  by (induction p) auto

lemma split_on_sep: "s \<notin> set p \<Longrightarrow> split_on s (p @ s # r) = p # split_on s r"
  by (induction p) (auto split: list.splits)

lemma fmt_08d_no_dot: "46 \<notin> set (fmt_08d fid)"
  using fmt_08d_digits(1) [of fid] digit_not_special by (auto simp: list_all_iff)

lemma parse_log_name_parts:
  assumes "p \<in> {str ''strs'', str ''list'', str ''hash'', str ''set'', str ''zset''}"
  shows "parse_log_name (str ''log.'' @ p @ str ''.'' @ fmt_08d fid) = Some (the (FileTypesMap p), fid)"
proof -
  have "46 \<notin> set p" using assms by (auto simp: str_def)
  then have "split_on 46 (p @ 46 # fmt_08d fid) = [p, fmt_08d fid]"
    by (simp add: split_on_sep split_on_no_sep fmt_08d_no_dot)
  moreover have "46 \<notin> set (str ''log'')" by (simp add: str_def)
  then have "split_on 46 (str ''log'' @ 46 # r) = str ''log'' # split_on 46 r" for r
    by (rule split_on_sep)
  moreover have "str ''log.'' @ p @ str ''.'' @ fmt_08d fid = str ''log'' @ 46 # p @ 46 # fmt_08d fid"
    by (simp add: str_def)
  ultimately have "split_on 46 (str ''log.'' @ p @ str ''.'' @ fmt_08d fid) = [str ''log'', p, fmt_08d fid]"
    by (simp only:)
  moreover obtain t where "FileTypesMap p = Some t"
    using assms by (auto simp: FileTypesMap_def str_def)
  moreover have "(ucast (ucast fid :: i64) :: u32) = fid"
    by (rule bit_word_eqI) (simp add: bit_simps)
  ultimately show ?thesis
    by (simp add: parse_log_name_def FilePrefix_def Let_def ParseInt_fmt_08d)
qed

lemma FileNamesMap_parts:
  assumes "FileNamesMap t = Some p"
  shows "\<exists>n \<in> {str ''strs'', str ''list'', str ''hash'', str ''set'', str ''zset''}.
    p = str ''log.'' @ n @ str ''.'' \<and> FileTypesMap n = Some t"
  using assms by (auto simp: FileNamesMap_def FileTypesMap_def str_def split: if_splits)

lemma parse_log_name_log_name:
  assumes "FileNamesMap t \<noteq> None"
  shows "parse_log_name (log_name t fid) = Some (t, fid)"
proof -
  obtain p where p: "FileNamesMap t = Some p" using assms by auto
  from FileNamesMap_parts [OF p] obtain n
    where n: "n \<in> {str ''strs'', str ''list'', str ''hash'', str ''set'', str ''zset''}"
      and pt: "p = str ''log.'' @ n @ str ''.'' \<and> FileTypesMap n = Some t"
    by (rule bexE)
  have "log_name t fid = str ''log.'' @ n @ str ''.'' @ fmt_08d fid"
    by (simp only: log_name_def p pt [THEN conjunct1] option.case append_assoc)
  then show ?thesis using parse_log_name_parts [OF n, of fid] by (simp only: pt [THEN conjunct2] option.sel)
qed

lemma log_name_inj:
  assumes "FileNamesMap t \<noteq> None" "FileNamesMap t' \<noteq> None"
  shows "log_name t fid = log_name t' fid' \<longleftrightarrow> t = t' \<and> fid = fid'"
proof
  assume eq: "log_name t fid = log_name t' fid'"
  have "Some (t, fid) = Some (t', fid')"
    unfolding parse_log_name_log_name [OF assms(1), symmetric]
      parse_log_name_log_name [OF assms(2), symmetric] eq ..
  then show "t = t' \<and> fid = fid'" by simp
qed simp

subsection \<open>Properties\<close>

text \<open>
  C7. What EncodeEntry writes, ReadLogEntry gives back: wherever the encoded entry stands in a
  file, reading at its offset returns the same key, value, status, expiry time and transaction
  fields, the CRC check passes, and the size returned is the number of bytes written. This
  needs 25 bytes from the offset to the end of the file, because a header of maximal size is
  read.
\<close>

theorem EncodeEntry_ReadLogEntry:
  assumes e: "encodable le" and enc: "EncodeEntry (Some le) = Inr (b, n)" and len: "MaxHeaderSize \<le> length (b @ post)"
  shows "n = length b \<and>
    ReadLogEntry_from (FileIO_Read (pre @ b @ post)) (int (length pre)) = Inr (stored le, int n)"
proof -
  have b: "b = entry_bytes le" "n = entry_size le"
    using e enc by (simp_all add: EncodeEntry_Some encodable_def)
  have at: "entry_at (pre @ b @ post) (length pre) le"
    by (simp add: entry_at_def sub_Cons_append b)
  have "ReadLogEntry_from (FileIO_Read (pre @ b @ post)) (int (length pre)) = Inr (stored le, int (entry_size le))"
    by (rule fileio.read_entry [OF e at]) (use len in \<open>simp_all add: b entry_size_def\<close>)
  then show ?thesis by (simp add: b)
qed

theorem EncodeEntry_ReadLogEntry_witness:
  "\<exists>b n. EncodeEntry (Some (empty_entry\<lparr>Key := [1], Value := Some (replicate 20 2)\<rparr>)) = Inr (b, n) \<and>
     ReadLogEntry_from (FileIO_Read ([9, 9] @ b)) 2 =
       Inr (stored (empty_entry\<lparr>Key := [1], Value := Some (replicate 20 2)\<rparr>), int n)"
proof -
  let ?le = "empty_entry\<lparr>Key := [1], Value := Some (replicate 20 2)\<rparr>"
  have "header_size ?le \<le> 18" by (rule plain_header_fits) (simp_all add: empty_entry_def)
  then have e: "encodable ?le" by (simp add: encodable_def MaxHeaderSize_def empty_entry_def)
  have enc: "EncodeEntry (Some ?le) = Inr (entry_bytes ?le, entry_size ?le)"
    using e by (simp add: EncodeEntry_Some encodable_def)
  have "MaxHeaderSize \<le> length (entry_bytes ?le @ [])"
    by (simp add: entry_size_def header_size_def header_tail_def MaxHeaderSize_def)
  from EncodeEntry_ReadLogEntry [OF e enc this, of "[9, 9]"] enc show ?thesis by auto
qed

text \<open>
  C8. Damage is detected: if up to four consecutive bytes of the checksum, of the key and value
  part, or the status byte of an encoded entry are overwritten with other bytes, ReadLogEntry
  reports ErrInvalidCrc and never returns a wrong entry.
\<close>

theorem damage_detected:
  assumes e: "encodable le" and enc: "EncodeEntry (Some le) = Inr (p @ w @ q, n)"
    and w: "length w' = length w" "length w \<le> 4" "w' \<noteq> w"
    and place: "length (p @ w) \<le> 4 \<or> length p = 4 \<and> length w = 1 \<or> header_size le \<le> length p"
    and len: "MaxHeaderSize \<le> length (p @ w @ q @ post)"
  shows "ReadLogEntry_from (FileIO_Read (pre @ p @ w' @ q @ post)) (int (length pre)) = Inl ErrInvalidCrc"
proof -
  have b: "entry_bytes le = p @ w @ q" using e enc by (simp add: EncodeEntry_Some encodable_def)
  have n: "entry_size le = length (p @ w' @ q)" using arg_cong [OF b, of length] w(1) by simp
  have c: "sub (pre @ (p @ w' @ q) @ post) (length pre) (entry_size le) = p @ w' @ q"
    unfolding n by (simp add: sub_def)
  show ?thesis
    using fileio.read_damaged [OF damaged_entry [OF e b w place] c] len n w(1) by (simp add: entry_size_def)
qed

theorem damage_detected_witness:
  "\<exists>p n. EncodeEntry (Some (empty_entry\<lparr>Key := [1], Value := Some (replicate 20 2)\<rparr>)) = Inr (p @ replicate 20 2, n) \<and>
     ReadLogEntry_from (FileIO_Read ([9] @ p @ [2, 3, 4, 2] @ replicate 16 2)) 1 = Inl ErrInvalidCrc"
proof -
  let ?le = "empty_entry\<lparr>Key := [1], Value := Some (replicate 20 2)\<rparr>"
  let ?p = "le32 (entry_crc ?le) @ header_tail ?le @ [1]"
  have "header_size ?le \<le> 18" by (rule plain_header_fits) (simp_all add: empty_entry_def)
  then have e: "encodable ?le" by (simp add: encodable_def MaxHeaderSize_def empty_entry_def)
  have r: "replicate 20 2 = [2, 2, 2, 2] @ replicate 16 (2 :: byte)" by (simp add: numeral_eq_Suc)
  from r have enc: "EncodeEntry (Some ?le) = Inr (?p @ [2, 2, 2, 2] @ replicate 16 2, entry_size ?le)"
    using e by (simp add: EncodeEntry_Some encodable_def entry_bytes_def bs_def)
  have "MaxHeaderSize \<le> length (?p @ [2, 2, 2, 2] @ replicate 16 2 @ [])" by (simp add: MaxHeaderSize_def)
  then have "ReadLogEntry_from (FileIO_Read ([9] @ ?p @ [2, 3, 4, 2] @ replicate 16 2 @ [])) (int (length [9 :: byte])) = Inl ErrInvalidCrc"
    by (rule damage_detected [OF e enc, rotated 4]) (simp_all add: header_size_def)
  moreover have "EncodeEntry (Some ?le) = Inr (?p @ replicate 20 2, entry_size ?le)" using enc by (simp only: r)
  ultimately show ?thesis by (intro exI [of _ ?p] exI [of _ "entry_size ?le"]) simp
qed

text \<open>
  C38. EncodeEntry panics exactly when the header is longer than the 25 bytes of its buffer, and
  otherwise returns the entry in the documented layout, together with its length.
\<close>

theorem EncodeEntry_total:
  "EncodeEntry (Some le) =
     (if header_size le \<le> 25
      then Inr (le32 (entry_crc le) @ header_tail le @ Key le @ bs (Value le),
             header_size le + length (Key le) + length (bs (Value le)))
      else Inl Panic)"
  by (simp add: EncodeEntry_Some MaxHeaderSize_def entry_bytes_def entry_size_def)

text \<open>
  The file name of a log file determines its type and file id: when the directory is read
  again, the name gives back both, so two log files never share a name.
\<close>

theorem log_name_roundtrip:
  assumes "FileNamesMap t \<noteq> None"
  shows "parse_log_name (log_name t fid) = Some (t, fid)"
  using assms by (rule parse_log_name_log_name)

theorem log_name_roundtrip_witness: "parse_log_name (log_name 4 123) = Some (4, 123)"
  using log_name_roundtrip [of 4 123] by (simp add: FileNamesMap_def)

end
