(* ===== verification/Log_Image.thy ===== *)
theory Log_Image
  imports Log_File
begin

text \<open>
  What a log file looks like: the encoded entries one after the other, then zeros up to the
  size it was created with. \<open>positions\<close> lists the entries of a file with their offsets;
  reading at such an offset gives the entry, reading behind the last one ends the scan. These
  are the facts behind the loops that read a whole file, in the recovery of the indexes and in
  the merge of log files.

  A successful \<open>ReadLogEntry\<close> always returns a positive size, whatever the file holds; this is
  why those loops end.
\<close>

subsection \<open>Definitions\<close>

definition log_bytes :: "LogEntry list \<Rightarrow> bytes" where
  "log_bytes es = concat (map entry_bytes es)"

definition file_image :: "int \<Rightarrow> LogEntry list \<Rightarrow> bytes" where
  "file_image mx es = log_bytes es @ replicate (nat mx - length (log_bytes es)) 0"

fun positions :: "u32 \<Rightarrow> int \<Rightarrow> LogEntry list \<Rightarrow> (u32 \<times> int \<times> LogEntry) list" where
  "positions f off [] = []"
| "positions f off (le # es) = (f, off, le) # positions f (off + int (entry_size le)) es"

text \<open>Every entry of the file can be read: it is encodable and not in the last 24 bytes.\<close>

fun image_ok :: "int \<Rightarrow> int \<Rightarrow> LogEntry list \<Rightarrow> bool" where
  "image_ok len off [] \<longleftrightarrow> True"
| "image_ok len off (le # es) \<longleftrightarrow>
     encodable le \<and> off + int MaxHeaderSize \<le> len \<and> image_ok len (off + int (entry_size le)) es"

definition file_ok :: "int \<Rightarrow> LogEntry list \<Rightarrow> bool" where
  "file_ok mx es \<longleftrightarrow> image_ok (int (length (file_image mx es))) 0 es"

subsection \<open>The shape of a file\<close>

lemma log_bytes_simps [simp]:
  "log_bytes [] = []" "log_bytes (le # es) = entry_bytes le @ log_bytes es"
  "log_bytes (es @ es') = log_bytes es @ log_bytes es'"
  by (simp_all add: log_bytes_def)

lemma length_file_image: "length (file_image mx es) = max (nat mx) (length (log_bytes es))"
  by (simp add: file_image_def)

lemma file_image_Nil [simp]: "file_image mx [] = replicate (nat mx) 0"
  by (simp add: file_image_def)

lemma file_image_length_mono: "length (file_image mx es) \<le> length (file_image mx (es @ es'))"
  by (simp add: length_file_image)

lemma file_image_append:
  "file_image mx (es @ [le]) = write_at (file_image mx es) (length (log_bytes es)) (entry_bytes le)"
  by (simp add: file_image_def write_at_def Let_def)

lemma positions_append:
  "positions f off (es @ es') = positions f off es @ positions f (off + int (length (log_bytes es))) es'"
  by (induction es arbitrary: off) (simp_all add: add.assoc)

lemma positions_fid: "x \<in> set (positions f off es) \<Longrightarrow> fst x = f"
  by (induction es arbitrary: off) auto

lemma positions_at:
  assumes "(f', off', le) \<in> set (positions f (int off) es)"
  shows "f' = f \<and> (\<exists>es1 es2. es = es1 @ le # es2 \<and> off' = int (off + length (log_bytes es1)))"
  using assms
proof (induction es arbitrary: off)
  case (Cons x es)
  then consider "f' = f" "off' = int off" "le = x" | "(f', off', le) \<in> set (positions f (int (off + entry_size x)) es)"
    by auto
  then show ?case
  proof cases
    case 1
    then show ?thesis using exI [of "\<lambda>es1. \<exists>es2. x # es = es1 @ le # es2 \<and> off' = int (off + length (log_bytes es1))" "[]"] by simp
  next
    case 2
    then obtain es1 es2 where "f' = f" "es = es1 @ le # es2" "off' = int (off + entry_size x + length (log_bytes es1))"
      using Cons.IH [of "off + entry_size x"] by auto
    then show ?thesis by (intro conjI exI [of _ "x # es1"] exI [of _ es2]) simp_all
  qed
qed simp

lemma entry_at_image: "entry_at (file_image mx (es1 @ le # es2)) (length (log_bytes es1)) le"
  by (simp add: entry_at_def file_image_def sub_def)

lemma image_ok_mono: "image_ok len off es \<Longrightarrow> len \<le> len' \<Longrightarrow> image_ok len' off es"
  by (induction es arbitrary: off) auto

lemma image_ok_append:
  "image_ok len off (es @ es') \<longleftrightarrow> image_ok len off es \<and> image_ok len (off + int (length (log_bytes es))) es'"
  by (induction es arbitrary: off) (simp_all add: add.assoc)

lemma file_ok_Nil [simp]: "file_ok mx []"
  by (simp add: file_ok_def)

text \<open>A new entry keeps the file readable if it does not start in the last 24 bytes.\<close>

lemma file_ok_append:
  assumes "file_ok mx es" "encodable le"
    and "MaxHeaderSize \<le> entry_size le \<or> int (length (log_bytes es)) + int MaxHeaderSize \<le> mx"
  shows "file_ok mx (es @ [le])"
proof -
  let ?l = "int (length (file_image mx (es @ [le])))"
  have "image_ok ?l 0 es"
    using assms(1) file_image_length_mono [of mx es "[le]"] by (auto simp: file_ok_def intro: image_ok_mono)
  moreover have "int (length (log_bytes es)) + int MaxHeaderSize \<le> ?l"
    using assms(3) by (auto simp: length_file_image)
  ultimately show ?thesis using assms(2) by (simp add: file_ok_def image_ok_append)
qed

lemma file_ok_at:
  assumes "file_ok mx (es1 @ le # es2)"
  shows "encodable le" "length (log_bytes es1) + MaxHeaderSize \<le> length (file_image mx (es1 @ le # es2))"
  using assms by (auto simp: file_ok_def image_ok_append simp flip: of_nat_add)

subsection \<open>Scanning a file\<close>

lemma scan_entry:
  assumes "file_ok mx (es1 @ le # es2)"
  shows "ReadLogEntry_from (FileIO_Read (file_image mx (es1 @ le # es2))) (int (length (log_bytes es1))) =
    Inr (stored le, int (entry_size le))"
proof (rule fileio.read_entry [OF file_ok_at(1) [OF assms] entry_at_image])
  show "MaxHeaderSize = 0 \<or> length (log_bytes es1) + MaxHeaderSize \<le> length (file_image mx (es1 @ le # es2))"
    using file_ok_at(2) [OF assms] by simp
  have "length (log_bytes es1) + entry_size le \<le> length (file_image mx (es1 @ le # es2))"
    by (rule entry_at_bound [OF entry_at_image])
  then show "length (Key le) + length (bs (Value le)) = 0 \<or>
      length (log_bytes es1) + header_size le + (length (Key le) + length (bs (Value le)))
      \<le> length (file_image mx (es1 @ le # es2))"
    by (simp add: entry_size_def)
qed

lemma scan_end:
  "\<exists>e. ReadLogEntry_from (FileIO_Read (file_image mx es)) (int (length (log_bytes es))) = Inl e \<and>
     (e = EOF \<or> e = ErrLogEndOfFile)"
proof (cases "length (log_bytes es) + MaxHeaderSize \<le> length (file_image mx es)")
  case True
  then have "min MaxHeaderSize (nat mx - length (log_bytes es)) = MaxHeaderSize"
    by (simp add: length_file_image max_def MaxHeaderSize_def split: if_splits)
  then have "sub (file_image mx es) (length (log_bytes es)) MaxHeaderSize = replicate MaxHeaderSize 0"
    by (simp only: file_image_def sub_Cons_append take_replicate)
  then show ?thesis using fileio.read_zeros [of "length (log_bytes es)"] True by simp
next
  case False
  then show ?thesis using fileio.read_short [of "length (log_bytes es)"] by (simp add: MaxHeaderSize_def)
qed

text \<open>The bytes of a file determine its entries, as far as reading can tell.\<close>

lemma image_unique_from:
  assumes "file_image mx (p @ es) = file_image mx (p' @ es')" "length (log_bytes p) = length (log_bytes p')"
    "file_ok mx (p @ es)" "file_ok mx (p' @ es')"
  shows "map stored es = map stored es' \<and> map entry_size es = map entry_size es'"
  using assms
proof (induction es arbitrary: p p' es')
  case Nil
  obtain e where "ReadLogEntry_from (FileIO_Read (file_image mx p)) (int (length (log_bytes p))) = Inl e" using scan_end by blast
  then have "es' = []" using scan_entry [of mx p'] Nil by (cases es') auto
  then show ?case by simp
next
  case (Cons le es)
  note r = scan_entry [OF Cons.prems(3)]
  obtain e where "ReadLogEntry_from (FileIO_Read (file_image mx p')) (int (length (log_bytes p'))) = Inl e" using scan_end by blast
  then obtain le' es1 where es': "es' = le' # es1" using r Cons.prems(1,2) by (cases es') auto
  have e: "stored le = stored le'" "entry_size le = entry_size le'"
    using r scan_entry [of mx p' le' es1] Cons.prems by (simp_all add: es')
  then show ?case using Cons.IH [of "p @ [le]" "p' @ [le']" es1] Cons.prems by (simp add: es')
qed

lemma positions_offsets:
  "map entry_size es = map entry_size es' \<Longrightarrow> (fst \<circ> snd) ` set (positions f off es) = (fst \<circ> snd) ` set (positions f off es')"
proof (induction es arbitrary: off es')
  case (Cons le es)
  then obtain le' es1 where "es' = le' # es1" "entry_size le = entry_size le'" "map entry_size es = map entry_size es1"
    by (cases es') auto
  then show ?case using Cons.IH [of es1 "off + int (entry_size le)"] by simp
qed simp

lemma image_unique:
  assumes "file_image mx es = file_image mx es'" "file_ok mx es" "file_ok mx es'"
  shows "(fst \<circ> snd) ` set (positions f off es) = (fst \<circ> snd) ` set (positions f off es')"
  using image_unique_from [of mx "[]" es "[]" es'] assms by (intro positions_offsets) simp

text \<open>Progress, for any file contents and any controller.\<close>

lemma ReadLogEntry_progress:
  assumes "ReadLogEntry_from rd offset = Inr (le, n)"
  shows "0 < n" "\<exists>b. rd MaxHeaderSize offset = Inr b"
proof -
  obtain b where b: "rd MaxHeaderSize offset = Inr b"
    using assms by (cases "rd MaxHeaderSize offset") (auto simp: ReadLogEntry_from_def)
  then show "\<exists>b. rd MaxHeaderSize offset = Inr b" by blast
  obtain le0 sz where h: "decodeHeader b = Inr (Some le0, sz)"
    using assms b by (auto simp: ReadLogEntry_from_def split: sum.splits option.splits)
  let ?k = "unat (kSize le0)" and ?v = "unat (vSize le0)"
  have r: "\<not> (crc le0 = 0 \<and> kSize le0 = 0 \<and> vSize le0 = 0)" "n = sz + int ?k + int ?v" "0 \<le> sz"
    and c: "0 < ?k \<or> 0 < ?v \<or> getEntryCrc (take (nat sz) b) (Some le0) = crc le0"
    using assms b h by (auto simp: ReadLogEntry_from_def Let_def simp del: of_nat_unat split: sum.splits if_splits)
  show "0 < n"
  proof (rule ccontr)
    assume "\<not> 0 < n"
    then have z: "sz = 0" "?k = 0" "?v = 0" using r(2,3) by linarith+
    then have "getEntryCrc (take (nat sz) b) (Some le0) = 0" by (simp add: getEntryCrc_def)
    then show False using c r(1) z by (simp add: unat_eq_zero)
  qed
qed

end
