(* ===== verification/DB_Store.thy ===== *)
theory DB_Store
  imports Log_Image Concurrent_Map Discard
begin

text \<open>
  The log path of \<open>db.go\<close>: the active and archived log files of each value type, reading an
  entry at a position and appending one, with the switch to a new file when the active one
  is full.

  \<open>Store\<close> holds the fields of the struct \<open>LazyDB\<close> that this path uses, the configuration
  and the files of the database directory; the index trees are in the theories above. The
  three maps that \<open>Close\<close> sets to nil are options. Offsets and sizes are unbounded integers.

  \<open>base_inv\<close> is the invariant of the log path. \<open>located st vt fid off le\<close> says that the
  entry \<open>le\<close> stands at that position of that log file; \<open>store_le\<close> that a step keeps every
  such position. The main results are that appending an entry puts it at the position
  returned, keeps all others, and that reading there gives the entry back.
\<close>

subsection \<open>State\<close>

record DBConfig =
  DBPath :: bytes
  HashIndexShardCount :: int
  MaxLogFileSize :: int
  LogFileMergeInterval :: int
  IOType :: byte
  DiscardBufferSize :: nat
  LogFileGCRatio :: rat

definition DefaultDBConfig :: "bytes \<Rightarrow> DBConfig" where
  "DefaultDBConfig path =
     \<lparr>DBPath = path, HashIndexShardCount = DefaultShardCount, MaxLogFileSize = 512 * 2 ^ 20,
      LogFileMergeInterval = 8 * 3600 * 10 ^ 9, IOType = FileIO, DiscardBufferSize = 8 * 2 ^ 20,
      LogFileGCRatio = 1/2\<rparr>"

record ValuePos =
  vp_fid :: u32
  vp_offset :: int
  vp_entrySize :: int

record Store =
  cfg :: DBConfig
  files :: fs
  discardsMap :: "valueType \<Rightarrow> discard"
  fidsMap :: "(valueType \<Rightarrow> u32 list) option"
  activeLogFileMap :: "(valueType \<Rightarrow> LogFile option) option"
  archivedLogFile :: "(valueType \<Rightarrow> (u32, LogFile) ConcurrentMap) option"

text \<open>\<open>logfile.FType(typ)\<close>: both enumerations count from zero in the same order.\<close>

fun FType :: "valueType \<Rightarrow> byte" where
  "FType valueTypeString = 0"
| "FType valueTypeList = 1"
| "FType valueTypeHash = 2"
| "FType valueTypeSet = 3"
| "FType valueTypeZSet = 4"

definition IsClosed :: "Store \<Rightarrow> bool" where
  "IsClosed st \<longleftrightarrow> fidsMap st = None \<and> activeLogFileMap st = None \<and> archivedLogFile st = None"

text \<open>Looking a type up in a map that may be nil, and \<open>d.setTotal\<close> on the table of a type.\<close>

definition active :: "Store \<Rightarrow> valueType \<Rightarrow> LogFile option" where
  "active st vt = (case activeLogFileMap st of None \<Rightarrow> None | Some m \<Rightarrow> m vt)"

definition st_setTotal :: "valueType \<Rightarrow> u32 \<Rightarrow> Store \<Rightarrow> unit result \<times> Store" where
  "st_setTotal vt f st =
     (case setTotal (discardsMap st vt) f (word_of_int (MaxLogFileSize (cfg st))) of
        (r, d) \<Rightarrow> (r, st\<lparr>discardsMap := (discardsMap st)(vt := d)\<rparr>))"

subsection \<open>Operations\<close>

text \<open>An error while the first log file of a type is created ends the process.\<close>

definition getActiveLogFile :: "valueType \<Rightarrow> Store \<Rightarrow> LogFile result \<times> Store" where
  "getActiveLogFile vt st =
     (case active st vt of
        Some lf \<Rightarrow> (Inr lf, st)
      | None \<Rightarrow>
          (case Open_LogFile 1 (MaxLogFileSize (cfg st)) (FType vt) (IOType (cfg st)) (files st) of
             Inl e \<Rightarrow> (Inl Fatal, st)
           | Inr (lf, fs') \<Rightarrow>
               (case activeLogFileMap st of
                  None \<Rightarrow> (Inl Panic, st\<lparr>files := fs'\<rparr>)
                | Some am \<Rightarrow>
                    (let st1 = st\<lparr>files := fs', activeLogFileMap := Some (am(vt \<mapsto> lf))\<rparr>
                     in case fidsMap st of
                          None \<Rightarrow> (Inl Panic, st1)
                        | Some fm \<Rightarrow>
                            (let st2 = st1\<lparr>fidsMap := Some (fm(vt := fm vt @ [Fid lf]))\<rparr>
                             in case st_setTotal vt (Fid lf) st2 of
                                  (Inl e, st3) \<Rightarrow> (Inl e, st3)
                                | (Inr _, st3) \<Rightarrow> (Inr lf, st3))))))"

definition getArchivedLogFile :: "valueType \<Rightarrow> u32 \<Rightarrow> Store \<Rightarrow> LogFile option result" where
  "getArchivedLogFile vt f st =
     (case archivedLogFile st of None \<Rightarrow> Inl Panic | Some ar \<Rightarrow> cm_Get (ar vt) f)"

definition readLogEntry :: "valueType \<Rightarrow> u32 \<Rightarrow> int \<Rightarrow> Store \<Rightarrow> LogEntry result" where
  "readLogEntry vt f off st =
     (case active st vt of
        None \<Rightarrow> Inl Panic
      | Some alf \<Rightarrow>
          (case (if Fid alf \<noteq> f
                 then (case getArchivedLogFile vt f st of
                         Inl e \<Rightarrow> Inl e
                       | Inr None \<Rightarrow> Inl ErrLogFileNotExist
                       | Inr (Some lf) \<Rightarrow> Inr lf)
                 else Inr alf) of
             Inl e \<Rightarrow> Inl e
           | Inr lf \<Rightarrow> map_sum id fst (ReadLogEntry lf (files st) off)))"

text \<open>
  The branch of \<open>writeLogEntry\<close> for a full file: the active file becomes an archived one
  and the next file id is opened.
\<close>

definition rotate :: "valueType \<Rightarrow> LogFile \<Rightarrow> Store \<Rightarrow> LogFile result \<times> Store" where
  "rotate vt lf st =
     (case LogFile_Sync lf (files st) of
        Inl e \<Rightarrow> (Inl e, st)
      | Inr _ \<Rightarrow>
          (let newFid = Fid lf + 1
           in case Open_LogFile newFid (MaxLogFileSize (cfg st)) (FType vt) (IOType (cfg st)) (files st) of
                Inl e \<Rightarrow> (Inl e, st)
              | Inr (newLF, fs') \<Rightarrow>
                  (let st1 = st\<lparr>files := fs'\<rparr>
                   in case archivedLogFile st of
                        None \<Rightarrow> (Inl Panic, st1)
                      | Some ar \<Rightarrow>
                          (case cm_Set (ar vt) (Fid lf) lf of
                             Inl e \<Rightarrow> (Inl e, st1)
                           | Inr cm' \<Rightarrow>
                               (let st2 = st1\<lparr>archivedLogFile := Some (ar(vt := cm'))\<rparr>
                                in case fidsMap st of
                                     None \<Rightarrow> (Inl Panic, st2)
                                   | Some fm \<Rightarrow>
                                       (let st3 = st2\<lparr>fidsMap := Some (fm(vt := fm vt @ [newFid]))\<rparr>
                                        in case st_setTotal vt newFid st3 of
                                             (Inl e, st4) \<Rightarrow> (Inl e, st4)
                                           | (Inr _, st4) \<Rightarrow>
                                               (Inr newLF, st4\<lparr>activeLogFileMap :=
                                                  map_option (\<lambda>am. am(vt \<mapsto> newLF)) (activeLogFileMap st4)\<rparr>)))))))"

definition writeLogEntry :: "valueType \<Rightarrow> LogEntry \<Rightarrow> Store \<Rightarrow> ValuePos result \<times> Store" where
  "writeLogEntry vt entry st =
     (case getActiveLogFile vt st of
        (Inl e, st1) \<Rightarrow> (Inl e, st1)
      | (Inr lf, st1) \<Rightarrow>
          (case EncodeEntry (Some entry) of
             Inl e \<Rightarrow> (Inl e, st1)
           | Inr (entBuf, entSize) \<Rightarrow>
               (case (if Offset lf + int entSize > MaxLogFileSize (cfg st1)
                      then rotate vt lf st1 else (Inr lf, st1)) of
                  (Inl e, st2) \<Rightarrow> (Inl e, st2)
                | (Inr lf2, st2) \<Rightarrow>
                    (case LogFile_Write lf2 entBuf (files st2) of
                       (r, lf3, fs3) \<Rightarrow>
                         (let st3 = st2\<lparr>files := fs3, activeLogFileMap :=
                                map_option (\<lambda>am. am(vt \<mapsto> lf3)) (activeLogFileMap st2)\<rparr>
                          in case r of
                               Inl e \<Rightarrow> (Inl e, st3)
                             | Inr _ \<Rightarrow>
                                 (Inr \<lparr>vp_fid = Fid lf3, vp_offset = Offset lf2, vp_entrySize = int entSize\<rparr>, st3))))))"

text \<open>\<open>db.discardsMap[typ].valChan <- node\<close> with a default branch that ends the process.\<close>

definition st_send :: "valueType \<Rightarrow> Value_t \<Rightarrow> Store \<Rightarrow> unit result \<times> Store" where
  "st_send vt node st =
     (case chan_send (discardsMap st vt) node of
        (r, d) \<Rightarrow> (r, st\<lparr>discardsMap := (discardsMap st)(vt := d)\<rparr>))"

definition sendDiscard :: "Value_t option \<Rightarrow> bool \<Rightarrow> valueType \<Rightarrow> Store \<Rightarrow> unit result \<times> Store" where
  "sendDiscard oldVal updated vt st =
     (if \<not> updated then (Inr (), st)
      else case oldVal of
             None \<Rightarrow> (Inr (), st)
           | Some node \<Rightarrow> if v_entrySize node = 0 then (Inr (), st) else st_send vt node st)"

subsection \<open>Invariant\<close>

definition archived :: "Store \<Rightarrow> valueType \<Rightarrow> u32 \<Rightarrow> LogFile option" where
  "archived st vt f = (case archivedLogFile st of None \<Rightarrow> None | Some ar \<Rightarrow> cm_view (ar vt) f)"

definition contents :: "fs \<Rightarrow> valueType \<Rightarrow> u32 \<Rightarrow> bytes option" where
  "contents d vt f = d (log_name (FType vt) f)"

text \<open>A log file object that stands for the file of its type and id.\<close>

definition lf_ok :: "int \<Rightarrow> fs \<Rightarrow> valueType \<Rightarrow> LogFile \<Rightarrow> bool" where
  "lf_ok mx d vt lf \<longleftrightarrow> IoController lf = FileIOController (log_name (FType vt) (Fid lf)) \<and>
     (\<exists>c. contents d vt (Fid lf) = Some c \<and> mx \<le> int (length c)) \<and> 0 \<le> Offset lf"

text \<open>
  The files of one type: no file without an active one, archived files have smaller ids,
  and no file of the directory has a larger id.
\<close>

definition type_inv ::
    "int \<Rightarrow> fs \<Rightarrow> valueType \<Rightarrow> LogFile option \<Rightarrow> (u32 \<Rightarrow> LogFile option) \<Rightarrow> bool" where
  "type_inv mx d vt act arch \<longleftrightarrow>
     (case act of
        None \<Rightarrow> \<forall>f. arch f = None \<and> contents d vt f = None
      | Some lf \<Rightarrow> lf_ok mx d vt lf \<and>
          (\<forall>f a. arch f = Some a \<longrightarrow> f < Fid lf \<and> Fid a = f \<and> lf_ok mx d vt a) \<and>
          (\<forall>f. Fid lf < f \<longrightarrow> contents d vt f = None))"

definition is_open :: "Store \<Rightarrow> bool" where
  "is_open st \<longleftrightarrow> fidsMap st \<noteq> None \<and> activeLogFileMap st \<noteq> None \<and>
     (\<exists>ar. archivedLogFile st = Some ar \<and> (\<forall>vt. cm_wf (ar vt)))"

definition base_inv :: "Store \<Rightarrow> bool" where
  "base_inv st \<longleftrightarrow> is_open st \<and> 0 < MaxLogFileSize (cfg st) \<and> IOType (cfg st) = FileIO \<and>
     (\<forall>vt. discard_ok (discardsMap st vt) \<and>
        type_inv (MaxLogFileSize (cfg st)) (files st) vt (active st vt) (archived st vt))"

text \<open>The log file object that reads go to.\<close>

definition handle :: "Store \<Rightarrow> valueType \<Rightarrow> u32 \<Rightarrow> LogFile option" where
  "handle st vt f =
     (case active st vt of
        None \<Rightarrow> None
      | Some lf \<Rightarrow> if Fid lf = f then Some lf else archived st vt f)"

definition located :: "Store \<Rightarrow> valueType \<Rightarrow> u32 \<Rightarrow> int \<Rightarrow> LogEntry \<Rightarrow> bool" where
  "located st vt f off le \<longleftrightarrow> 0 \<le> off \<and> encodable le \<and>
     (\<exists>lf c. handle st vt f = Some lf \<and> contents (files st) vt f = Some c \<and> entry_at c (nat off) le \<and>
        (active st vt = Some lf \<longrightarrow> off + int (entry_size le) \<le> Offset lf))"

text \<open>
  \<open>ReadLogEntry\<close> always reads a header of 25 bytes, so an entry in the last 24 bytes of a
  file is not readable even though it is there.
\<close>

definition readable :: "Store \<Rightarrow> valueType \<Rightarrow> u32 \<Rightarrow> int \<Rightarrow> bool" where
  "readable st vt f off \<longleftrightarrow>
     (\<exists>c. contents (files st) vt f = Some c \<and> off + int MaxHeaderSize \<le> int (length c))"

text \<open>
  The discard table of the type has a record for every log file, and so for the file of every
  message in its channel. Files whose size is a multiple of \<open>2 ^ 32\<close> get no record.
\<close>

definition tracked :: "Store \<Rightarrow> valueType \<Rightarrow> bool" where
  "tracked st vt \<longleftrightarrow> (word_of_int (MaxLogFileSize (cfg st)) :: u32) \<noteq> 0 \<and>
     (\<forall>f. contents (files st) vt f \<noteq> None \<longrightarrow> f \<in> dom (location (discardsMap st vt))) \<and>
     v_fid ` set (valChan (discardsMap st vt)) \<subseteq> dom (location (discardsMap st vt))"

definition store_le :: "Store \<Rightarrow> Store \<Rightarrow> bool" where
  "store_le st st' \<longleftrightarrow> cfg st' = cfg st \<and> (\<forall>vt. same_chan (discardsMap st vt) (discardsMap st' vt)) \<and>
     (\<forall>vt f off le. located st vt f off le \<longrightarrow> located st' vt f off le) \<and>
     (\<forall>vt f off. readable st vt f off \<longrightarrow> readable st' vt f off) \<and> (\<forall>vt. tracked st vt \<longrightarrow> tracked st' vt)"

text \<open>
  \<open>logged st vt L\<close>: the files of a type, in ascending order of their ids, hold exactly the
  entries in \<open>L\<close>, and the last of them is the active one. \<open>log_view\<close> is the whole log of a type
  as one sequence of entries with their positions.
\<close>

definition logged :: "Store \<Rightarrow> valueType \<Rightarrow> (u32 \<times> LogEntry list) list \<Rightarrow> bool" where
  "logged st vt L \<longleftrightarrow>
     (\<forall>x \<in> set L. file_ok (MaxLogFileSize (cfg st)) (snd x)) \<and> sorted_wrt (<) (map fst L) \<and>
     (\<forall>f. contents (files st) vt f = map_option (file_image (MaxLogFileSize (cfg st))) (map_of L f)) \<and>
     (\<forall>f. archived st vt f = None \<longleftrightarrow> f \<notin> fst ` set (butlast L)) \<and>
     (case active st vt of
        None \<Rightarrow> L = []
      | Some lf \<Rightarrow> \<exists>L0 es. L = L0 @ [(Fid lf, es)] \<and> Offset lf = int (length (log_bytes es)))"

definition log_seq :: "(u32 \<times> LogEntry list) list \<Rightarrow> (u32 \<times> int \<times> LogEntry) list" where
  "log_seq L = concat (map (\<lambda>(f, es). positions f 0 es) L)"

definition log_view :: "Store \<Rightarrow> valueType \<Rightarrow> (u32 \<times> int \<times> LogEntry) list \<Rightarrow> bool" where
  "log_view st vt ls \<longleftrightarrow> (\<exists>L. logged st vt L \<and> ls = log_seq L)"

text \<open>A step that touches only the active files and the discard table of one type.\<close>

definition others_same :: "valueType \<Rightarrow> Store \<Rightarrow> Store \<Rightarrow> bool" where
  "others_same vt st st' \<longleftrightarrow> cfg st' = cfg st \<and>
     (\<forall>t. t \<noteq> vt \<longrightarrow> active st' t = active st t \<and> archived st' t = archived st t \<and> discardsMap st' t = discardsMap st t \<and>
        (\<forall>f. contents (files st') t f = contents (files st) t f)) \<and>
     (\<forall>f a. archived st vt f = Some a \<longrightarrow> archived st' vt f = Some a \<and> contents (files st') vt f = contents (files st) vt f)"

lemma others_same_refl [simp]: "others_same vt st st"
  by (simp add: others_same_def)

lemma others_same_trans: "others_same vt a b \<Longrightarrow> others_same vt b c \<Longrightarrow> others_same vt a c"
  by (simp add: others_same_def)

lemma logged_other: "others_same vt st st' \<Longrightarrow> t \<noteq> vt \<Longrightarrow> logged st' t L = logged st t L"
  by (simp add: others_same_def logged_def)

lemma log_view_other: "others_same vt st st' \<Longrightarrow> t \<noteq> vt \<Longrightarrow> log_view st' t ls = log_view st t ls"
  by (simp add: log_view_def logged_other)

lemma log_seq_simps [simp]:
  "log_seq [] = []" "log_seq (x # L) = positions (fst x) 0 (snd x) @ log_seq L" "log_seq (L @ L') = log_seq L @ log_seq L'"
  by (simp_all add: log_seq_def case_prod_beta)

lemma logged_new:
  assumes "active st vt = None" "type_inv mx (files st) vt None (archived st vt)"
  shows "logged st vt []"
  using assms by (simp add: logged_def type_inv_def)

lemma logged_active:
  assumes "logged st vt L" "active st vt = Some lf"
  obtains L0 es where "L = L0 @ [(Fid lf, es)]" "Offset lf = int (length (log_bytes es))" "map_of L0 (Fid lf) = None"
proof -
  obtain L0 es where L: "L = L0 @ [(Fid lf, es)]" "Offset lf = int (length (log_bytes es))"
    using assms by (auto simp: logged_def)
  moreover have "map_of L0 (Fid lf) = None"
    using assms(1) L(1) by (auto simp: logged_def sorted_wrt_append map_of_eq_None_iff)
  ultimately show thesis by (rule that)
qed

lemma same_chan_refl [simp]: "same_chan d d"
  by (simp add: same_chan_def)

lemma same_chan_trans: "same_chan a b \<Longrightarrow> same_chan b c \<Longrightarrow> same_chan a c"
  by (simp add: same_chan_def)

lemma store_le_refl [simp]: "store_le st st"
  by (simp add: store_le_def)

lemma store_le_trans: "store_le a b \<Longrightarrow> store_le b c \<Longrightarrow> store_le a c"
  unfolding store_le_def by (metis same_chan_trans)

lemma FType_inj [simp]: "FType t = FType t' \<longleftrightarrow> t = t'"
  by (cases t; cases t') simp_all

lemma FType_known [simp]: "FileNamesMap (FType t) \<noteq> None"
  by (cases t) (simp_all add: FileNamesMap_def)

lemma contents_upd [simp]:
  "contents (d(log_name (FType vt) f := x)) vt' f' = (if vt = vt' \<and> f = f' then x else contents d vt' f')"
  by (auto simp: contents_def log_name_inj)

lemma type_inv_frame:
  "(\<And>f. contents d' vt f = contents d vt f) \<Longrightarrow> type_inv mx d' vt act arch = type_inv mx d vt act arch"
  by (simp add: type_inv_def lf_ok_def split: option.split)

subsection \<open>Reading back\<close>

lemma handle_ok:
  assumes "base_inv st" "handle st vt f = Some lf"
  shows "lf_ok (MaxLogFileSize (cfg st)) (files st) vt lf \<and> Fid lf = f"
proof -
  have "type_inv (MaxLogFileSize (cfg st)) (files st) vt (active st vt) (archived st vt)"
    using assms(1) by (simp add: base_inv_def)
  with assms(2) show ?thesis
    by (auto simp: type_inv_def handle_def split: option.splits if_splits)
qed

lemma readLogEntry_handle:
  assumes "base_inv st" "handle st vt f = Some lf" "contents (files st) vt f = Some c"
  shows "readLogEntry vt f off st = map_sum id fst (ReadLogEntry_from (FileIO_Read c) off)"
proof -
  obtain ar where ar: "archivedLogFile st = Some ar" "cm_wf (ar vt)"
    using assms(1) by (auto simp: base_inv_def is_open_def)
  have "IoController lf = FileIOController (log_name (FType vt) f)" "Fid lf = f"
    using handle_ok [OF assms(1,2)] by (auto simp: lf_ok_def)
  then have "IO_Read (IoController lf) (files st) = FileIO_Read c"
    using assms(3) by (simp add: IO_Read_def contents_def fun_eq_iff)
  with ar assms(2) show ?thesis
    by (auto simp: readLogEntry_def handle_def getArchivedLogFile_def cm.get_view archived_def ReadLogEntry_def
        split: option.splits if_splits)
qed

lemma readLogEntry_located:
  assumes "base_inv st" "located st vt f off le"
  shows "readLogEntry vt f off st = (if readable st vt f off then Inr (stored le) else Inl EOF)"
proof -
  obtain lf c where h: "handle st vt f = Some lf" and c: "contents (files st) vt f = Some c"
    and at: "entry_at c (nat off) le" and e: "encodable le" and off: "0 \<le> off"
    using assms(2) by (auto simp: located_def)
  have rd: "readLogEntry vt f off st = map_sum id fst (ReadLogEntry_from (FileIO_Read c) (int (nat off)))"
    using readLogEntry_handle [OF assms(1) h c, of off] off by simp
  have r: "readable st vt f off \<longleftrightarrow> nat off + MaxHeaderSize \<le> length c"
    using off by (auto simp: readable_def c)
  show ?thesis
  proof (cases "readable st vt f off")
    case True
    have "nat off + header_size le + (length (Key le) + length (bs (Value le))) \<le> length c"
      using entry_at_bound [OF at] by (simp add: entry_size_def)
    then show ?thesis using True r fileio.read_entry [OF e at] by (simp add: rd)
  next
    case False
    then show ?thesis using r fileio.read_short [of "nat off" c] by (simp add: rd MaxHeaderSize_def)
  qed
qed

text \<open>Every entry of the log is where the log says, and can be read.\<close>

lemma logged_located:
  assumes inv: "base_inv st" and L: "logged st vt L" and x: "(f, off, le) \<in> set (log_seq L)"
  shows "located st vt f off le" "readable st vt f off"
proof -
  let ?mx = "MaxLogFileSize (cfg st)"
  obtain g es where "(g, es) \<in> set L" "(f, off, le) \<in> set (positions g 0 es)"
    using x by (auto simp: log_seq_def)
  moreover from this(2) have "f = g" by (auto dest: positions_fid)
  ultimately have es: "(f, es) \<in> set L" and p: "(f, off, le) \<in> set (positions f (int 0) es)" by simp_all
  obtain es1 es2 where e: "es = es1 @ le # es2" and o: "off = int (length (log_bytes es1))"
    using positions_at [OF p] by auto
  have srt: "sorted_wrt (<) (map fst L)" and ok: "file_ok ?mx es" using L es by (auto simp: logged_def)
  then have m: "map_of L f = Some es" using es by (simp add: strict_sorted_iff)
  then have c: "contents (files st) vt f = Some (file_image ?mx es)" using L by (simp add: logged_def)
  have ok': "file_ok ?mx (es1 @ le # es2)" using ok e by simp
  show "readable st vt f off" using c file_ok_at(2) [OF ok'] by (simp add: readable_def e o)
  obtain lf where act: "active st vt = Some lf" using L es by (cases "active st vt") (auto simp: logged_def)
  obtain L0 es0 where L0: "L = L0 @ [(Fid lf, es0)]" "Offset lf = int (length (log_bytes es0))" "map_of L0 (Fid lf) = None"
    using logged_active [OF L act] by metis
  have "\<exists>h. handle st vt f = Some h \<and> (active st vt = Some h \<longrightarrow> off + int (entry_size le) \<le> Offset h)"
  proof (cases "f = Fid lf")
    case True
    then have "es0 = es1 @ le # es2" using m L0 e by (simp add: map_add_def)
    then show ?thesis using True act L0(2) o by (simp add: handle_def)
  next
    case False
    then have "f \<in> fst ` set (butlast L)" using es L0(1) by force
    then obtain h where h: "archived st vt f = Some h" using L by (auto simp: logged_def)
    then have "handle st vt f = Some h" using act False by (simp add: handle_def)
    moreover have "Fid h = f" using handle_ok [OF inv calculation] by simp
    ultimately show ?thesis using act False by auto
  qed
  moreover have "entry_at (file_image ?mx es) (nat off) le" using entry_at_image [of ?mx es1 le es2] by (simp add: e o)
  ultimately show "located st vt f off le"
    using c file_ok_at(1) [OF ok'] o by (auto simp: located_def)
qed

subsection \<open>Creating and switching log files\<close>

lemma Open_LogFile_FileIO:
  assumes "0 < mx" "contents d vt f = None"
  shows "Open_LogFile f mx (FType vt) FileIO d =
    Inr (\<lparr>Fid = f, Offset = 0, IoController = FileIOController (log_name (FType vt) f)\<rparr>,
      d(log_name (FType vt) f \<mapsto> replicate (nat mx) 0))"
proof -
  have "openFile (log_name (FType vt) f) mx d = d(log_name (FType vt) f \<mapsto> replicate (nat mx) 0)"
    using assms by (simp add: openFile_def contents_def)
  then show ?thesis
    using assms(1) by (simp add: Open_LogFile_def NewFileIOController_def Let_def)
qed

lemma setTotal_ok:
  assumes wf: "discard_ok d" and room: "freeList d \<noteq> []"
  shows "\<exists>d'. setTotal d f tot = (Inr (), d') \<and> discard_ok d' \<and> same_chan d d'
    \<and> length (freeList d) \<le> Suc (length (freeList d'))
    \<and> (f \<noteq> 0 \<and> tot \<noteq> 0 \<longrightarrow> dom (location d') = insert f (dom (location d)))"
proof (cases "f = 0 \<or> tot = 0 \<or> location d f \<noteq> None")
  case True
  then show ?thesis using wf by (auto simp: setTotal_def)
next
  case False
  then obtain d' where d: "setTotal d f tot = (Inr (), d')" "discard_ok d'" "same_chan d d'"
    "length (freeList d') = length (freeList d) - 1" "disc_tab d' = (disc_tab d)(f \<mapsto> (tot, 0))"
    using setTotal_tab [OF _ _ room, of f tot] wf unfolding discard_ok_def by blast
  have "dom (location x) = dom (disc_tab x)" for x by (auto simp: disc_tab_def)
  then show ?thesis using d by auto
qed

lemma st_setTotal_ok:
  assumes "discard_ok (discardsMap st vt)" "freeList (discardsMap st vt) \<noteq> []"
  obtains d where "st_setTotal vt f st = (Inr (), st\<lparr>discardsMap := (discardsMap st)(vt := d)\<rparr>)"
    "discard_ok d" "same_chan (discardsMap st vt) d"
    "length (freeList (discardsMap st vt)) \<le> Suc (length (freeList d))"
    "f \<noteq> 0 \<Longrightarrow> (word_of_int (MaxLogFileSize (cfg st)) :: u32) \<noteq> 0 \<Longrightarrow>
       dom (location d) = insert f (dom (location (discardsMap st vt)))"
proof -
  let ?tot = "word_of_int (MaxLogFileSize (cfg st)) :: u32"
  obtain d where "setTotal (discardsMap st vt) f ?tot = (Inr (), d)" "discard_ok d" "same_chan (discardsMap st vt) d"
    "length (freeList (discardsMap st vt)) \<le> Suc (length (freeList d))"
    "f \<noteq> 0 \<and> ?tot \<noteq> 0 \<longrightarrow> dom (location d) = insert f (dom (location (discardsMap st vt)))"
    using setTotal_ok [OF assms] by blast
  then show thesis using that [of d] by (simp add: st_setTotal_def)
qed

lemma word_le_succ: "(x :: u32) + 1 \<noteq> 0 \<Longrightarrow> f < x + 1 \<longleftrightarrow> f \<le> x"
  using unatSuc [of x] by (simp add: add.commute word_less_nat_alt word_le_nat_alt less_Suc_eq_le)

lemma store_leI:
  assumes "cfg st' = cfg st" "\<And>vt. same_chan (discardsMap st vt) (discardsMap st' vt)"
    and "\<And>vt f lf. handle st vt f = Some lf \<Longrightarrow> \<exists>lf'. handle st' vt f = Some lf' \<and>
      (active st' vt = Some lf' \<longrightarrow> active st vt = Some lf \<and> Offset lf \<le> Offset lf')"
    and "\<And>vt f c. contents (files st) vt f = Some c \<Longrightarrow> \<exists>c'. contents (files st') vt f = Some c' \<and>
      length c \<le> length c' \<and>
      (\<forall>lf off le. handle st vt f = Some lf \<and> entry_at c off le \<and>
         (active st vt = Some lf \<longrightarrow> int off + int (entry_size le) \<le> Offset lf) \<longrightarrow> entry_at c' off le)"
    and "\<And>vt. tracked st vt \<Longrightarrow> tracked st' vt"
  shows "store_le st st'"
proof -
  have "located st' vt f off le" if l: "located st vt f off le" for vt f off le
  proof -
    obtain lf c where lc: "0 \<le> off" "encodable le" "handle st vt f = Some lf"
      "contents (files st) vt f = Some c" "entry_at c (nat off) le"
      "active st vt = Some lf \<longrightarrow> off + int (entry_size le) \<le> Offset lf"
      using l by (auto simp: located_def)
    obtain lf' where lf': "handle st' vt f = Some lf'"
      "active st' vt = Some lf' \<longrightarrow> active st vt = Some lf \<and> Offset lf \<le> Offset lf'"
      using assms(3) [OF lc(3)] by auto
    obtain c' where "contents (files st') vt f = Some c'" "entry_at c' (nat off) le"
      using assms(4) [OF lc(4)] lc by auto
    with lf' lc show ?thesis unfolding located_def by fastforce
  qed
  moreover have "readable st' vt f off" if "readable st vt f off" for vt f off
    using that assms(4) [of vt f] by (fastforce simp: readable_def)
  ultimately show ?thesis unfolding store_le_def using assms(1,2,5) by blast
qed

lemma base_invD:
  assumes "base_inv st"
  obtains fm am ar where "fidsMap st = Some fm" "activeLogFileMap st = Some am" "archivedLogFile st = Some ar"
    "\<And>vt. cm_wf (ar vt)" "\<And>vt. active st vt = am vt" "\<And>vt. archived st vt = cm_view (ar vt)"
    "0 < MaxLogFileSize (cfg st)" "IOType (cfg st) = FileIO" "\<And>vt. discard_ok (discardsMap st vt)"
    "\<And>vt. type_inv (MaxLogFileSize (cfg st)) (files st) vt (am vt) (cm_view (ar vt))"
proof -
  obtain fm am ar where o: "fidsMap st = Some fm" "activeLogFileMap st = Some am" "archivedLogFile st = Some ar"
    and cm: "\<And>vt. cm_wf (ar vt)"
    using assms by (auto simp: base_inv_def is_open_def)
  moreover have "active st vt = am vt" "archived st vt = cm_view (ar vt)" for vt
    by (auto simp: active_def archived_def o fun_eq_iff)
  ultimately show thesis
    using assms by (intro that [of fm am ar]) (auto simp: base_inv_def)
qed

lemma base_inv_upd:
  assumes "base_inv st" "is_open st'" "cfg st' = cfg st"
    and "\<And>t. t \<noteq> vt \<Longrightarrow> active st' t = active st t \<and> archived st' t = archived st t \<and>
      discardsMap st' t = discardsMap st t"
    and "\<And>t f. t \<noteq> vt \<Longrightarrow> contents (files st') t f = contents (files st) t f"
    and "discard_ok (discardsMap st' vt)"
    and "type_inv (MaxLogFileSize (cfg st)) (files st') vt (active st' vt) (archived st' vt)"
  shows "base_inv st'"
proof -
  have "discard_ok (discardsMap st' t) \<and>
      type_inv (MaxLogFileSize (cfg st)) (files st') t (active st' t) (archived st' t)" for t
  proof (cases "t = vt")
    case False
    then show ?thesis
      using assms(1,4) type_inv_frame [of "files st'" t "files st"] assms(5) by (simp add: base_inv_def)
  qed (use assms in auto)
  then show ?thesis using assms(1-3) by (simp add: base_inv_def)
qed

text \<open>
  When the log can take an entry of \<open>n\<close> bytes: the record table of the type has room for the
  files that the write may create, and the file ids do not wrap. \<open>write_pos\<close> is where the
  entry goes and \<open>fits\<close> that it is readable there.
\<close>

definition can_write :: "Store \<Rightarrow> valueType \<Rightarrow> nat \<Rightarrow> bool" where
  "can_write st vt n \<longleftrightarrow>
     (case active st vt of
        None \<Rightarrow> 2 \<le> length (freeList (discardsMap st vt))
      | Some lf \<Rightarrow> Offset lf + int n \<le> MaxLogFileSize (cfg st) \<or>
          (Fid lf + 1 \<noteq> 0 \<and> freeList (discardsMap st vt) \<noteq> []))"

definition write_pos :: "Store \<Rightarrow> valueType \<Rightarrow> nat \<Rightarrow> int" where
  "write_pos st vt n =
     (case active st vt of
        None \<Rightarrow> 0
      | Some lf \<Rightarrow> if Offset lf + int n > MaxLogFileSize (cfg st) then 0 else Offset lf)"

definition fits :: "Store \<Rightarrow> valueType \<Rightarrow> nat \<Rightarrow> bool" where
  "fits st vt n \<longleftrightarrow> MaxHeaderSize \<le> n \<or> write_pos st vt n + int MaxHeaderSize \<le> MaxLogFileSize (cfg st)"

text \<open>The log can take \<open>n\<close> entries of any size.\<close>

definition capacity :: "Store \<Rightarrow> valueType \<Rightarrow> nat \<Rightarrow> bool" where
  "capacity st vt n \<longleftrightarrow>
     (case active st vt of
        None \<Rightarrow> n + 1 \<le> length (freeList (discardsMap st vt)) \<and> n + 1 < 2 ^ 32
      | Some lf \<Rightarrow> n \<le> length (freeList (discardsMap st vt)) \<and> unat (Fid lf) + n < 2 ^ 32)"

lemma unat_succ: "unat (x :: u32) + 1 < 2 ^ 32 \<Longrightarrow> x + 1 \<noteq> 0 \<and> unat (x + 1) = unat x + 1"
proof -
  assume b: "unat x + 1 < 2 ^ 32"
  have "x + 1 \<noteq> 0"
  proof
    assume "x + 1 = 0"
    then have "x = - 1" by (simp add: eq_neg_iff_add_eq_0)
    then show False using b by (simp add: unsigned_minus_1_eq_mask mask_eq_exp_minus_1)
  qed
  then show ?thesis using unatSuc [of x] by (simp add: add.commute)
qed

lemma capacity_can_write: "capacity st vt (Suc n) \<Longrightarrow> can_write st vt sz"
  using unat_succ by (fastforce simp: capacity_def can_write_def split: option.splits)

lemma capacity_le: "capacity st vt n \<Longrightarrow> m \<le> n \<Longrightarrow> capacity st vt m"
  by (auto simp: capacity_def split: option.splits)

text \<open>A new log file and its record.\<close>

lemma tracked_new:
  assumes "tracked st t" "same_chan (discardsMap st vt) d"
    and "(word_of_int (MaxLogFileSize (cfg st)) :: u32) \<noteq> 0 \<Longrightarrow> dom (location d) = insert f (dom (location (discardsMap st vt)))"
    and "files st' = (files st)(log_name (FType vt) f \<mapsto> c)" "cfg st' = cfg st" "discardsMap st' = (discardsMap st)(vt := d)"
  shows "tracked st' t"
  using assms by (cases "t = vt") (auto simp: tracked_def same_chan_def)

lemma getActiveLogFile_new:
  assumes inv: "base_inv st" and act: "active st vt = None"
    and slot: "freeList (discardsMap st vt) \<noteq> []"
  shows "\<exists>lf st1. getActiveLogFile vt st = (Inr lf, st1) \<and> base_inv st1 \<and> store_le st st1
    \<and> active st1 vt = Some lf \<and> Fid lf = 1 \<and> Offset lf = 0
    \<and> length (freeList (discardsMap st vt)) \<le> Suc (length (freeList (discardsMap st1 vt)))
    \<and> others_same vt st st1 \<and> logged st vt [] \<and> logged st1 vt [(1, [])]"
proof -
  obtain fm am ar where s: "fidsMap st = Some fm" "activeLogFileMap st = Some am" "archivedLogFile st = Some ar"
    "\<And>vt. cm_wf (ar vt)" "\<And>vt. active st vt = am vt" "\<And>vt. archived st vt = cm_view (ar vt)"
    "0 < MaxLogFileSize (cfg st)" "IOType (cfg st) = FileIO" "\<And>vt. discard_ok (discardsMap st vt)"
    "\<And>vt. type_inv (MaxLogFileSize (cfg st)) (files st) vt (am vt) (cm_view (ar vt))"
    using base_invD [OF inv] by blast
  have a0: "am vt = None" using act s(5) by simp
  then have no: "contents (files st) vt f = None" "cm_view (ar vt) f = None" for f
    using s(10) [of vt] by (simp_all add: type_inv_def)
  let ?n = "log_name (FType vt) 1"
  let ?fs = "(files st)(?n \<mapsto> replicate (nat (MaxLogFileSize (cfg st))) 0)"
  let ?lf = "\<lparr>Fid = 1, Offset = 0, IoController = FileIOController ?n\<rparr>"
  let ?st = "st\<lparr>files := ?fs, activeLogFileMap := Some (am(vt \<mapsto> ?lf)), fidsMap := Some (fm(vt := fm vt @ [1]))\<rparr>"
  obtain d where d: "st_setTotal vt 1 ?st = (Inr (), ?st\<lparr>discardsMap := (discardsMap ?st)(vt := d)\<rparr>)"
    "discard_ok d" "same_chan (discardsMap st vt) d" "length (freeList (discardsMap st vt)) \<le> Suc (length (freeList d))"
    "(word_of_int (MaxLogFileSize (cfg st)) :: u32) \<noteq> 0 \<Longrightarrow> dom (location d) = insert 1 (dom (location (discardsMap st vt)))"
    using st_setTotal_ok [of ?st vt 1] s(9) slot by auto
  define st1 where "st1 = ?st\<lparr>discardsMap := (discardsMap ?st)(vt := d)\<rparr>"
  have e: "getActiveLogFile vt st = (Inr ?lf, st1)"
    using act s(1,2,7,8) d(1) Open_LogFile_FileIO [OF s(7) no(1)]
    by (simp add: getActiveLogFile_def st1_def)
  have acts: "active st1 t = (if t = vt then Some ?lf else am t)" "archived st1 = archived st" for t
    by (auto simp: active_def archived_def st1_def fun_eq_iff)
  have sel: "files st1 = ?fs" "cfg st1 = cfg st" "discardsMap st1 = (discardsMap st)(vt := d)"
    by (simp_all add: st1_def)
  have "base_inv st1"
    by (rule base_inv_upd [OF inv, where vt = vt])
      (use s d no in \<open>auto simp: acts sel type_inv_def lf_ok_def, auto simp: st1_def is_open_def\<close>)
  moreover have "tracked st1 t" if "tracked st t" for t
    by (rule tracked_new [OF that d(3,5)]) (simp_all add: sel)
  then have "store_le st st1"
    by (intro store_leI) (use d(3) s(5,6) a0 no in \<open>auto simp: acts handle_def sel split: option.splits\<close>)
  moreover have "others_same vt st st1"
    using s(5,6) no(2) by (auto simp: others_same_def acts sel)
  moreover have "logged st vt []" "logged st1 vt [(1, [])]"
    using act no s(6) by (simp_all add: logged_def acts sel)
  ultimately show ?thesis using e d(4) by (auto simp: acts sel)
qed

lemma rotate_ok:
  assumes inv: "base_inv st" and act: "active st vt = Some lf" and nz: "Fid lf + 1 \<noteq> 0"
    and slot: "freeList (discardsMap st vt) \<noteq> []"
  shows "\<exists>lf' st'. rotate vt lf st = (Inr lf', st') \<and> base_inv st' \<and> store_le st st'
    \<and> active st' vt = Some lf' \<and> Fid lf' = Fid lf + 1 \<and> Offset lf' = 0
    \<and> length (freeList (discardsMap st vt)) \<le> Suc (length (freeList (discardsMap st' vt)))
    \<and> others_same vt st st' \<and> (\<forall>L. logged st vt L \<longrightarrow> logged st' vt (L @ [(Fid lf + 1, [])]))"
proof -
  obtain fm am ar where s: "fidsMap st = Some fm" "activeLogFileMap st = Some am" "archivedLogFile st = Some ar"
    "\<And>t. cm_wf (ar t)" "\<And>t. active st t = am t" "\<And>t. archived st t = cm_view (ar t)"
    "0 < MaxLogFileSize (cfg st)" "IOType (cfg st) = FileIO" "\<And>t. discard_ok (discardsMap st t)"
    "\<And>t. type_inv (MaxLogFileSize (cfg st)) (files st) t (am t) (cm_view (ar t))"
    using base_invD [OF inv] by blast
  let ?mx = "MaxLogFileSize (cfg st)"
  have a0: "am vt = Some lf" using act s(5) by simp
  then have ti: "lf_ok ?mx (files st) vt lf" "\<And>f a. cm_view (ar vt) f = Some a \<Longrightarrow> f < Fid lf \<and> Fid a = f \<and> lf_ok ?mx (files st) vt a"
    "\<And>f. Fid lf < f \<Longrightarrow> contents (files st) vt f = None"
    using s(10) [of vt] by (simp_all add: type_inv_def)
  let ?f = "Fid lf + 1"
  have lt: "Fid lf < ?f" using word_le_succ [OF nz] by simp
  note no = ti(3) [OF lt]
  let ?n = "log_name (FType vt) ?f"
  let ?fs = "(files st)(?n \<mapsto> replicate (nat ?mx) 0)"
  let ?lf = "\<lparr>Fid = ?f, Offset = 0, IoController = FileIOController ?n\<rparr>"
  obtain cm' where cm': "cm_Set (ar vt) (Fid lf) lf = Inr cm'" "cm_wf cm'"
    "cm_view cm' = (cm_view (ar vt))(Fid lf \<mapsto> lf)"
    using cm.put_view [OF s(4)] by blast
  let ?st = "st\<lparr>files := ?fs, archivedLogFile := Some (ar(vt := cm')), fidsMap := Some (fm(vt := fm vt @ [?f]))\<rparr>"
  obtain d where d: "st_setTotal vt ?f ?st = (Inr (), ?st\<lparr>discardsMap := (discardsMap ?st)(vt := d)\<rparr>)"
    "discard_ok d" "same_chan (discardsMap st vt) d" "length (freeList (discardsMap st vt)) \<le> Suc (length (freeList d))"
    "(word_of_int (MaxLogFileSize (cfg st)) :: u32) \<noteq> 0 \<Longrightarrow> dom (location d) = insert ?f (dom (location (discardsMap st vt)))"
    using st_setTotal_ok [of ?st vt ?f] s(9) slot nz by auto
  define st' where "st' = ?st\<lparr>discardsMap := (discardsMap ?st)(vt := d), activeLogFileMap := Some (am(vt \<mapsto> ?lf))\<rparr>"
  have sync: "LogFile_Sync lf (files st) = Inr ()"
    using ti(1) by (auto simp: LogFile_Sync_def IO_Sync_def lf_ok_def contents_def)
  have e: "rotate vt lf st = (Inr ?lf, st')"
    using s(1,2,3,8) d(1) Open_LogFile_FileIO [OF s(7) no] sync cm'(1)
    by (simp add: rotate_def Let_def st'_def)
  have acts: "active st' t = (if t = vt then Some ?lf else am t)"
    "archived st' t = (if t = vt then cm_view cm' else cm_view (ar t))" for t
    by (auto simp: active_def archived_def st'_def fun_eq_iff)
  have sel: "files st' = ?fs" "cfg st' = cfg st" "discardsMap st' = (discardsMap st)(vt := d)"
    by (simp_all add: st'_def)
  have keep: "lf_ok ?mx ?fs vt a" if "lf_ok ?mx (files st) vt a" "Fid a \<noteq> ?f" for a
    using that by (simp add: lf_ok_def)
  have "f < ?f \<and> Fid a = f \<and> lf_ok ?mx ?fs vt a" if "cm_view cm' f = Some a" for f a
  proof (cases "f = Fid lf")
    case True
    then show ?thesis using that lt ti(1) keep by (auto simp: cm'(3))
  next
    case False
    then have "f < Fid lf" "Fid a = f" "lf_ok ?mx (files st) vt a" using that ti(2) [of f a] by (auto simp: cm'(3))
    then show ?thesis using lt keep [of a] by auto
  qed
  moreover have "lf_ok ?mx ?fs vt ?lf" using s(7) by (simp add: lf_ok_def)
  moreover have "contents ?fs vt f = None" if "?f < f" for f
    using that ti(3) [of f] lt by auto
  ultimately have tinv: "type_inv ?mx ?fs vt (Some ?lf) (cm_view cm')"
    by (simp only: type_inv_def option.case LogFile.select_convs) blast
  have op: "is_open st'" using s(2,4) cm'(2) by (simp add: st'_def is_open_def)
  have "base_inv st'"
    by (rule base_inv_upd [OF inv, where vt = vt])
      (use s(5,6) d(2) tinv op in \<open>simp_all add: acts sel\<close>)
  moreover have tr: "tracked st' t" if "tracked st t" for t
    by (rule tracked_new [OF that d(3,5)]) (simp_all add: sel)
  have "cm_view (ar vt) ?f = None" "\<And>f. cm_view (ar vt) f \<noteq> Some ?lf"
    using ti(2) lt by (metis less_asym not_Some_eq, metis LogFile.select_convs(1) less_asym)
  then have "store_le st st'"
    by (intro store_leI tr)
      (use d(3) s(5,6) a0 no lt in \<open>auto simp: acts cm'(3) handle_def sel split: option.splits if_splits\<close>)
  moreover have "f \<noteq> Fid lf \<and> f \<noteq> ?f" if "cm_view (ar vt) f = Some a" for f a
    using ti(2) [OF that] lt by auto
  then have "others_same vt st st'"
    using s(5,6) by (auto simp: others_same_def acts sel cm'(3))
  moreover have "logged st' vt (L @ [(?f, [])])" if L: "logged st vt L" for L
  proof -
    obtain L0 es where L0: "L = L0 @ [(Fid lf, es)]" using logged_active [OF L act] by metis
    have "map_of L ?f = None" using L no by (simp add: logged_def)
    moreover have "\<forall>x \<in> set L. fst x < ?f"
      using L L0 lt by (fastforce simp: logged_def sorted_wrt_append)
    ultimately show ?thesis
      using L L0 s(6) by (auto simp: logged_def acts sel cm'(3) sorted_wrt_append map_add_def butlast_append split: option.splits)
  qed
  ultimately show ?thesis using e d(4) by (auto simp: acts sel)
qed

text \<open>Writing at the end of the active file.\<close>

lemma append_ok:
  assumes inv: "base_inv st" and act: "active st vt = Some lf" and enc: "encodable le"
  defines "lf' \<equiv> lf\<lparr>Offset := Offset lf + int (entry_size le)\<rparr>"
  shows "\<exists>fs'. LogFile_Write lf (entry_bytes le) (files st) = (Inr (), lf', fs') \<and>
    (\<forall>st'. st' = st\<lparr>files := fs', activeLogFileMap := map_option (\<lambda>am. am(vt \<mapsto> lf')) (activeLogFileMap st)\<rparr> \<longrightarrow>
       base_inv st' \<and> store_le st st' \<and> active st' vt = Some lf' \<and> located st' vt (Fid lf) (Offset lf) le \<and>
       (MaxHeaderSize \<le> entry_size le \<or> Offset lf + int MaxHeaderSize \<le> MaxLogFileSize (cfg st) \<longrightarrow>
          readable st' vt (Fid lf) (Offset lf) \<and>
          (\<forall>L es. logged st vt (L @ [(Fid lf, es)]) \<longrightarrow> logged st' vt (L @ [(Fid lf, es @ [le])]))) \<and>
       others_same vt st st')"
proof -
  obtain fm am ar where s: "fidsMap st = Some fm" "activeLogFileMap st = Some am" "archivedLogFile st = Some ar"
    "\<And>t. cm_wf (ar t)" "\<And>t. active st t = am t" "\<And>t. archived st t = cm_view (ar t)"
    "0 < MaxLogFileSize (cfg st)" "IOType (cfg st) = FileIO" "\<And>t. discard_ok (discardsMap st t)"
    "\<And>t. type_inv (MaxLogFileSize (cfg st)) (files st) t (am t) (cm_view (ar t))"
    using base_invD [OF inv] by blast
  let ?mx = "MaxLogFileSize (cfg st)"
  have a0: "am vt = Some lf" using act s(5) by simp
  then have ti: "lf_ok ?mx (files st) vt lf" "\<And>f a. cm_view (ar vt) f = Some a \<Longrightarrow> f < Fid lf \<and> Fid a = f \<and> lf_ok ?mx (files st) vt a"
    "\<And>f. Fid lf < f \<Longrightarrow> contents (files st) vt f = None"
    using s(10) [of vt] by (simp_all add: type_inv_def)
  let ?n = "log_name (FType vt) (Fid lf)"
  obtain c where c: "contents (files st) vt (Fid lf) = Some c" "?mx \<le> int (length c)" and o0: "0 \<le> Offset lf"
    and ctl: "IoController lf = FileIOController ?n"
    using ti(1) by (auto simp: lf_ok_def)
  define c' where "c' = write_at c (nat (Offset lf)) (entry_bytes le)"
  define fs' where "fs' = (files st)(?n \<mapsto> c')"
  have w: "LogFile_Write lf (entry_bytes le) (files st) = (Inr (), lf', fs')"
    using c(1) o0 ctl by (simp add: LogFile_Write_def IO_Write_def contents_def FileIO_Write_def fs'_def c'_def lf'_def)
  have len: "length c \<le> length c'" by (simp add: c'_def)
  define st' where "st' = st\<lparr>files := fs', activeLogFileMap := map_option (\<lambda>am. am(vt \<mapsto> lf')) (activeLogFileMap st)\<rparr>"
  have acts: "active st' t = (if t = vt then Some lf' else am t)" "archived st' t = cm_view (ar t)" for t
    using s by (auto simp: active_def archived_def st'_def fun_eq_iff)
  have sel: "files st' = fs'" "cfg st' = cfg st" "discardsMap st' = discardsMap st"
    by (simp_all add: st'_def)
  have ct: "contents fs' t f = (if t = vt \<and> f = Fid lf then Some c' else contents (files st) t f)" for t f
    by (simp add: fs'_def)
  have l': "Fid lf' = Fid lf" "Offset lf \<le> Offset lf'" "IoController lf' = IoController lf"
    by (simp_all add: lf'_def)
  have keep: "lf_ok ?mx fs' vt a" if "lf_ok ?mx (files st) vt a" for a
    using that len c by (auto simp: lf_ok_def ct)
  have "lf_ok ?mx fs' vt lf'" using keep [OF ti(1)] l' by (auto simp: lf_ok_def)
  then have tinv: "type_inv ?mx fs' vt (Some lf') (cm_view (ar vt))"
    unfolding type_inv_def option.case l'(1) using keep ti(2,3) by (auto simp: ct)
  have op: "is_open st'" using s(1-4) by (simp add: st'_def is_open_def)
  have si: "base_inv st'"
    by (rule base_inv_upd [OF inv, where vt = vt])
      (use s(5,6,9) tinv op in \<open>simp_all add: acts sel ct\<close>)
  have fr: "entry_at c' off x" if "entry_at c off x" "int off + int (entry_size x) \<le> Offset lf" for off x
    unfolding c'_def using that by (intro entry_at_frame) auto
  have na: "cm_view (ar vt) f \<noteq> Some lf'" for f
    using ti(2) l'(1) by (metis less_irrefl)
  have le: "store_le st st'"
  proof (rule store_leI)
    fix t f
    show "\<exists>x. handle st' t f = Some x \<and> (active st' t = Some x \<longrightarrow> active st t = Some h \<and> Offset h \<le> Offset x)"
      if "handle st t f = Some h" for h
      using that na l' by (auto simp: handle_def acts s(5,6) a0 split: option.splits if_splits)
    have "handle st vt (Fid lf) = Some lf" using act by (simp add: handle_def)
    then show "\<exists>x. contents (files st') t f = Some x \<and> length c0 \<le> length x \<and>
        (\<forall>h off le. handle st t f = Some h \<and> entry_at c0 off le \<and>
           (active st t = Some h \<longrightarrow> int off + int (entry_size le) \<le> Offset h) \<longrightarrow> entry_at x off le)"
      if "contents (files st) t f = Some c0" for c0
      using that c(1) len fr act by (cases "t = vt \<and> f = Fid lf") (auto simp: sel ct)
    show "tracked st' t" if "tracked st t" for t
      using that c(1) by (auto simp: tracked_def sel ct split: if_splits)
  qed (simp_all add: sel)
  have at: "entry_at c' (nat (Offset lf)) le"
    unfolding c'_def by (rule entry_at_write)
  have loc: "located st' vt (Fid lf) (Offset lf) le"
    using o0 enc at by (auto simp: located_def handle_def acts l' sel ct) (simp add: lf'_def)
  have rd: "readable st' vt (Fid lf) (Offset lf)"
    if "MaxHeaderSize \<le> entry_size le \<or> Offset lf + int MaxHeaderSize \<le> ?mx"
    using that entry_at_bound [OF at] o0 c(2) len by (auto simp: readable_def sel ct)
  have os: "others_same vt st st'"
    using s(5,6) ti(2) by (auto simp: others_same_def acts sel ct)
  have lg: "logged st' vt (L @ [(Fid lf, es @ [le])])"
    if L: "logged st vt (L @ [(Fid lf, es)])" and fit: "MaxHeaderSize \<le> entry_size le \<or> Offset lf + int MaxHeaderSize \<le> ?mx"
    for L es
  proof -
    have o: "Offset lf = int (length (log_bytes es))" and m: "map_of L (Fid lf) = None"
      using logged_active [OF L act] by auto
    have "c = file_image ?mx es" using L c(1) m by (simp add: logged_def map_add_def)
    then have c': "c' = file_image ?mx (es @ [le])" by (simp add: c'_def o file_image_append)
    have "file_ok ?mx (es @ [le])"
      using L enc fit o by (intro file_ok_append) (auto simp: logged_def)
    then show ?thesis
      using L m c' s(6) l'(1) o by (auto simp: logged_def acts sel ct map_add_def lf'_def split: option.splits)
  qed
  show ?thesis using w si le loc rd os lg acts(1) [of vt] by (auto simp: st'_def)
qed

subsection \<open>Appending an entry\<close>

lemma getActiveLogFile_ok:
  assumes inv: "base_inv st" and can: "can_write st vt n"
  shows "\<exists>lf st1. getActiveLogFile vt st = (Inr lf, st1) \<and> base_inv st1 \<and> store_le st st1
    \<and> active st1 vt = Some lf \<and> can_write st1 vt n \<and> write_pos st1 vt n = write_pos st vt n
    \<and> (\<forall>k. capacity st vt k \<longrightarrow> capacity st1 vt k)
    \<and> others_same vt st st1 \<and> (\<forall>ls. log_view st vt ls \<longrightarrow> log_view st1 vt ls)"
proof (cases "active st vt")
  case None
  with can have fl: "2 \<le> length (freeList (discardsMap st vt))" by (simp add: can_write_def)
  then obtain lf st1 where g: "getActiveLogFile vt st = (Inr lf, st1)" "base_inv st1" "store_le st st1"
    "active st1 vt = Some lf" "Fid lf = 1" "Offset lf = 0"
    "length (freeList (discardsMap st vt)) \<le> Suc (length (freeList (discardsMap st1 vt)))"
    "others_same vt st st1" "logged st1 vt [(1, [])]"
    using getActiveLogFile_new [OF inv None] by fastforce
  then have "freeList (discardsMap st1 vt) \<noteq> []" using fl by auto
  moreover have "capacity st1 vt k" if "capacity st vt k" for k
    using that g None by (simp add: capacity_def)
  moreover have "log_view st1 vt ls" if "log_view st vt ls" for ls
    using that g(9) None by (force simp: log_view_def logged_def [of st])
  ultimately show ?thesis using g None by (auto simp: can_write_def write_pos_def)
next
  case (Some lf)
  then show ?thesis using inv can by (auto simp: getActiveLogFile_def)
qed

lemma writeLogEntry_ok:
  assumes inv: "base_inv st" and enc: "encodable le" and can: "can_write st vt (entry_size le)"
  shows "\<exists>pos st'. writeLogEntry vt le st = (Inr pos, st') \<and> base_inv st' \<and> store_le st st'
    \<and> vp_entrySize pos = int (entry_size le) \<and> located st' vt (vp_fid pos) (vp_offset pos) le
    \<and> (fits st vt (entry_size le) \<longrightarrow> readable st' vt (vp_fid pos) (vp_offset pos) \<and>
         (\<forall>ls. log_view st vt ls \<longrightarrow> log_view st' vt (ls @ [(vp_fid pos, vp_offset pos, le)])))
    \<and> (\<forall>n. capacity st vt (Suc n) \<longrightarrow> capacity st' vt n) \<and> others_same vt st st'
    \<and> (\<exists>lf'. active st' vt = Some lf' \<and> Fid lf' = vp_fid pos)"
proof -
  let ?n = "entry_size le"
  obtain lf st1 where g: "getActiveLogFile vt st = (Inr lf, st1)" "base_inv st1" "store_le st st1"
    "active st1 vt = Some lf" "can_write st1 vt ?n" "write_pos st1 vt ?n = write_pos st vt ?n"
    "\<And>k. capacity st vt k \<Longrightarrow> capacity st1 vt k" "others_same vt st st1"
    "\<And>ls. log_view st vt ls \<Longrightarrow> log_view st1 vt ls"
    using getActiveLogFile_ok [OF inv can] by blast
  have mx: "cfg st1 = cfg st" using g(3) by (simp add: store_le_def)
  obtain lf2 st2 where r: "(if Offset lf + int ?n > MaxLogFileSize (cfg st1) then rotate vt lf st1
      else (Inr lf, st1)) = (Inr lf2, st2)"
    "base_inv st2" "store_le st1 st2" "active st2 vt = Some lf2" "Offset lf2 = write_pos st1 vt ?n"
    "\<And>k. capacity st1 vt (Suc k) \<Longrightarrow> capacity st2 vt k" "others_same vt st1 st2"
    "\<And>ls. log_view st1 vt ls \<Longrightarrow> log_view st2 vt ls"
  proof (cases "Offset lf + int ?n > MaxLogFileSize (cfg st1)")
    case True
    then have "Fid lf + 1 \<noteq> 0" "freeList (discardsMap st1 vt) \<noteq> []"
      using g(4,5) by (auto simp: can_write_def)
    then obtain lf' st' where "rotate vt lf st1 = (Inr lf', st')" "base_inv st'" "store_le st1 st'"
      "active st' vt = Some lf'" "Offset lf' = 0" "Fid lf' = Fid lf + 1"
      "length (freeList (discardsMap st1 vt)) \<le> Suc (length (freeList (discardsMap st' vt)))"
      "others_same vt st1 st'" "\<And>L. logged st1 vt L \<Longrightarrow> logged st' vt (L @ [(Fid lf + 1, [])])"
      using rotate_ok [OF g(2,4)] by blast
    moreover from this(9) have "log_view st' vt ls" if "log_view st1 vt ls" for ls
      using that by (force simp: log_view_def)
    ultimately show thesis
      using True g(4) unat_succ [of "Fid lf"] by (intro that [of lf' st']) (simp_all add: write_pos_def capacity_def)
  next
    case False
    then show thesis
      using g capacity_le [of st1 vt] by (intro that [of lf st1]) (simp_all add: write_pos_def)
  qed
  have mx2: "cfg st2 = cfg st" using r(3) mx by (simp add: store_le_def)
  let ?lf3 = "lf2\<lparr>Offset := Offset lf2 + int ?n\<rparr>"
  obtain fs' where w: "LogFile_Write lf2 (entry_bytes le) (files st2) = (Inr (), ?lf3, fs')"
    and ap: "\<And>st'. st' = st2\<lparr>files := fs', activeLogFileMap := map_option (\<lambda>am. am(vt \<mapsto> ?lf3)) (activeLogFileMap st2)\<rparr> \<Longrightarrow>
       base_inv st' \<and> store_le st2 st' \<and> active st' vt = Some ?lf3 \<and>
       located st' vt (Fid lf2) (Offset lf2) le \<and>
       (MaxHeaderSize \<le> ?n \<or> Offset lf2 + int MaxHeaderSize \<le> MaxLogFileSize (cfg st2) \<longrightarrow>
          readable st' vt (Fid lf2) (Offset lf2) \<and>
          (\<forall>L es. logged st2 vt (L @ [(Fid lf2, es)]) \<longrightarrow> logged st' vt (L @ [(Fid lf2, es @ [le])]))) \<and>
       others_same vt st2 st'"
    using append_ok [OF r(2,4) enc] by blast
  define st' where "st' = st2\<lparr>files := fs', activeLogFileMap := map_option (\<lambda>am. am(vt \<mapsto> ?lf3)) (activeLogFileMap st2)\<rparr>"
  have "EncodeEntry (Some le) = Inr (entry_bytes le, ?n)"
    using enc by (simp add: EncodeEntry_Some encodable_def)
  then have "writeLogEntry vt le st =
      (Inr \<lparr>vp_fid = Fid lf2, vp_offset = Offset lf2, vp_entrySize = int ?n\<rparr>, st')"
    using g(1) r(1) w by (simp add: writeLogEntry_def st'_def)
  moreover have "store_le st st'"
    using store_le_trans [OF store_le_trans [OF g(3) r(3)]] ap [OF st'_def] by blast
  moreover have fit: "MaxHeaderSize \<le> ?n \<or> Offset lf2 + int MaxHeaderSize \<le> MaxLogFileSize (cfg st2)" if "fits st vt ?n"
    using that r(5) g(6) by (simp add: fits_def mx2)
  then have "fits st vt ?n \<longrightarrow> readable st' vt (Fid lf2) (Offset lf2)" using ap [OF st'_def] by blast
  moreover have "log_view st' vt (ls @ [(Fid lf2, Offset lf2, le)])"
    if ft: "fits st vt ?n" and lv: "log_view st vt ls" for ls
  proof -
    obtain L where L: "logged st2 vt L" "ls = log_seq L"
      using r(8) [OF g(9) [OF lv]] by (auto simp: log_view_def)
    obtain L0 es where L0: "L = L0 @ [(Fid lf2, es)]" "Offset lf2 = int (length (log_bytes es))"
      using logged_active [OF L(1) r(4)] by metis
    have "logged st' vt (L0 @ [(Fid lf2, es @ [le])])"
      using ap [OF st'_def] fit [OF ft] L(1) L0(1) by blast
    moreover have "log_seq (L0 @ [(Fid lf2, es @ [le])]) = ls @ [(Fid lf2, Offset lf2, le)]"
      using L(2) L0 by (simp add: positions_append)
    ultimately show ?thesis unfolding log_view_def by metis
  qed
  moreover have "others_same vt st st'"
    using others_same_trans [OF others_same_trans [OF g(8) r(7)]] ap [OF st'_def] by blast
  moreover have "capacity st' vt k" if "capacity st2 vt k" for k
    using that r(4) ap [OF st'_def] by (simp add: capacity_def) (simp add: st'_def)
  then have "capacity st' vt k" if "capacity st vt (Suc k)" for k
    using that g(7) r(6) by blast
  ultimately show ?thesis using ap [OF st'_def] by auto
qed

text \<open>An entry whose header does not fit the encoder's buffer makes the operation panic.\<close>

lemma writeLogEntry_panic:
  assumes "base_inv st" "MaxHeaderSize < header_size le" "can_write st vt n"
  shows "\<exists>st'. writeLogEntry vt le st = (Inl Panic, st') \<and> base_inv st' \<and> store_le st st'"
proof -
  obtain lf st1 where "getActiveLogFile vt st = (Inr lf, st1)" "base_inv st1" "store_le st st1"
    using getActiveLogFile_ok [OF assms(1,3)] by blast
  then show ?thesis using assms(2) by (simp add: writeLogEntry_def EncodeEntry_Some)
qed

subsection \<open>Properties\<close>

text \<open>
  C3. The log keeps what is written: appending an entry succeeds while the type has room, also
  when it has to create or switch the log file; reading at the returned position gives the
  entry, and every entry written before still reads as before, in archived files and for the
  other types too.
\<close>

theorem writeLogEntry_readLogEntry:
  assumes inv: "base_inv st" and le: "encodable le" "can_write st vt (entry_size le)" "fits st vt (entry_size le)"
  shows "\<exists>pos st'. writeLogEntry vt le st = (Inr pos, st') \<and> base_inv st' \<and>
    readLogEntry vt (vp_fid pos) (vp_offset pos) st' = Inr (stored le) \<and>
    (\<forall>t f off x. located st t f off x \<and> readable st t f off \<longrightarrow>
       readLogEntry t f off st = Inr (stored x) \<and> readLogEntry t f off st' = Inr (stored x))"
proof -
  obtain pos st' where w: "writeLogEntry vt le st = (Inr pos, st')" "base_inv st'" "store_le st st'"
    "located st' vt (vp_fid pos) (vp_offset pos) le" "readable st' vt (vp_fid pos) (vp_offset pos)"
    using writeLogEntry_ok [OF inv le(1,2)] le(3) by blast
  have "readLogEntry t f off st = Inr (stored x) \<and> readLogEntry t f off st' = Inr (stored x)"
    if "located st t f off x" "readable st t f off" for t f off x
    using that w(3) readLogEntry_located [OF inv that(1)] readLogEntry_located [OF w(2), of t f off x]
    by (auto simp: store_le_def)
  then show ?thesis using w readLogEntry_located [OF w(2,4)] by auto
qed

text \<open>A store with no log file yet, with a limit of \<open>mx\<close> bytes per file.\<close>

definition sample_store :: "int \<Rightarrow> Store" where
  "sample_store mx =
     \<lparr>cfg = (DefaultDBConfig [])\<lparr>MaxLogFileSize := mx\<rparr>, files = Map.empty, discardsMap = (\<lambda>_. fresh_discard 8),
      fidsMap = Some (\<lambda>_. []), activeLogFileMap = Some Map.empty,
      archivedLogFile = Some (\<lambda>_. NewWithCustomShardingFunction 32 SimpleSharding)\<rparr>"

lemma sample_store_active [simp]: "active (sample_store mx) vt = None"
  by (simp add: sample_store_def active_def)

lemma sample_store_inv:
  assumes "0 < mx" shows "base_inv (sample_store mx)"
proof -
  have wf: "cm_wf (NewWithCustomShardingFunction 32 SimpleSharding :: (u32, LogFile) ConcurrentMap)"
    "cm_view (NewWithCustomShardingFunction 32 SimpleSharding :: (u32, LogFile) ConcurrentMap) = Map.empty"
    by (simp_all add: NewWithCustomShardingFunction_def newConcurrentMap_wf newConcurrentMap_view)
  then show ?thesis
    using assms by (simp add: base_inv_def type_inv_def)
      (simp add: sample_store_def is_open_def archived_def contents_def DefaultDBConfig_def)
qed

lemma sample_store_can: "can_write (sample_store mx) vt n"
  by (simp add: can_write_def) (simp add: sample_store_def)

lemma sample_store_fits: "25 \<le> mx \<Longrightarrow> fits (sample_store mx) vt n"
  by (simp add: fits_def write_pos_def MaxHeaderSize_def) (simp add: sample_store_def)

lemma encodable_small:
  assumes "k \<noteq> []" "length k < 2 ^ 32" "length (bs v) < 2 ^ 32"
  shows "encodable (empty_entry\<lparr>Key := k, Value := v\<rparr>)" (is "encodable ?le")
proof -
  have "header_size ?le \<le> 18" using assms by (intro plain_header_fits) (simp_all add: empty_entry_def)
  then show ?thesis using assms by (simp add: encodable_def MaxHeaderSize_def)
qed

theorem writeLogEntry_readLogEntry_witness:
  "\<exists>pos st'. writeLogEntry valueTypeHash (empty_entry\<lparr>Key := [1], Value := Some [2]\<rparr>) (sample_store 100) = (Inr pos, st') \<and>
     readLogEntry valueTypeHash (vp_fid pos) (vp_offset pos) st' =
       Inr (stored (empty_entry\<lparr>Key := [1], Value := Some [2]\<rparr>))"
  using writeLogEntry_readLogEntry [OF sample_store_inv encodable_small sample_store_can sample_store_fits,
      of 100 "[1]" "Some [2]" valueTypeHash]
  by auto

text \<open>
  C37. An entry that stands in the last 24 bytes of its log file is not readable: although it is
  completely in the file, readLogEntry returns EOF for it, because it always reads a header of
  maximal size.
\<close>

theorem readLogEntry_tail:
  assumes "base_inv st" "located st vt f off le" "contents (files st) vt f = Some c" "int (length c) - off < 25"
  shows "readLogEntry vt f off st = Inl EOF"
  using readLogEntry_located [OF assms(1,2)] assms(3,4) by (simp add: readable_def MaxHeaderSize_def)

theorem readLogEntry_tail_witness:
  "\<exists>pos st'. writeLogEntry valueTypeString (empty_entry\<lparr>Key := [1], Value := Some [2]\<rparr>) (sample_store 20) = (Inr pos, st') \<and>
     readLogEntry valueTypeString (vp_fid pos) (vp_offset pos) st' = Inl EOF"
proof -
  let ?le = "empty_entry\<lparr>Key := [1], Value := Some [2]\<rparr>" and ?vt = valueTypeString
  have enc: "encodable ?le" by (rule encodable_small) simp_all
  have "header_size ?le \<le> 18" by (rule plain_header_fits) (simp_all add: empty_entry_def)
  then have sz: "entry_size ?le \<le> 20" by (simp add: entry_size_def)
  obtain pos st' where w: "writeLogEntry ?vt ?le (sample_store 20) = (Inr pos, st')" "base_inv st'"
    "located st' ?vt (vp_fid pos) (vp_offset pos) ?le"
    using writeLogEntry_ok [OF sample_store_inv enc sample_store_can, of 20 ?vt] by auto
  obtain d1 where t: "setTotal (fresh_discard 8) 1 20 = (Inr (), d1)"
    using setTotal_tab [of "fresh_discard 8" 1 20] fresh_discard_simps(1) [of 8] by fastforce
  have n: "contents Map.empty ?vt 1 = None" by (simp add: contents_def)
  let ?lf = "\<lparr>Fid = 1, Offset = 0, IoController = FileIOController (log_name 0 1)\<rparr>"
  have o: "Open_LogFile 1 20 0 FileIO Map.empty = Inr (?lf, [log_name 0 1 \<mapsto> replicate 20 0])"
    using Open_LogFile_FileIO [OF _ n, of 20] by simp
  have "vp_fid pos = 1 \<and> vp_offset pos = 0 \<and> contents (files st') ?vt 1 = Some (write_at (replicate 20 0) 0 (entry_bytes ?le))"
    using w(1) enc sz t o
    by (auto simp: writeLogEntry_def getActiveLogFile_def EncodeEntry_Some encodable_def st_setTotal_def
        LogFile_Write_def IO_Write_def FileIO_Write_def Let_def contents_def sample_store_def DefaultDBConfig_def
        active_def)
  moreover have "length (write_at (replicate 20 0) 0 (entry_bytes ?le)) = 20"
    using sz by (simp add: length_write_at)
  ultimately have "readLogEntry ?vt (vp_fid pos) (vp_offset pos) st' = Inl EOF"
    using readLogEntry_tail [OF w(2,3)] by simp
  then show ?thesis using w(1) by blast
qed

end
