(* ===== verification/Art_Index.thy ===== *)
theory Art_Index
  imports Lazy_Prelude "HOL-Library.RBT" "HOL-Library.List_Lexorder"
begin

text \<open>
  \<open>ds/adaptive_radix_tree.go\<close>: the index tree, a wrapper over the third-party package
  \<open>plar/go-adaptive-radix-tree\<close>. That package is a parameter of the model: the record
  \<open>art\<close> of the methods the wrapper calls. What the database relies on is its documented
  behaviour, the locale \<open>art_engine\<close>: \<open>Insert\<close> and \<open>Delete\<close> report the old value and
  whether there was one, iteration visits the leaves in the order of their keys, and
  \<open>ForEachPrefix\<close> those whose key has the prefix.

  The locale \<open>ordered_index\<close> is the contract the wrapper gives to the database; it follows
  from \<open>art_engine\<close> (a \<open>sublocale\<close>). A red-black tree with byte strings as keys satisfies
  \<open>art_engine\<close>, so its laws can hold together.
\<close>

record ('t, 'v) art =
  art_New :: 't
  art_Search :: "'t \<Rightarrow> bytes \<Rightarrow> 'v option"
  art_Insert :: "'t \<Rightarrow> bytes \<Rightarrow> 'v \<Rightarrow> 't \<times> 'v option \<times> bool"
  art_Delete :: "'t \<Rightarrow> bytes \<Rightarrow> 't \<times> 'v option \<times> bool"
  art_Size :: "'t \<Rightarrow> nat"
  art_Iterator :: "'t \<Rightarrow> (bytes \<times> 'v) list"
  art_ForEach :: "'t \<Rightarrow> (bool \<times> bytes) list"
  art_ForEachPrefix :: "'t \<Rightarrow> bytes \<Rightarrow> (bool \<times> bytes) list"

subsection \<open>The wrapper\<close>

definition NewART :: "('t, 'v) art \<Rightarrow> 't" where
  "NewART A = art_New A"

definition ART_Get :: "('t, 'v) art \<Rightarrow> 't \<Rightarrow> bytes \<Rightarrow> 'v option" where
  "ART_Get A t key = art_Search A t key"

definition ART_Put :: "('t, 'v) art \<Rightarrow> 't \<Rightarrow> bytes \<Rightarrow> 'v \<Rightarrow> 't \<times> 'v option \<times> bool" where
  "ART_Put A t key value = art_Insert A t key value"

definition ART_Delete :: "('t, 'v) art \<Rightarrow> 't \<Rightarrow> bytes \<Rightarrow> 't \<times> 'v option \<times> bool" where
  "ART_Delete A t key = art_Delete A t key"

definition ART_Size :: "('t, 'v) art \<Rightarrow> 't \<Rightarrow> nat" where
  "ART_Size A t = art_Size A t"

definition ART_Iterator :: "('t, 'v) art \<Rightarrow> 't \<Rightarrow> (bytes \<times> 'v) list" where
  "ART_Iterator A t = art_Iterator A t"

text \<open>
  The callback of \<open>PrefixScan\<close> run over the visited nodes (is it a leaf, its key): it skips
  inner nodes, stops the traversal when the count is used up, and never stops it for a
  negative count.
\<close>

fun scan_cb :: "(bool \<times> bytes) list \<Rightarrow> int \<Rightarrow> bytes list" where
  "scan_cb [] count = []"
| "scan_cb ((leaf, key) # ns) count =
     (if \<not> leaf then scan_cb ns count
      else if count = 0 then []
      else key # scan_cb ns (if 0 < count then count - 1 else count))"

definition ART_PrefixScan :: "('t, 'v) art \<Rightarrow> 't \<Rightarrow> bytes \<Rightarrow> int \<Rightarrow> bytes list" where
  "ART_PrefixScan A t pre count =
     (if length pre = 0 then scan_cb (art_ForEach A t) count
      else scan_cb (art_ForEachPrefix A t pre) count)"

subsection \<open>Contracts\<close>

definition has_prefix :: "bytes \<Rightarrow> bytes \<Rightarrow> bool" where
  "has_prefix p k \<longleftrightarrow> take (length p) k = p"

locale art_engine =
  fixes A :: "('t, 'v) art"
  assumes search_new: "art_Search A (art_New A) k = None"
    and insert_search:
      "art_Insert A t k v = (t', old, upd) \<Longrightarrow> art_Search A t' = (art_Search A t)(k \<mapsto> v)"
    and insert_old:
      "art_Insert A t k v = (t', old, upd) \<Longrightarrow> old = art_Search A t k \<and> (upd \<longleftrightarrow> art_Search A t k \<noteq> None)"
    and delete_search:
      "art_Delete A t k = (t', old, upd) \<Longrightarrow> art_Search A t' = (art_Search A t)(k := None)"
    and delete_old:
      "art_Delete A t k = (t', old, upd) \<Longrightarrow> old = art_Search A t k \<and> (upd \<longleftrightarrow> art_Search A t k \<noteq> None)"
    and iter_sorted: "sorted (map fst (art_Iterator A t))" "distinct (map fst (art_Iterator A t))"
    and iter_search: "(k, v) \<in> set (art_Iterator A t) \<longleftrightarrow> art_Search A t k = Some v"
    and size_iter: "art_Size A t = length (art_Iterator A t)"
    and foreach: "map snd (filter fst (art_ForEach A t)) = map fst (art_Iterator A t)"
    and foreach_prefix:
      "map snd (filter fst (art_ForEachPrefix A t p)) = filter (has_prefix p) (map fst (art_Iterator A t))"

locale ordered_index =
  fixes new :: 't
    and get :: "'t \<Rightarrow> bytes \<Rightarrow> 'v option"
    and put :: "'t \<Rightarrow> bytes \<Rightarrow> 'v \<Rightarrow> 't \<times> 'v option \<times> bool"
    and del :: "'t \<Rightarrow> bytes \<Rightarrow> 't \<times> 'v option \<times> bool"
    and siz :: "'t \<Rightarrow> nat"
    and iter :: "'t \<Rightarrow> (bytes \<times> 'v) list"
    and scan :: "'t \<Rightarrow> bytes \<Rightarrow> int \<Rightarrow> bytes list"
  assumes get_new: "get new k = None"
    and put_get: "get (fst (put t k v)) = (get t)(k \<mapsto> v)"
    and put_old: "snd (put t k v) = (get t k, get t k \<noteq> None)"
    and del_get: "get (fst (del t k)) = (get t)(k := None)"
    and del_old: "snd (del t k) = (get t k, get t k \<noteq> None)"
    and iter_ok: "sorted (map fst (iter t))" "distinct (map fst (iter t))" "map_of (iter t) = get t"
    and siz_ok: "siz t = card (dom (get t))"
    and scan_ok: "scan t p n =
      (if n < 0 then filter (has_prefix p) (map fst (iter t))
       else take (nat n) (filter (has_prefix p) (map fst (iter t))))"
begin

lemma put_eq: "put t k v = (fst (put t k v), get t k, get t k \<noteq> None)"
  using put_old [of t k v] by (metis prod.collapse)

lemma del_eq: "del t k = (fst (del t k), get t k, get t k \<noteq> None)"
  using del_old [of t k] by (metis prod.collapse)

lemma finite_get: "finite (dom (get t))"
  by (metis finite_dom_map_of iter_ok(3))

lemma iter_get: "(k, v) \<in> set (iter t) \<longleftrightarrow> get t k = Some v"
  using iter_ok(2,3) [of t] by (metis map_of_eq_Some_iff)

lemma iter_keys: "set (map fst (iter t)) = dom (get t)"
  by (metis dom_map_of_conv_image_fst iter_ok(3) list.set_map)

lemma iter_sorted_keys: "map fst (iter t) = sorted_list_of_set (dom (get t))"
  using sorted_list_of_set.idem_if_sorted_distinct [OF iter_ok(1,2) [of t]] iter_keys [of t] by simp

lemma siz_new: "siz new = 0"
  by (simp add: siz_ok get_new dom_def)

lemma siz_put: "siz (fst (put t k v)) = (if get t k = None then siz t + 1 else siz t)"
proof (cases "get t k")
  case None
  then show ?thesis using finite_get [of t] by (simp add: siz_ok put_get domIff)
next
  case (Some w)
  then have "insert k (dom (get t)) = dom (get t)" by auto
  with Some show ?thesis by (simp add: siz_ok put_get)
qed

end

subsection \<open>The wrapper satisfies its contract\<close>

lemma scan_cb_eq:
  "scan_cb ns n = (let ks = map snd (filter fst ns) in if n < 0 then ks else take (nat n) ks)"
proof (induction ns n rule: scan_cb.induct)
  case (2 leaf key ns count)
  show ?case
  proof (cases "leaf \<and> 0 < count")
    case True
    then obtain m where "nat count = Suc m" "nat (count - 1) = m"
      by (metis Suc_nat_eq_nat_zadd1 diff_add_cancel diff_ge_0_iff_ge int_one_le_iff_zero_less add.commute)
    then show ?thesis using 2 True by (simp add: Let_def)
  next
    case False
    then show ?thesis using 2 by (auto simp: Let_def)
  qed
qed simp

sublocale art_engine \<subseteq> idx: ordered_index "NewART A" "ART_Get A" "ART_Put A" "ART_Delete A"
  "ART_Size A" "ART_Iterator A" "ART_PrefixScan A"
proof unfold_locales
  fix t k v p n
  have d: "distinct (map fst (art_Iterator A t))" by (rule iter_sorted)
  show "ART_Get A (NewART A) k = None" by (simp add: ART_Get_def NewART_def search_new)
  obtain t' old upd where i: "art_Insert A t k v = (t', old, upd)" by (cases "art_Insert A t k v")
  show "ART_Get A (fst (ART_Put A t k v)) = (ART_Get A t)(k \<mapsto> v)"
    using insert_search [OF i] by (simp add: ART_Get_def ART_Put_def i fun_eq_iff)
  show "snd (ART_Put A t k v) = (ART_Get A t k, ART_Get A t k \<noteq> None)"
    using insert_old [OF i] by (simp add: ART_Get_def ART_Put_def i)
  obtain t2 old2 upd2 where dl: "art_Delete A t k = (t2, old2, upd2)" by (cases "art_Delete A t k")
  show "ART_Get A (fst (ART_Delete A t k)) = (ART_Get A t)(k := None)"
    using delete_search [OF dl] by (simp add: ART_Get_def ART_Delete_def dl fun_eq_iff)
  show "snd (ART_Delete A t k) = (ART_Get A t k, ART_Get A t k \<noteq> None)"
    using delete_old [OF dl] by (simp add: ART_Get_def ART_Delete_def dl)
  show "sorted (map fst (ART_Iterator A t))" "distinct (map fst (ART_Iterator A t))"
    by (simp_all add: ART_Iterator_def iter_sorted)
  show m: "map_of (ART_Iterator A t) = ART_Get A t"
  proof
    fix x
    show "map_of (ART_Iterator A t) x = ART_Get A t x"
    proof (cases "ART_Get A t x")
      case (Some y)
      then have "(x, y) \<in> set (art_Iterator A t)" by (simp add: iter_search ART_Get_def)
      with d Some show ?thesis by (simp add: ART_Iterator_def)
    next
      case None
      then have "x \<notin> fst ` set (art_Iterator A t)" by (auto simp: iter_search ART_Get_def)
      with None show ?thesis by (simp add: ART_Iterator_def map_of_eq_None_iff)
    qed
  qed
  have "card (set (map fst (art_Iterator A t))) = length (art_Iterator A t)"
    using distinct_card [OF d] by simp
  then show "ART_Size A t = card (dom (ART_Get A t))"
    using m by (metis ART_Iterator_def ART_Size_def dom_map_of_conv_image_fst list.set_map size_iter)
  have hp: "has_prefix [] = (\<lambda>_. True)" by (simp add: has_prefix_def fun_eq_iff)
  show "ART_PrefixScan A t p n =
      (if n < 0 then filter (has_prefix p) (map fst (ART_Iterator A t))
       else take (nat n) (filter (has_prefix p) (map fst (ART_Iterator A t))))"
    by (simp add: ART_PrefixScan_def ART_Iterator_def scan_cb_eq foreach foreach_prefix Let_def hp)
qed

subsection \<open>An engine\<close>

definition rbt_art :: "((bytes, 'v) rbt, 'v) art" where
  "rbt_art =
     \<lparr>art_New = RBT.empty,
      art_Search = RBT.lookup,
      art_Insert = (\<lambda>t k v. (RBT.insert k v t, RBT.lookup t k, RBT.lookup t k \<noteq> None)),
      art_Delete = (\<lambda>t k. (RBT.delete k t, RBT.lookup t k, RBT.lookup t k \<noteq> None)),
      art_Size = (\<lambda>t. length (RBT.entries t)),
      art_Iterator = RBT.entries,
      art_ForEach = (\<lambda>t. map (\<lambda>(k, v). (True, k)) (RBT.entries t)),
      art_ForEachPrefix = (\<lambda>t p. map (\<lambda>(k, v). (True, k)) (filter (\<lambda>(k, v). has_prefix p k) (RBT.entries t)))\<rparr>"

interpretation rbt_engine: art_engine "rbt_art :: ((bytes, 'v) rbt, 'v) art"
proof unfold_locales
  fix t :: "(bytes, 'v) rbt" and p
  show "sorted (map fst (art_Iterator rbt_art t))" "distinct (map fst (art_Iterator rbt_art t))"
    by (simp_all add: rbt_art_def RBT.sorted_entries RBT.distinct_entries)
  show "map snd (filter fst (art_ForEach rbt_art t)) = map fst (art_Iterator rbt_art t)"
    by (simp add: rbt_art_def filter_map o_def case_prod_beta)
  show "map snd (filter fst (art_ForEachPrefix rbt_art t p)) =
      filter (has_prefix p) (map fst (art_Iterator rbt_art t))"
    by (simp add: rbt_art_def filter_map o_def case_prod_beta)
qed (auto simp: rbt_art_def RBT.lookup_in_tree)

lemma art_engine_rbt: "art_engine (rbt_art :: ((bytes, 'v) rbt, 'v) art)"
  by (rule rbt_engine.art_engine_axioms)

end
