(* ===== verification/DB_Index.thy ===== *)
theory DB_Index
  imports DB_Store Art_Index
begin

text \<open>
  The database state and the operations that every data type shares: \<open>getValue\<close> and
  \<open>updateIndexTree\<close> of \<open>index.go\<close>, the key encoding of \<open>db.go\<close>.

  The contract of these operations is a refinement: an index tree together with the log
  behind it stands for a map from keys to items, a value with its expiry time. \<open>index_rel\<close>
  relates the two; \<open>getValue\<close> looks the key up in the map, a log write followed by
  \<open>updateIndexTree\<close> updates it, and no write changes the map of any other tree.
  The locale \<open>value_index\<close> holds these lemmas for every index engine.
\<close>

subsection \<open>State\<close>

record ('t, 's) ZSetIndex =
  z_tree :: 't
  z_skl :: 's

record ('t, 's) LazyDB =
  store :: Store
  strIndex :: 't
  hashIndex :: "bytes \<Rightarrow> 't option"
  listIndex :: "bytes \<Rightarrow> 't option"
  setIndex :: "bytes \<Rightarrow> 't option"
  zSetIndex :: "bytes \<Rightarrow> ('t, 's) ZSetIndex option"

text \<open>
  The clock is an argument of the operations that read it, in nanoseconds;
  \<open>time.Now().Unix()\<close> is its value in seconds.
\<close>

definition Unix :: "int \<Rightarrow> i64" where
  "Unix now = word_of_int (now div 10 ^ 9)"

text \<open>A log entry with the given fields, the others zero.\<close>

definition mk_entry :: "bytes \<Rightarrow> slice \<Rightarrow> LogEntry" where
  "mk_entry key value = empty_entry\<lparr>Key := key, Value := value\<rparr>"

definition del_entry :: "bytes \<Rightarrow> LogEntry" where
  "del_entry key = empty_entry\<lparr>Key := key, Stat := SDelete\<rparr>"

subsection \<open>Keys of hash fields and sorted-set members\<close>

definition encodeHeaderSize :: nat where
  "encodeHeaderSize = 10"

definition encodeKey :: "bytes \<Rightarrow> bytes \<Rightarrow> bytes result" where
  "encodeKey key subKey =
     (case put_varints (replicate encodeHeaderSize 0) 0
             [word_of_nat (length key), word_of_nat (length subKey)] of
        Inl e \<Rightarrow> Inl e
      | Inr (header, index) \<Rightarrow>
          if 0 < length key + length subKey then Inr (take index header @ key @ subKey)
          else Inr (take index header))"

definition decodeKey :: "bytes \<Rightarrow> (bytes \<times> bytes) result" where
  "decodeKey encodedKey =
     (case get_varint encodedKey 0 of Inl e \<Rightarrow> Inl e | Inr (keyLen, i1) \<Rightarrow>
     (case get_varint encodedKey i1 of Inl e \<Rightarrow> Inl e | Inr (_, i2) \<Rightarrow>
        (let hi = i2 + sint keyLen
         in if 0 \<le> i2 \<and> i2 \<le> hi \<and> hi \<le> int (length encodedKey)
            then Inr (take (nat (sint keyLen)) (drop (nat i2) encodedKey), drop (nat hi) encodedKey)
            else Inl Panic)))"

subsection \<open>Operations on an index tree\<close>

definition getValue ::
    "('t, Value_t) art \<Rightarrow> int \<Rightarrow> 't \<Rightarrow> bytes \<Rightarrow> valueType \<Rightarrow> Store \<Rightarrow> slice result" where
  "getValue A now idxTree key vt st =
     (case ART_Get A idxTree key of
        None \<Rightarrow> Inl ErrKeyNotFound
      | Some val \<Rightarrow>
          (let ts = Unix now
           in if v_expiredAt val \<noteq> 0 \<and> sint (v_expiredAt val) < sint ts then Inl ErrKeyNotFound
              else case readLogEntry vt (v_fid val) (v_offset val) st of
                     Inl e \<Rightarrow> Inl e
                   | Inr ent \<Rightarrow>
                       if Stat ent = SDelete \<or> (ExpiredAt ent \<noteq> 0 \<and> sint (ExpiredAt ent) < sint ts)
                       then Inl ErrKeyNotFound else Inr (Value ent)))"

definition updateIndexTree ::
    "('t, Value_t) art \<Rightarrow> valueType \<Rightarrow> 't \<Rightarrow> LogEntry \<Rightarrow> ValuePos \<Rightarrow> bool \<Rightarrow> Store
       \<Rightarrow> unit result \<times> 't \<times> Store" where
  "updateIndexTree A vt idxTree entry vPos sendD st =
     (case (if vt = valueTypeString \<or> vt = valueTypeList then map_sum id (int \<circ> snd) (EncodeEntry (Some entry))
            else Inr (vp_entrySize vPos)) of
        Inl e \<Rightarrow> (Inl e, idxTree, st)
      | Inr siz \<Rightarrow>
          (let idxNode = \<lparr>v_value = None, v_vType = valueTypeString, v_fid = vp_fid vPos,
                 v_offset = vp_offset vPos, v_entrySize = siz,
                 v_expiredAt = (if ExpiredAt entry \<noteq> 0 then ExpiredAt entry else 0)\<rparr>
           in case ART_Put A idxTree (Key entry) idxNode of
                (t', oldVal, updated) \<Rightarrow>
                  if sendD
                  then (case sendDiscard oldVal updated vt st of (r, st') \<Rightarrow> (r, t', st'))
                  else (Inr (), t', st)))"

text \<open>
  The three lines that every update consists of: write the entry, return on an error, update
  the index tree.
\<close>

definition put_entry ::
    "('t, Value_t) art \<Rightarrow> valueType \<Rightarrow> 't \<Rightarrow> LogEntry \<Rightarrow> bool \<Rightarrow> Store \<Rightarrow> unit result \<times> 't \<times> Store" where
  "put_entry A vt t entry sendD st =
     (case writeLogEntry vt entry st of
        (Inl e, st1) \<Rightarrow> (Inl e, t, st1)
      | (Inr pos, st1) \<Rightarrow> updateIndexTree A vt t entry pos sendD st1)"

text \<open>
  The end of every deletion: report the entry that the key referred to, then the delete entry
  itself.
\<close>

definition report_deleted ::
    "valueType \<Rightarrow> Value_t option \<Rightarrow> bool \<Rightarrow> LogEntry \<Rightarrow> ValuePos \<Rightarrow> Store \<Rightarrow> unit result \<times> Store" where
  "report_deleted vt delVal updated entry pos st =
     (case sendDiscard delVal updated vt st of
        (Inl e, st1) \<Rightarrow> (Inl e, st1)
      | (Inr _, st1) \<Rightarrow>
          (case EncodeEntry (Some entry) of
             Inl e \<Rightarrow> (Inl e, st1)
           | Inr (_, siz) \<Rightarrow>
               st_send vt \<lparr>v_value = None, v_vType = valueTypeString, v_fid = vp_fid pos,
                 v_offset = 0, v_entrySize = int siz, v_expiredAt = 0\<rparr> st1))"

text \<open>
  The lines shared by \<open>Delete\<close>, \<open>GetDel\<close> and \<open>HDel\<close>: write a delete entry, remove the key
  from the index and report both entries as discarded. Also returns whether the key was there.
\<close>

definition del_key ::
    "('t, Value_t) art \<Rightarrow> valueType \<Rightarrow> 't \<Rightarrow> bytes \<Rightarrow> Store \<Rightarrow> bool result \<times> 't \<times> Store" where
  "del_key A vt t key st =
     (let entry = del_entry key
      in case writeLogEntry vt entry st of
           (Inl e, st1) \<Rightarrow> (Inl e, t, st1)
         | (Inr pos, st1) \<Rightarrow>
             (case ART_Delete A t key of
                (t', delVal, updated) \<Rightarrow>
                  (case report_deleted vt delVal updated entry pos st1 of
                     (Inl e, st2) \<Rightarrow> (Inl e, t', st2)
                   | (Inr _, st2) \<Rightarrow> (Inr updated, t', st2))))"

subsection \<open>The key encoding\<close>

definition encoded :: "bytes \<Rightarrow> bytes \<Rightarrow> bytes" where
  "encoded key subKey =
     PutVarint (word_of_nat (length key)) @ PutVarint (word_of_nat (length subKey)) @ key @ subKey"

lemma encodeKey_encoded:
  assumes "length key < 2 ^ 32" "length subKey < 2 ^ 32"
  shows "encodeKey key subKey = Inr (encoded key subKey)"
proof -
  let ?v = "PutVarint (word_of_nat (length key)) @ PutVarint (word_of_nat (length subKey))"
  have "length (PutVarint (word_of_nat (length key))) \<le> 5" "length (PutVarint (word_of_nat (length subKey))) \<le> 5"
    using assms by (intro length_PutVarint_of_nat; simp)+
  then have le: "length ?v \<le> 10" by simp
  then have "take (length ?v) (write_at (replicate 10 0) 0 ?v) = ?v"
    by (cases "?v = []") (simp_all add: write_at_def Let_def)
  with le show ?thesis
    using put_varints_spec [of 0 "replicate 10 0" "[word_of_nat (length key), word_of_nat (length subKey)]"]
    by (cases "key = [] \<and> subKey = []") (auto simp: encodeKey_def encodeHeaderSize_def encoded_def)
qed

lemma decodeKey_encoded:
  assumes "length key < 2 ^ 32"
  shows "decodeKey (encoded key subKey) = Inr (key, subKey)"
proof -
  let ?a = "PutVarint (word_of_nat (length key))" and ?b = "PutVarint (word_of_nat (length subKey))"
  have s: "sint (word_of_nat (length key) :: i64) = int (length key)"
    using assms by (intro sint_word_of_nat) simp
  have g1: "get_varint (encoded key subKey) 0 = Inr (word_of_nat (length key), int (length ?a))"
    using get_varint_append [of "[]"] by (simp add: encoded_def)
  have g2: "get_varint (encoded key subKey) (int (length ?a)) =
      Inr (word_of_nat (length subKey), int (length ?a + length ?b))"
    using get_varint_append [of ?a "word_of_nat (length subKey)" "key @ subKey"] by (simp add: encoded_def)
  have n: "nat (int (length ?a + length ?b)) = length ?a + length ?b" by simp
  have n2: "nat (int (length ?a + length ?b) + int (length key)) = length ?a + length ?b + length key" by simp
  have d: "drop (length ?a + length ?b) (encoded key subKey) = key @ subKey"
    by (simp add: encoded_def)
  then have d2: "drop (length ?a + length ?b + length key) (encoded key subKey) = subKey"
    by (metis add.commute append_eq_conv_conj drop_drop)
  have len: "length (encoded key subKey) = length ?a + length ?b + length key + length subKey"
    by (simp add: encoded_def)
  show ?thesis
    unfolding decodeKey_def g1 g2 sum.case prod.case Let_def s n n2 d d2 len by simp
qed

lemma encoded_inj:
  assumes "length k < 2 ^ 32" "length k' < 2 ^ 32"
  shows "encoded k f = encoded k' f' \<longleftrightarrow> k = k' \<and> f = f'"
proof
  assume "encoded k f = encoded k' f'"
  then have "(Inr (k, f) :: (bytes \<times> bytes) result) = Inr (k', f')"
    unfolding decodeKey_encoded [OF assms(1), symmetric] decodeKey_encoded [OF assms(2), symmetric] by (rule arg_cong)
  then show "k = k' \<and> f = f'" by simp
qed simp

lemma encoded_not_Nil [simp]: "encoded k f \<noteq> []"
  by (simp add: encoded_def)

subsection \<open>Entries that can be written\<close>

lemma mk_entry_simps [simp]:
  "Key (mk_entry k v) = k" "Value (mk_entry k v) = v" "ExpiredAt (mk_entry k v) = 0" "Stat (mk_entry k v) = 0"
  "TxID (mk_entry k v) = 0" "TxStat (mk_entry k v) = 0"
  by (simp_all add: mk_entry_def empty_entry_def)

lemma del_entry_simps [simp]:
  "Key (del_entry k) = k" "Value (del_entry k) = None" "ExpiredAt (del_entry k) = 0" "Stat (del_entry k) = SDelete"
  "TxID (del_entry k) = 0" "TxStat (del_entry k) = 0"
  by (simp_all add: del_entry_def empty_entry_def)

lemma EncodeEntry_encodable: "encodable le \<Longrightarrow> EncodeEntry (Some le) = Inr (entry_bytes le, entry_size le)"
  by (simp add: encodable_def EncodeEntry_Some)

lemma encodable_plain:
  assumes "ExpiredAt le = 0" "TxID le = 0" "TxStat le = 0" "Key le \<noteq> []"
    "length (Key le) < 2 ^ 32" "length (bs (Value le)) < 2 ^ 32"
  shows "encodable le"
  using plain_header_fits [of le] assms by (simp add: encodable_def MaxHeaderSize_def)

lemma encodable_mk [simp]:
  "encodable (mk_entry k v) \<longleftrightarrow> k \<noteq> [] \<and> length k < 2 ^ 32 \<and> length (bs v) < 2 ^ 32"
  using encodable_plain [of "mk_entry k v"] by (auto simp: encodable_def)

lemma encodable_del [simp]: "encodable (del_entry k) \<longleftrightarrow> k \<noteq> [] \<and> length k < 2 ^ 32"
  using encodable_plain [of "del_entry k"] by (auto simp: encodable_def)

subsection \<open>What an index stands for\<close>

text \<open>A value and its expiry time in seconds; zero for none.\<close>

type_synonym item = "bytes \<times> i64"

definition live :: "i64 \<Rightarrow> item \<Rightarrow> bool" where
  "live ts x \<longleftrightarrow> snd x = 0 \<or> sint ts \<le> sint (snd x)"

definition lookup_item :: "i64 \<Rightarrow> (bytes \<Rightarrow> item option) \<Rightarrow> bytes \<Rightarrow> slice result" where
  "lookup_item ts m k =
     (case m k of
        None \<Rightarrow> Inl ErrKeyNotFound
      | Some x \<Rightarrow> if live ts x then Inr (Some (fst x)) else Inl ErrKeyNotFound)"

text \<open>
  The log entry that an index node refers to. Members of a set are indexed by their hash, all
  other entries by their own key.
\<close>

definition refers :: "Store \<Rightarrow> valueType \<Rightarrow> bytes \<Rightarrow> Value_t \<Rightarrow> item \<Rightarrow> bool" where
  "refers st vt k v x \<longleftrightarrow>
     (\<exists>ls le. log_view st vt ls \<and> (v_fid v, v_offset v, le) \<in> set ls \<and> (vt = valueTypeSet \<or> Key le = k) \<and>
        bs (Value le) = fst x \<and> ExpiredAt le = snd x \<and> Stat le \<noteq> SDelete \<and> v_entrySize v = int (entry_size le))"

definition points :: "Store \<Rightarrow> valueType \<Rightarrow> bytes \<Rightarrow> Value_t \<Rightarrow> item \<Rightarrow> bool" where
  "points st vt k v x \<longleftrightarrow> v_expiredAt v = snd x \<and> refers st vt k v x"

definition index_rel ::
    "('t, Value_t) art \<Rightarrow> Store \<Rightarrow> valueType \<Rightarrow> 't \<Rightarrow> (bytes \<Rightarrow> item option) \<Rightarrow> bool" where
  "index_rel A st vt t m \<longleftrightarrow> (\<forall>k. rel_option (points st vt k) (ART_Get A t k) (m k))"

text \<open>The invariant of the log path, with a log behind every type.\<close>

definition store_inv :: "Store \<Rightarrow> bool" where
  "store_inv st \<longleftrightarrow> base_inv st \<and> (\<forall>vt. \<exists>ls. log_view st vt ls)"

text \<open>When an entry can be written and read back, and when the channel takes \<open>n\<close> messages.\<close>

definition put_ok :: "Store \<Rightarrow> valueType \<Rightarrow> LogEntry \<Rightarrow> bool" where
  "put_ok st vt le \<longleftrightarrow> encodable le \<and> can_write st vt (entry_size le) \<and> fits st vt (entry_size le)"

definition chan_room :: "Store \<Rightarrow> valueType \<Rightarrow> nat \<Rightarrow> bool" where
  "chan_room st vt n \<longleftrightarrow> \<not> chanClosed (discardsMap st vt) \<and>
     length (valChan (discardsMap st vt)) + n \<le> chanCap (discardsMap st vt)"

text \<open>What a step keeps of the log, and which messages it sends.\<close>

definition store_ext :: "valueType \<Rightarrow> Store \<Rightarrow> Store \<Rightarrow> bool" where
  "store_ext vt st st' \<longleftrightarrow> others_same vt st st' \<and>
     (\<forall>ls. log_view st vt ls \<longrightarrow> (\<exists>ps. log_view st' vt (ls @ ps))) \<and> (tracked st vt \<longrightarrow> tracked st' vt)"

definition chan_upd :: "valueType \<Rightarrow> Value_t list \<Rightarrow> Store \<Rightarrow> Store \<Rightarrow> bool" where
  "chan_upd vt ns st st' \<longleftrightarrow>
     (\<forall>t. chanClosed (discardsMap st' t) = chanClosed (discardsMap st t) \<and>
        chanCap (discardsMap st' t) = chanCap (discardsMap st t) \<and>
        valChan (discardsMap st' t) = valChan (discardsMap st t) @ (if t = vt then ns else []))"

lemma store_le_ext:
  assumes "store_le st st'" "others_same vt st st'" "\<And>ls. log_view st vt ls \<Longrightarrow> log_view st' vt (ls @ [x])"
  shows "store_ext vt st st'" "chan_upd vt [] st st'"
  using assms unfolding store_le_def store_ext_def chan_upd_def same_chan_def by (blast, simp)

lemma store_ext_refl [simp]: "store_ext vt st st"
  unfolding store_ext_def by (auto intro: exI [of _ "[]"])

lemma store_ext_trans: "store_ext vt a b \<Longrightarrow> store_ext vt b c \<Longrightarrow> store_ext vt a c"
  unfolding store_ext_def using others_same_trans [of vt a b c] by (metis append_assoc)

lemma store_ext_log:
  assumes "store_ext vt st st'"
  shows "log_view st t ls \<Longrightarrow> \<exists>ps. log_view st' t (ls @ ps)" "t \<noteq> vt \<Longrightarrow> log_view st' t ls = log_view st t ls"
proof -
  show o: "t \<noteq> vt \<Longrightarrow> log_view st' t ls = log_view st t ls"
    using assms by (simp add: store_ext_def log_view_other [of vt])
  show "log_view st t ls \<Longrightarrow> \<exists>ps. log_view st' t (ls @ ps)"
    using assms o by (cases "t = vt") (auto simp: store_ext_def intro: exI [of _ "[]"])
qed

lemma store_ext_tracked:
  assumes "store_ext vt st st'" "tracked st t"
  shows "tracked st' t"
  using assms by (cases "t = vt") (auto simp: store_ext_def tracked_def others_same_def)

text \<open>A step on one type leaves the resources of the others alone.\<close>

lemma store_ext_room:
  assumes "store_ext vt st st'" "t \<noteq> vt"
  shows "capacity st' t n = capacity st t n" "chan_room st' t n = chan_room st t n"
proof -
  have "active st' t = active st t" "discardsMap st' t = discardsMap st t"
    using assms by (simp_all add: store_ext_def others_same_def)
  then show "capacity st' t n = capacity st t n" "chan_room st' t n = chan_room st t n"
    by (simp_all add: capacity_def chan_room_def split: option.split)
qed

lemma chan_upd_refl [simp]: "chan_upd vt [] st st"
  by (simp add: chan_upd_def)

lemma chan_upd_trans: "chan_upd vt ns a b \<Longrightarrow> chan_upd vt ns' b c \<Longrightarrow> chan_upd vt (ns @ ns') a c"
  by (auto simp: chan_upd_def)

lemma chan_upd_room: "chan_upd vt ns st st' \<Longrightarrow> chan_room st vt (length ns + n) \<Longrightarrow> chan_room st' vt n"
  by (simp add: chan_upd_def chan_room_def)

lemma chan_room_le: "chan_room st vt n \<Longrightarrow> m \<le> n \<Longrightarrow> chan_room st vt m"
  by (simp add: chan_room_def)

text \<open>A step that takes at most \<open>n\<close> entries of the log and \<open>m\<close> places in the channel of its type.\<close>

definition chan_grows :: "nat \<Rightarrow> discard \<Rightarrow> discard \<Rightarrow> bool" where
  "chan_grows m d d' \<longleftrightarrow> chanCap d' = chanCap d \<and> chanClosed d' = chanClosed d \<and> length (valChan d') \<le> length (valChan d) + m"

definition spends :: "valueType \<Rightarrow> nat \<Rightarrow> nat \<Rightarrow> Store \<Rightarrow> Store \<Rightarrow> bool" where
  "spends vt n m st st' \<longleftrightarrow> store_ext vt st st' \<and> (\<forall>k. capacity st vt (n + k) \<longrightarrow> capacity st' vt k) \<and>
     chan_grows m (discardsMap st vt) (discardsMap st' vt)"

lemma spendsD:
  assumes "spends vt n m st st'"
  shows "store_ext vt st st'" "capacity st vt (n + k) \<Longrightarrow> capacity st' vt k" "chan_grows m (discardsMap st vt) (discardsMap st' vt)"
  using assms by (simp_all add: spends_def)

lemma spends_refl [simp]: "spends vt n m st st"
  using capacity_le [of st vt] by (auto simp: spends_def chan_grows_def)

lemma spends_trans: "spends vt n m a b \<Longrightarrow> spends vt n' m' b c \<Longrightarrow> spends vt (n + n') (m + m') a c"
  using store_ext_trans [of vt a b c] by (simp add: spends_def chan_grows_def add.assoc)

lemma spends_le: "spends vt n m st st' \<Longrightarrow> n \<le> n' \<Longrightarrow> m \<le> m' \<Longrightarrow> spends vt n' m' st st'"
  using capacity_le [of st vt] by (auto simp: spends_def chan_grows_def)

lemma spends_write:
  assumes "store_ext vt st st'" "chan_upd vt ns st st'" "\<And>n. capacity st vt (Suc n) \<Longrightarrow> capacity st' vt n"
  shows "spends vt 1 (length ns) st st'"
  using assms by (simp add: spends_def chan_upd_def chan_grows_def)

text \<open>What a step leaves, of its own type and of the others.\<close>

lemma spends_room:
  assumes "spends vt n m st st'"
  shows "capacity st t ((if t = vt then n else 0) + k) \<Longrightarrow> capacity st' t k"
    "chan_grows (if t = vt then m else 0) (discardsMap st t) (discardsMap st' t)" "tracked st t \<Longrightarrow> tracked st' t"
proof -
  have o: "discardsMap st' t = discardsMap st t" if "t \<noteq> vt"
    using that spendsD(1) [OF assms] by (simp_all add: store_ext_def others_same_def)
  show "capacity st t ((if t = vt then n else 0) + k) \<Longrightarrow> capacity st' t k"
    using spendsD(2) [OF assms] store_ext_room(1) [OF spendsD(1) [OF assms], of t k] by (cases "t = vt") simp_all
  show "chan_grows (if t = vt then m else 0) (discardsMap st t) (discardsMap st' t)"
    using spendsD(3) [OF assms] o by (cases "t = vt") (auto simp: chan_grows_def)
  show "tracked st t \<Longrightarrow> tracked st' t" by (rule store_ext_tracked [OF spendsD(1) [OF assms]])
qed

lemma refers_ext:
  assumes "store_ext vt' st st'" "refers st vt k v x"
  shows "refers st' vt k v x"
proof -
  obtain ls le where ls: "log_view st vt ls" "(v_fid v, v_offset v, le) \<in> set ls" "vt = valueTypeSet \<or> Key le = k"
    "bs (Value le) = fst x" "ExpiredAt le = snd x" "Stat le \<noteq> SDelete" "v_entrySize v = int (entry_size le)"
    using assms(2) by (auto simp: refers_def)
  obtain ps where "log_view st' vt (ls @ ps)" using store_ext_log(1) [OF assms(1) ls(1)] by blast
  then show ?thesis using ls(2-7) unfolding refers_def by (intro exI [of _ "ls @ ps"] exI [of _ le]) simp
qed

lemma index_rel_ext: "index_rel A st vt t m \<Longrightarrow> store_ext vt' st st' \<Longrightarrow> index_rel A st' vt t m"
  unfolding index_rel_def points_def using refers_ext [of vt' st st' vt] by (smt (verit) option.rel_mono_strong)

lemma store_inv_log: "store_inv st \<Longrightarrow> \<exists>L. logged st vt L"
  unfolding store_inv_def log_view_def by blast

lemma store_inv_ext: "base_inv st' \<Longrightarrow> store_inv st \<Longrightarrow> store_ext vt st st' \<Longrightarrow> store_inv st'"
  using store_ext_log(1) unfolding store_inv_def by metis

lemma index_rel_get:
  "index_rel A st vt t m \<Longrightarrow> ART_Get A t k = None \<longleftrightarrow> m k = None"
  unfolding index_rel_def by (metis option.rel_distinct(1,2) option.exhaust)

lemma index_rel_dom: "index_rel A st vt t m \<Longrightarrow> dom (ART_Get A t) = dom m"
  using index_rel_get [of A st vt t m] by (simp add: set_eq_iff domIff)

subsection \<open>Sending on the channel\<close>

lemma acc_discards [simp]:
  "active (st\<lparr>discardsMap := x\<rparr>) = active st" "archived (st\<lparr>discardsMap := x\<rparr>) = archived st"
  by (simp_all add: active_def archived_def fun_eq_iff)

lemma handle_discards [simp]: "handle (st\<lparr>discardsMap := x\<rparr>) = handle st"
  by (simp add: handle_def fun_eq_iff split: option.split)

lemma located_discards [simp]:
  "located (st\<lparr>discardsMap := x\<rparr>) = located st" "readable (st\<lparr>discardsMap := x\<rparr>) = readable st"
  by (simp_all add: located_def readable_def fun_eq_iff)

lemma logged_discards [simp]:
  "logged (st\<lparr>discardsMap := x\<rparr>) = logged st" "log_view (st\<lparr>discardsMap := x\<rparr>) = log_view st"
  "(\<forall>t. t \<noteq> vt \<longrightarrow> x t = discardsMap st t) \<Longrightarrow> others_same vt st (st\<lparr>discardsMap := x\<rparr>)"
  by (simp_all add: logged_def log_view_def others_same_def fun_eq_iff)

lemma discard_ok_chan [simp]: "discard_ok (d\<lparr>valChan := x\<rparr>) = discard_ok d"
  by (simp add: discard_ok_def discard_wf_def recorded_def)

lemma st_send_ok:
  assumes "store_inv st" "chan_room st vt 1" "contents (files st) vt (v_fid node) \<noteq> None"
  shows "\<exists>st'. st_send vt node st = (Inr (), st') \<and> store_inv st' \<and> store_ext vt st st' \<and> chan_upd vt [node] st st' \<and>
    (\<forall>t n. capacity st t n \<longrightarrow> capacity st' t n) \<and> log_view st' = log_view st \<and> files st' = files st"
proof -
  let ?st = "st\<lparr>discardsMap := (discardsMap st)(vt := discardsMap st vt\<lparr>valChan := valChan (discardsMap st vt) @ [node]\<rparr>)\<rparr>"
  have "base_inv ?st"
    by (rule base_inv_upd [where st = st and vt = vt]) (use assms in \<open>simp_all add: store_inv_def base_inv_def is_open_def\<close>)
  then have "store_inv ?st" using assms(1) by (simp add: store_inv_def)
  moreover have "tracked ?st vt" if "tracked st vt" using that assms(3) by (simp add: tracked_def)
  ultimately show ?thesis
    using assms by (auto simp: st_send_def chan_send_def chan_room_def store_ext_def chan_upd_def capacity_def
        intro: exI [of _ "[]"] split: option.splits)
qed

text \<open>The file of an entry in the log is there.\<close>

lemma log_view_contents:
  assumes "log_view st vt ls" "(f, off, le) \<in> set ls"
  shows "contents (files st) vt f \<noteq> None"
proof -
  obtain L where L: "logged st vt L" "ls = log_seq L" using assms(1) by (auto simp: log_view_def)
  obtain es where "(f, es) \<in> set L" using assms(2) positions_fid unfolding L(2) log_seq_def by fastforce
  then have "map_of L f \<noteq> None" using weak_map_of_SomeI by fastforce
  then show ?thesis using L(1) by (simp add: logged_def)
qed

text \<open>A full channel ends the process: nothing is reported and the operation does not return.\<close>

lemma st_send_full:
  assumes "\<not> chanClosed (discardsMap st vt)" "chanCap (discardsMap st vt) \<le> length (valChan (discardsMap st vt))"
  shows "st_send vt node st = (Inl Fatal, st)"
  using assms by (simp add: st_send_def chan_send_def)

subsection \<open>The shared operations on an index\<close>

text \<open>
  Resources for \<open>n\<close> more updates, and entries long enough to be readable anywhere in a file.
\<close>

definition ready :: "Store \<Rightarrow> valueType \<Rightarrow> nat \<Rightarrow> bool" where
  "ready st vt n \<longleftrightarrow> capacity st vt n \<and> chan_room st vt n"

definition roomy :: "LogEntry \<Rightarrow> bool" where
  "roomy le \<longleftrightarrow> encodable le \<and> MaxHeaderSize \<le> entry_size le"

lemma ready_put_ok: "ready st vt (Suc n) \<Longrightarrow> roomy le \<Longrightarrow> put_ok st vt le \<and> chan_room st vt 1"
  using capacity_can_write [of st vt n "entry_size le"]
  by (auto simp: ready_def roomy_def put_ok_def fits_def chan_room_def)

lemma header_size_ge: "10 \<le> header_size le"
proof -
  have "1 \<le> length (PutVarint x)" for x
    by (cases "PutVarint x") simp_all
  from this [of "ExpiredAt le"] this [of "TxID le"] this [of "ucast (TxStat le)"]
    this [of "word_of_nat (length (Key le))"] this [of "word_of_nat (length (bs (Value le)))"]
  show ?thesis by (simp add: header_size_def header_tail_def header_fields_def)
qed

lemma roomy_mk:
  assumes "k \<noteq> []" "length k < 2 ^ 32" "length (bs v) < 2 ^ 32" "15 \<le> length k + length (bs v)"
  shows "roomy (mk_entry k v)"
  using assms header_size_ge [of "mk_entry k v"] by (simp add: roomy_def entry_size_def MaxHeaderSize_def)

text \<open>An expiry time below \<open>2^55\<close> seconds leaves room for the rest of the header.\<close>

lemma roomy_expiry:
  assumes "k \<noteq> []" "length k < 2 ^ 32" "length (bs v) < 2 ^ 32" "15 \<le> length k + length (bs v)" "n < 2 ^ 55"
  shows "roomy ((mk_entry k v)\<lparr>ExpiredAt := word_of_nat n\<rparr>)"
proof -
  let ?le = "(mk_entry k v)\<lparr>ExpiredAt := word_of_nat n\<rparr>"
  have sel: "Key ?le = k" "Value ?le = v" "TxID ?le = 0" "TxStat ?le = 0" "ExpiredAt ?le = word_of_nat n"
    by (simp_all add: mk_entry_def empty_entry_def)
  have "PutVarint 0 = [0]"
    by (simp add: PutVarint_def zigzag_def PutUvarint_small)
  moreover have "length (PutVarint (word_of_nat n)) \<le> 8" "length (PutVarint (word_of_nat (length k))) \<le> 5"
    "length (PutVarint (word_of_nat (length (bs v)))) \<le> 5"
    using assms by (intro length_PutVarint_of_nat; simp)+
  ultimately have "header_size ?le \<le> MaxHeaderSize"
    by (simp add: header_size_def header_tail_def header_fields_def MaxHeaderSize_def sel)
  then show ?thesis
    using assms header_size_ge [of ?le] by (simp add: roomy_def encodable_def entry_size_def MaxHeaderSize_def sel)
qed

lemma roomy_del: "length k < 2 ^ 32 \<Longrightarrow> 15 \<le> length k \<Longrightarrow> roomy (del_entry k)"
  using header_size_ge [of "del_entry k"] by (auto simp: roomy_def entry_size_def MaxHeaderSize_def)

text \<open>The message about the entry that a key refers to, if there is one.\<close>

definition old_node :: "('t, Value_t) art \<Rightarrow> 't \<Rightarrow> bytes \<Rightarrow> Value_t list" where
  "old_node A t k = (case ART_Get A t k of None \<Rightarrow> [] | Some v \<Rightarrow> [v])"

lemma length_old_node: "length (old_node A t k) \<le> 1"
  by (simp add: old_node_def split: option.split)

text \<open>A write: the entry is the next one in the log of its type, in the file that is now active.\<close>

lemma log_write:
  assumes inv: "store_inv st" and ok: "put_ok st vt le"
  shows "\<exists>pos st'. writeLogEntry vt le st = (Inr pos, st') \<and> store_inv st' \<and> store_ext vt st st' \<and> chan_upd vt [] st st' \<and>
    vp_entrySize pos = int (entry_size le) \<and> (\<forall>n. capacity st vt (Suc n) \<longrightarrow> capacity st' vt n) \<and>
    (\<forall>ls. log_view st vt ls \<longrightarrow> log_view st' vt (ls @ [(vp_fid pos, vp_offset pos, le)])) \<and>
    (\<exists>lf. active st' vt = Some lf \<and> Fid lf = vp_fid pos) \<and> contents (files st') vt (vp_fid pos) \<noteq> None"
proof -
  obtain pos st' where w: "writeLogEntry vt le st = (Inr pos, st')" "base_inv st'" "store_le st st'" "others_same vt st st'"
    "\<And>ls. log_view st vt ls \<Longrightarrow> log_view st' vt (ls @ [(vp_fid pos, vp_offset pos, le)])"
    "\<forall>n. capacity st vt (Suc n) \<longrightarrow> capacity st' vt n" "vp_entrySize pos = int (entry_size le)"
    "\<exists>lf. active st' vt = Some lf \<and> Fid lf = vp_fid pos"
    using writeLogEntry_ok [of st le vt] ok inv by (auto simp: put_ok_def store_inv_def)
  note ext = store_le_ext [OF w(3-5)]
  obtain ls where "log_view st vt ls" using inv by (auto simp: store_inv_def)
  then have "contents (files st') vt (vp_fid pos) \<noteq> None" using log_view_contents [OF w(5), of ls "vp_fid pos" "vp_offset pos" le] by simp
  then show ?thesis using w ext store_inv_ext [OF w(2) inv ext(1)] by auto
qed

text \<open>A node for the position of a write.\<close>

lemma refers_written:
  assumes "store_inv st" "\<And>ls. log_view st vt ls \<Longrightarrow> log_view st' vt (ls @ [(f, off, le)])"
    "vt = valueTypeSet \<or> Key le = k" "Stat le \<noteq> SDelete" "v_fid v = f" "v_offset v = off" "v_entrySize v = int (entry_size le)"
  shows "refers st' vt k v (bs (Value le), ExpiredAt le)"
proof -
  obtain ls where "log_view st vt ls" using assms(1) by (auto simp: store_inv_def)
  then show ?thesis using assms(2-7) unfolding refers_def by fastforce
qed

lemma roomy_put_ok: "capacity st vt (Suc n) \<Longrightarrow> roomy le \<Longrightarrow> put_ok st vt le"
  using capacity_can_write by (auto simp: put_ok_def roomy_def fits_def)

text \<open>Reading through an index node, also one that does not carry the expiry time of its entry.\<close>

lemma getValue_refers:
  assumes inv: "store_inv st" and get: "ART_Get A t k = Some v" and p: "refers st vt k v x"
    and ex: "v_expiredAt v = snd x \<or> v_expiredAt v = 0"
  shows "getValue A now t k vt st = (if live (Unix now) x then Inr (Some (fst x)) else Inl ErrKeyNotFound)"
proof -
  obtain ls le where ls: "log_view st vt ls" "(v_fid v, v_offset v, le) \<in> set ls"
    and le: "bs (Value le) = fst x" "ExpiredAt le = snd x" "Stat le \<noteq> SDelete"
    using p by (auto simp: refers_def)
  obtain L where L: "logged st vt L" "ls = log_seq L" using ls(1) by (auto simp: log_view_def)
  have b: "base_inv st" using inv by (simp add: store_inv_def)
  have "readLogEntry vt (v_fid v) (v_offset v) st = Inr (stored le)"
    using logged_located [OF b L(1), of "v_fid v" "v_offset v" le] ls(2) L(2)
      readLogEntry_located [OF b, of vt "v_fid v" "v_offset v" le] by simp
  then show ?thesis
    using get ex le by (auto simp: getValue_def Let_def live_def)
qed

locale value_index = art_engine A for A :: "('t, Value_t) art"
begin

lemma getValue_rel:
  assumes inv: "store_inv st" and rel: "index_rel A st vt t m"
  shows "getValue A now t k vt st = lookup_item (Unix now) m k"
proof (cases "ART_Get A t k")
  case None
  then have "m k = None" using index_rel_get [OF rel] by simp
  with None show ?thesis by (simp add: getValue_def lookup_item_def)
next
  case (Some v)
  have r: "rel_option (points st vt k) (ART_Get A t k) (m k)"
    using rel by (simp add: index_rel_def)
  then obtain x where x: "m k = Some x" and p: "points st vt k v x"
    by (auto simp: Some option_rel_Some1)
  then show ?thesis using getValue_refers [OF inv Some] by (simp add: points_def lookup_item_def)
qed

lemma put_rel:
  assumes rel: "index_rel A st vt t m" and p: "points st vt k v x"
  shows "index_rel A st vt (fst (ART_Put A t k v)) (m(k \<mapsto> x))"
  using rel p by (auto simp: index_rel_def idx.put_get)

lemma del_rel: "index_rel A st vt t m \<Longrightarrow> index_rel A st vt (fst (ART_Delete A t k)) (m(k := None))"
  by (auto simp: index_rel_def idx.del_get)

lemma new_rel: "index_rel A st vt (NewART A) Map.empty"
  by (simp add: index_rel_def idx.get_new)

lemma sendDiscard_rel:
  assumes inv: "store_inv st" and rel: "index_rel A st vt t m"
    and room: "chan_room st vt (length (old_node A t k))"
  shows "\<exists>st'. sendDiscard (ART_Get A t k) (ART_Get A t k \<noteq> None) vt st = (Inr (), st') \<and> store_inv st' \<and>
    store_ext vt st st' \<and> chan_upd vt (old_node A t k) st st' \<and> (\<forall>t n. capacity st t n \<longrightarrow> capacity st' t n) \<and>
    log_view st' = log_view st \<and> files st' = files st"
proof (cases "ART_Get A t k")
  case None
  then show ?thesis using inv by (simp add: sendDiscard_def old_node_def)
next
  case (Some v)
  have "rel_option (points st vt k) (ART_Get A t k) (m k)"
    using rel by (simp add: index_rel_def)
  then obtain le ls where "v_entrySize v = int (entry_size le)" "log_view st vt ls" "(v_fid v, v_offset v, le) \<in> set ls"
    by (auto simp: Some option_rel_Some1 points_def refers_def)
  then have "v_entrySize v \<noteq> 0" "contents (files st) vt (v_fid v) \<noteq> None" using log_view_contents by simp_all
  then show ?thesis
    using st_send_ok [OF inv, of vt v] room by (simp add: Some sendDiscard_def old_node_def)
qed

lemma put_entry_rel:
  assumes inv: "store_inv st" and rel: "index_rel A st vt t m" and ok: "put_ok st vt le"
    and stat: "Stat le \<noteq> SDelete" and room: "sendD \<Longrightarrow> chan_room st vt (length (old_node A t (Key le)))"
  shows "\<exists>t' st'. put_entry A vt t le sendD st = (Inr (), t', st') \<and> store_inv st' \<and> store_ext vt st st' \<and>
    chan_upd vt (if sendD then old_node A t (Key le) else []) st st' \<and>
    (\<forall>n. capacity st vt (Suc n) \<longrightarrow> capacity st' vt n) \<and>
    (\<forall>ls. log_view st vt ls \<longrightarrow> (\<exists>f off. log_view st' vt (ls @ [(f, off, le)]))) \<and>
    index_rel A st' vt t' (m(Key le \<mapsto> (bs (Value le), ExpiredAt le)))"
proof -
  obtain pos st1 where w: "writeLogEntry vt le st = (Inr pos, st1)" "store_inv st1" "store_ext vt st st1" "chan_upd vt [] st st1"
    "vp_entrySize pos = int (entry_size le)" "\<And>n. capacity st vt (Suc n) \<Longrightarrow> capacity st1 vt n"
    "\<And>ls. log_view st vt ls \<Longrightarrow> log_view st1 vt (ls @ [(vp_fid pos, vp_offset pos, le)])"
    using log_write [OF inv ok] by blast
  note ext = w(3) and ch = w(4)
  have lv: "\<forall>ls. log_view st vt ls \<longrightarrow> (\<exists>f off. log_view st1 vt (ls @ [(f, off, le)]))" using w(7) by blast
  define node where "node = \<lparr>v_value = None, v_vType = valueTypeString, v_fid = vp_fid pos,
    v_offset = vp_offset pos, v_entrySize = int (entry_size le), v_expiredAt = ExpiredAt le\<rparr>"
  let ?x = "(bs (Value le), ExpiredAt le)"
  define t' where "t' = fst (ART_Put A t (Key le) node)"
  note put = idx.put_eq [of t "Key le" node, folded t'_def]
  have "EncodeEntry (Some le) = Inr (entry_bytes le, entry_size le)"
    using ok by (auto simp: put_ok_def intro: EncodeEntry_encodable)
  then have siz: "(if vt = valueTypeString \<or> vt = valueTypeList then map_sum id (int \<circ> snd) (EncodeEntry (Some le))
      else Inr (vp_entrySize pos)) = Inr (int (entry_size le))"
    using w(5) by simp
  have z: "(if ExpiredAt le \<noteq> 0 then ExpiredAt le else 0) = ExpiredAt le" by simp
  have e: "put_entry A vt t le sendD st =
      (if sendD then (case sendDiscard (ART_Get A t (Key le)) (ART_Get A t (Key le) \<noteq> None) vt st1 of
         (r, st') \<Rightarrow> (r, t', st')) else (Inr (), t', st1))"
    by (simp only: put_entry_def w(1) prod.case sum.case updateIndexTree_def siz z Let_def node_def [symmetric] put)
  have rel1: "index_rel A st1 vt t m" by (rule index_rel_ext [OF rel ext])
  have "points st1 vt (Key le) node ?x"
    unfolding points_def using refers_written [OF inv w(7), where v = node] stat by (simp add: node_def)
  then have rel2: "index_rel A st1 vt t' (m(Key le \<mapsto> ?x))" unfolding t'_def by (rule put_rel [OF rel1])
  show ?thesis
  proof (cases sendD)
    case True
    obtain st2 where s: "sendDiscard (ART_Get A t (Key le)) (ART_Get A t (Key le) \<noteq> None) vt st1 = (Inr (), st2)"
      "store_inv st2" "store_ext vt st1 st2" "chan_upd vt (old_node A t (Key le)) st1 st2"
      "\<And>t n. capacity st1 t n \<Longrightarrow> capacity st2 t n" "log_view st2 = log_view st1"
      using sendDiscard_rel [OF w(2) rel1] chan_upd_room [OF ch] room [OF True] by fastforce
    have "store_ext vt st st2" "chan_upd vt (old_node A t (Key le)) st st2"
      using store_ext_trans [OF ext s(3)] chan_upd_trans [OF ch s(4)] by simp_all
    then show ?thesis using e s w(6) lv True index_rel_ext [OF rel2 s(3)] by simp
  next
    case False
    then show ?thesis using e w(2,6) lv ext ch rel2 by simp
  qed
qed

text \<open>A write that reports nothing, for an entry that fits anywhere.\<close>

lemma put_roomy:
  assumes "store_inv st" "index_rel A st vt t m" "capacity st vt (Suc n)" "roomy le" "Stat le \<noteq> SDelete"
  shows "\<exists>t' st'. put_entry A vt t le False st = (Inr (), t', st') \<and> store_inv st' \<and> store_ext vt st st' \<and>
    capacity st' vt n \<and> index_rel A st' vt t' (m(Key le \<mapsto> (bs (Value le), ExpiredAt le))) \<and> spends vt 1 0 st st'"
proof -
  obtain t' st' where p: "put_entry A vt t le False st = (Inr (), t', st')" "store_inv st'" "store_ext vt st st'"
    "chan_upd vt [] st st'" "\<And>n. capacity st vt (Suc n) \<Longrightarrow> capacity st' vt n"
    "index_rel A st' vt t' (m(Key le \<mapsto> (bs (Value le), ExpiredAt le)))"
    using put_entry_rel [OF assms(1,2) roomy_put_ok [OF assms(3,4)] assms(5), of False] by auto
  then show ?thesis using spends_write [OF p(3-5)] assms(3) by simp
qed

lemma report_rel:
  assumes inv: "store_inv st" and rel: "index_rel A st vt t m" and enc: "encodable le"
    and room: "chan_room st vt (Suc (length (old_node A t k)))" and f: "contents (files st) vt (vp_fid pos) \<noteq> None"
  shows "\<exists>st' node. report_deleted vt (ART_Get A t k) (ART_Get A t k \<noteq> None) le pos st = (Inr (), st') \<and>
    store_inv st' \<and> store_ext vt st st' \<and> chan_upd vt (old_node A t k @ [node]) st st' \<and>
    v_entrySize node = int (entry_size le) \<and> (\<forall>t n. capacity st t n \<longrightarrow> capacity st' t n) \<and> log_view st' = log_view st"
proof -
  obtain st2 where s: "sendDiscard (ART_Get A t k) (ART_Get A t k \<noteq> None) vt st = (Inr (), st2)"
    "store_inv st2" "store_ext vt st st2" "chan_upd vt (old_node A t k) st st2"
    "\<And>t n. capacity st t n \<Longrightarrow> capacity st2 t n" "log_view st2 = log_view st" "files st2 = files st"
    using sendDiscard_rel [OF inv rel, of k] chan_room_le [OF room] by fastforce
  let ?node = "\<lparr>v_value = None, v_vType = valueTypeString, v_fid = vp_fid pos,
    v_offset = 0, v_entrySize = int (entry_size le), v_expiredAt = 0\<rparr>"
  have "chan_room st2 vt 1" using chan_upd_room [OF s(4), of 1] room by simp
  moreover have "contents (files st2) vt (v_fid ?node) \<noteq> None" using f s(7) by simp
  ultimately obtain st3 where f: "st_send vt ?node st2 = (Inr (), st3)" "store_inv st3" "store_ext vt st2 st3"
    "chan_upd vt [?node] st2 st3" "\<And>t n. capacity st2 t n \<Longrightarrow> capacity st3 t n" "log_view st3 = log_view st2"
    using st_send_ok [OF s(2)] by blast
  have "report_deleted vt (ART_Get A t k) (ART_Get A t k \<noteq> None) le pos st = (Inr (), st3)"
    using s(1) f(1) EncodeEntry_encodable [OF enc] by (simp add: report_deleted_def)
  then show ?thesis
    using f(2,5,6) s(5,6) store_ext_trans [OF s(3) f(3)] chan_upd_trans [OF s(4) f(4)] by (auto intro!: exI [of _ ?node])
qed

lemma del_key_rel:
  assumes inv: "store_inv st" and rel: "index_rel A st vt t m" and ok: "put_ok st vt (del_entry k)"
    and room: "chan_room st vt (Suc (length (old_node A t k)))"
  shows "\<exists>t' st' node. del_key A vt t k st = (Inr (m k \<noteq> None), t', st') \<and> store_inv st' \<and> store_ext vt st st' \<and>
    (\<forall>n. capacity st vt (Suc n) \<longrightarrow> capacity st' vt n) \<and>
    (\<forall>ls. log_view st vt ls \<longrightarrow> (\<exists>f off. log_view st' vt (ls @ [(f, off, del_entry k)]))) \<and>
    chan_upd vt (old_node A t k @ [node]) st st' \<and> v_entrySize node = int (entry_size (del_entry k)) \<and>
    index_rel A st' vt t' (m(k := None))"
proof -
  let ?le = "del_entry k"
  obtain pos st1 where w: "writeLogEntry vt ?le st = (Inr pos, st1)" "store_inv st1" "store_ext vt st st1"
    "\<And>n. capacity st vt (Suc n) \<Longrightarrow> capacity st1 vt n" "chan_upd vt [] st st1"
    "\<And>ls. log_view st vt ls \<Longrightarrow> log_view st1 vt (ls @ [(vp_fid pos, vp_offset pos, ?le)])"
    "contents (files st1) vt (vp_fid pos) \<noteq> None"
    using log_write [OF inv ok] by blast
  note ext = w(3) and ch = w(5)
  have lv: "\<forall>ls. log_view st vt ls \<longrightarrow> (\<exists>f off. log_view st1 vt (ls @ [(f, off, ?le)]))" using w(6) by blast
  have rel1: "index_rel A st1 vt t m" by (rule index_rel_ext [OF rel ext])
  have "chan_room st1 vt (Suc (length (old_node A t k)))" using chan_upd_room [OF ch] room by simp
  then obtain st3 node where r: "report_deleted vt (ART_Get A t k) (ART_Get A t k \<noteq> None) ?le pos st1 = (Inr (), st3)"
    "store_inv st3" "store_ext vt st1 st3" "chan_upd vt (old_node A t k @ [node]) st1 st3"
    "v_entrySize node = int (entry_size ?le)" "\<And>t n. capacity st1 t n \<Longrightarrow> capacity st3 t n" "log_view st3 = log_view st1"
    using report_rel [OF w(2) rel1, of ?le k pos] ok w(7) by (auto simp: put_ok_def)
  define t' where "t' = fst (ART_Delete A t k)"
  have "(ART_Get A t k \<noteq> None) = (m k \<noteq> None)" using index_rel_get [OF rel] by simp
  then have "del_key A vt t k st = (Inr (m k \<noteq> None), t', st3)"
    using w(1) r(1) idx.del_eq [of t k, folded t'_def] by (simp add: del_key_def Let_def)
  moreover have "index_rel A st3 vt t' (m(k := None))"
    unfolding t'_def by (rule index_rel_ext [OF del_rel [OF rel1] r(3)])
  ultimately show ?thesis
    using r(2,5-7) w(4) lv store_ext_trans [OF ext r(3)] chan_upd_trans [OF ch r(4)] by auto
qed

end

interpretation rbt_values: value_index rbt_art
  by (rule value_index.intro) (rule art_engine_rbt)

subsection \<open>Properties\<close>

text \<open>
  The key of a hash field is encoded so that it can be taken apart again: decoding gives the
  key and the field, and two encodings are equal only for the same key and field.
\<close>

theorem encodeKey_roundtrip:
  assumes "length key < 2 ^ 32" "length subKey < 2 ^ 32" "length key' < 2 ^ 32" "length subKey' < 2 ^ 32"
  shows "\<exists>b. encodeKey key subKey = Inr b \<and> decodeKey b = Inr (key, subKey) \<and>
    (encodeKey key' subKey' = Inr b \<longleftrightarrow> key' = key \<and> subKey' = subKey)"
  using assms by (simp add: encodeKey_encoded decodeKey_encoded encoded_inj)

theorem encodeKey_roundtrip_witness:
  "\<exists>b. encodeKey [1, 2] [3] = Inr b \<and> decodeKey b = Inr ([1, 2], [3]) \<and> encodeKey [1] [2, 3] \<noteq> Inr b"
  using encodeKey_roundtrip [of "[1, 2]" "[3]" "[1]" "[2, 3]"] by auto

end
