(* ===== verification/DB_Spec.thy ===== *)
theory DB_Spec
  imports DB_Index
begin

text \<open>
  The abstract state of the database: one map per index tree, with no log files. \<open>db_rel\<close>
  relates a database to it. The lemmas lift a step on one index tree to the whole database:
  the trees that are not touched keep their maps because the log keeps its entries.
\<close>

type_synonym imap = "bytes \<Rightarrow> item option"

record adb =
  a_str :: imap
  a_hash :: "bytes \<Rightarrow> imap option"
  a_list :: "bytes \<Rightarrow> imap option"
  a_set :: "bytes \<Rightarrow> imap option"
  a_zset :: "bytes \<Rightarrow> imap option"

definition db_rel :: "('t, Value_t) art \<Rightarrow> ('t, 's) LazyDB \<Rightarrow> adb \<Rightarrow> bool" where
  "db_rel A db a \<longleftrightarrow> store_inv (store db) \<and>
     index_rel A (store db) valueTypeString (strIndex db) (a_str a) \<and>
     (\<forall>k. rel_option (index_rel A (store db) valueTypeHash) (hashIndex db k) (a_hash a k)) \<and>
     (\<forall>k. rel_option (index_rel A (store db) valueTypeList) (listIndex db k) (a_list a k)) \<and>
     (\<forall>k. rel_option (index_rel A (store db) valueTypeSet) (setIndex db k) (a_set a k)) \<and>
     (\<forall>k. rel_option (\<lambda>z. index_rel A (store db) valueTypeZSet (z_tree z)) (zSetIndex db k) (a_zset a k))"

lemma db_relD:
  assumes "db_rel A db a"
  shows "store_inv (store db)" "index_rel A (store db) valueTypeString (strIndex db) (a_str a)"
    "rel_option (index_rel A (store db) valueTypeHash) (hashIndex db k) (a_hash a k)"
    "rel_option (index_rel A (store db) valueTypeList) (listIndex db k) (a_list a k)"
  using assms by (simp_all add: db_rel_def)

lemma db_rel_ext:
  assumes "db_rel A db a" "store_inv st'" "store_ext vt (store db) st'"
  shows "db_rel A (db\<lparr>store := st'\<rparr>) a"
proof -
  have up: "rel_option (index_rel A st' vt) x y" if "rel_option (index_rel A (store db) vt) x y" for vt x y
    using that index_rel_ext [OF _ assms(3)] by (metis option.rel_mono_strong)
  have "rel_option (\<lambda>z. index_rel A st' valueTypeZSet (z_tree z)) (zSetIndex db k) (a_zset a k)" for k
  proof -
    have "rel_option (\<lambda>z. index_rel A (store db) valueTypeZSet (z_tree z)) (zSetIndex db k) (a_zset a k)"
      using assms(1) by (simp add: db_rel_def)
    then show ?thesis by (rule option.rel_mono_strong) (rule index_rel_ext [OF _ assms(3)])
  qed
  then show ?thesis
    using up assms(1,2) index_rel_ext [OF db_relD(2) [OF assms(1)] assms(3)] by (simp add: db_rel_def)
qed

lemma db_rel_listen:
  assumes "db_rel A db a" "\<forall>vt. discard_ok (ds vt)"
  shows "db_rel A (db\<lparr>store := (store db)\<lparr>discardsMap := ds\<rparr>\<rparr>) a"
proof -
  have "points (st\<lparr>discardsMap := ds\<rparr>) = points st" for st by (simp add: points_def refers_def fun_eq_iff)
  then have "index_rel A (st\<lparr>discardsMap := ds\<rparr>) = index_rel A st" for st by (intro ext) (simp add: index_rel_def)
  then show ?thesis using assms by (simp add: db_rel_def store_inv_def base_inv_def is_open_def)
qed

lemma db_rel_str:
  assumes "db_rel A db a" "store_inv st'" "store_ext valueTypeString (store db) st'" "index_rel A st' valueTypeString t m"
  shows "db_rel A (db\<lparr>store := st', strIndex := t\<rparr>) (a\<lparr>a_str := m\<rparr>)"
  using db_rel_ext [OF assms(1-3)] assms(4) by (simp add: db_rel_def)

lemma db_rel_hash:
  assumes "db_rel A db a" "store_inv st'" "store_ext valueTypeHash (store db) st'"
    "rel_option (index_rel A st' valueTypeHash) t m"
  shows "db_rel A (db\<lparr>store := st', hashIndex := (hashIndex db)(k := t)\<rparr>) (a\<lparr>a_hash := (a_hash a)(k := m)\<rparr>)"
  using db_rel_ext [OF assms(1-3)] assms(4) by (simp add: db_rel_def)

lemma db_rel_list:
  assumes "db_rel A db a" "store_inv st'" "store_ext valueTypeList (store db) st'"
    "rel_option (index_rel A st' valueTypeList) t m"
  shows "db_rel A (db\<lparr>store := st', listIndex := (listIndex db)(k := t)\<rparr>) (a\<lparr>a_list := (a_list a)(k := m)\<rparr>)"
  using db_rel_ext [OF assms(1-3)] assms(4) by (simp add: db_rel_def)

lemma db_rel_zset:
  assumes "db_rel A db a" "store_inv st'" "store_ext valueTypeZSet (store db) st'" "index_rel A st' valueTypeZSet (z_tree z) m"
  shows "db_rel A (db\<lparr>store := st', zSetIndex := (zSetIndex db)(k \<mapsto> z)\<rparr>) (a\<lparr>a_zset := (a_zset a)(k \<mapsto> m)\<rparr>)"
  using db_rel_ext [OF assms(1-3)] assms(4) by (simp add: db_rel_def)

subsection \<open>What the log of the strings says\<close>

text \<open>
  \<open>replay\<close> applies the entries of a log in order; \<open>durable\<close> says that the log of the string type
  determines the abstract map of strings, which is what recovery relies on.
\<close>

definition replay_step :: "imap \<Rightarrow> u32 \<times> int \<times> LogEntry \<Rightarrow> imap" where
  "replay_step m x =
     (case x of (f, off, le) \<Rightarrow>
        if Stat le = SDelete then m(Key le := None) else m(Key le \<mapsto> (bs (Value le), ExpiredAt le)))"

definition replay :: "(u32 \<times> int \<times> LogEntry) list \<Rightarrow> imap" where
  "replay ls = foldl replay_step Map.empty ls"

definition durable :: "('t, 's) LazyDB \<Rightarrow> adb \<Rightarrow> bool" where
  "durable db a \<longleftrightarrow> (\<exists>ls. log_view (store db) valueTypeString ls \<and> replay ls = a_str a)"

lemma replay_simps [simp]:
  "replay [] = Map.empty"
  "replay (ls @ [(f, off, le)]) =
     (if Stat le = SDelete then (replay ls)(Key le := None) else (replay ls)(Key le \<mapsto> (bs (Value le), ExpiredAt le)))"
  by (simp_all add: replay_def replay_step_def)

text \<open>Writes of the other types do not touch it.\<close>

lemma durable_other:
  assumes "store_ext vt (store db) (store db')" "vt \<noteq> valueTypeString" "a_str a' = a_str a" "durable db a"
  shows "durable db' a'"
  using assms store_ext_log(2) [OF assms(1), of valueTypeString] by (auto simp: durable_def)

subsection \<open>A new database\<close>

text \<open>The empty indexes; their locks and the hash state of the sets are arguments of the commands.\<close>

definition newStrIndex :: "('t, Value_t) art \<Rightarrow> 't" where
  "newStrIndex A = NewART A"

definition newHashIndex :: "bytes \<Rightarrow> 't option" where
  "newHashIndex = Map.empty"

definition newListIndex :: "bytes \<Rightarrow> 't option" where
  "newListIndex = Map.empty"

definition newSetIndex :: "bytes \<Rightarrow> 't option" where
  "newSetIndex = Map.empty"

definition newZSetIndex :: "bytes \<Rightarrow> ('t, 's) ZSetIndex option" where
  "newZSetIndex = Map.empty"

lemmas new_index_defs [simp] = newStrIndex_def newHashIndex_def newListIndex_def newSetIndex_def newZSetIndex_def

text \<open>
  The struct that \<open>Open\<close> builds before it reads any log file, with the discard tables that
  \<open>initDiscard\<close> has opened.
\<close>

definition new_db :: "('t, Value_t) art \<Rightarrow> DBConfig \<Rightarrow> (valueType \<Rightarrow> discard) \<Rightarrow> fs \<Rightarrow> ('t, 's) LazyDB" where
  "new_db A c ds d =
     \<lparr>store = \<lparr>cfg = c, files = d, discardsMap = ds, fidsMap = Some (\<lambda>_. []), activeLogFileMap = Some Map.empty,
        archivedLogFile = Some (\<lambda>_. NewWithCustomShardingFunction DefaultShardCount SimpleSharding)\<rparr>,
      strIndex = newStrIndex A, hashIndex = newHashIndex, listIndex = newListIndex, setIndex = newSetIndex,
      zSetIndex = newZSetIndex\<rparr>"

definition empty_adb :: adb where
  "empty_adb = \<lparr>a_str = Map.empty, a_hash = Map.empty, a_list = Map.empty, a_set = Map.empty, a_zset = Map.empty\<rparr>"

lemma new_cm [simp]:
  "cm_wf (NewWithCustomShardingFunction DefaultShardCount sh)"
  "cm_view (NewWithCustomShardingFunction DefaultShardCount sh) = Map.empty"
  by (simp_all add: NewWithCustomShardingFunction_def newConcurrentMap_wf newConcurrentMap_view DefaultShardCount_def)

context value_index
begin

lemma new_db_rel:
  assumes "0 < MaxLogFileSize c" "IOType c = FileIO" "\<And>vt. discard_ok (ds vt)"
    "\<And>vt f. contents d vt f = None"
  shows "db_rel A (new_db A c ds d :: ('t, 's) LazyDB) empty_adb"
proof -
  let ?st = "store (new_db A c ds d :: ('t, 's) LazyDB)"
  have "active ?st vt = None" "archived ?st vt = Map.empty" for vt
    by (simp_all add: active_def archived_def new_db_def fun_eq_iff)
  then have "base_inv ?st"
    using assms by (simp add: base_inv_def type_inv_def) (simp add: is_open_def new_db_def)
  moreover have "log_view ?st vt []" for vt
    using assms(4) by (simp add: log_view_def logged_def exI [of _ "[]"]) (simp add: active_def archived_def new_db_def)
  ultimately have "store_inv ?st" unfolding store_inv_def by blast
  then show ?thesis
    using new_rel by (simp add: db_rel_def) (auto simp: new_db_def empty_adb_def)
qed

end

text \<open>A new database with the default configuration over an engine that exists.\<close>

definition sample_db :: "((bytes, Value_t) rbt, unit) LazyDB" where
  "sample_db = new_db rbt_art (DefaultDBConfig []) (\<lambda>_. fresh_discard (8 * 2 ^ 20)) Map.empty"

lemma sample_db_rel: "db_rel rbt_art sample_db empty_adb"
  unfolding sample_db_def by (rule rbt_values.new_db_rel) (simp_all add: DefaultDBConfig_def contents_def)

lemma sample_durable: "durable sample_db empty_adb"
  unfolding durable_def sample_db_def
  by (intro exI [of _ "[]"])
    (auto simp: log_view_def logged_def new_db_def active_def archived_def contents_def empty_adb_def intro!: exI [of _ "[]"])

lemma sample_ready: "n \<le> 600 \<Longrightarrow> ready (store sample_db) vt n"
  by (simp add: ready_def capacity_def chan_room_def sample_db_def new_db_def active_def)

lemma sample_put:
  "k \<noteq> [] \<Longrightarrow> length k < 2 ^ 32 \<Longrightarrow> length (bs v) < 2 ^ 32 \<Longrightarrow> 15 \<le> length k + length (bs v) \<Longrightarrow>
     put_ok (store sample_db) vt (mk_entry k v)"
  using ready_put_ok [OF sample_ready [of "Suc 0"] roomy_mk] by simp

lemma sample_del: "15 \<le> length k \<Longrightarrow> length k < 2 ^ 32 \<Longrightarrow> put_ok (store sample_db) vt (del_entry k)"
  using ready_put_ok [OF sample_ready [of "Suc 0"] roomy_del] by simp

lemma sample_roomy: "roomy le \<Longrightarrow> put_ok (store sample_db) vt le"
  using ready_put_ok [OF sample_ready [of "Suc 0"]] by simp

lemma sample_chan: "n \<le> 600 \<Longrightarrow> chan_room (store sample_db) vt n"
  using sample_ready by (simp add: ready_def)

end
