(* ===== verification/Mem_Hash.thy ===== *)
theory Mem_Hash
  imports Lazy_Prelude
begin

unbundle bit_operations_syntax

text \<open>
  \<open>util/hash.go\<close>: \<open>MemHash\<close>, by which \<open>MSetNX\<close> tells keys apart. The hash function of the Go
  runtime is the parameter \<open>rt\<close>: it takes the bytes, a seed and their number, words of the width of a
  pointer (\<open>'w\<close>). With pointers of 32 bits two hashes, seeded with the two halves of the seed,
  are put together.
\<close>

definition rthash :: "(bytes \<Rightarrow> 'w::len word \<Rightarrow> 'w word \<Rightarrow> 'w word) \<Rightarrow> bytes \<Rightarrow> u64 \<Rightarrow> u64" where
  "rthash rt b seed =
     (if length b = 0 then seed
      else if LENGTH('w) div 8 = 8 then ucast (rt b (ucast seed) (word_of_nat (length b)))
      else (let lo = rt b (ucast seed) (word_of_nat (length b));
                hi = rt b (ucast (drop_bit 32 seed)) (word_of_nat (length b))
            in push_bit 32 (ucast hi) OR ucast lo))"

definition MemHash :: "(bytes \<Rightarrow> 'w::len word \<Rightarrow> 'w word \<Rightarrow> 'w word) \<Rightarrow> bytes \<Rightarrow> u64" where
  "MemHash rt buf = rthash rt buf 923"

text \<open>On a 64-bit machine the hash separates the keys that the runtime's hash separates.\<close>

lemma MemHash_inj64:
  fixes rt :: "bytes \<Rightarrow> 64 word \<Rightarrow> 64 word \<Rightarrow> 64 word"
  assumes "inj_on (\<lambda>b. rt b 923 (word_of_nat (length b))) X" "[] \<notin> X"
  shows "inj_on (MemHash rt) X"
  using assms by (auto simp: inj_on_def MemHash_def rthash_def)

lemma MemHash_inj32:
  fixes rt :: "bytes \<Rightarrow> 32 word \<Rightarrow> 32 word \<Rightarrow> 32 word"
  assumes "inj_on (\<lambda>b. rt b 923 (word_of_nat (length b))) X" "[] \<notin> X"
  shows "inj_on (MemHash rt) X"
proof -
  have low: "ucast (push_bit 32 (ucast hi) OR ucast lo :: u64) = lo" for hi lo :: "32 word"
    by (rule bit_word_eqI) (simp add: bit_simps)
  have "ucast (MemHash rt b) = rt b 923 (word_of_nat (length b))" if "b \<in> X" for b
    using that assms(2) by (auto simp: MemHash_def rthash_def Let_def low)
  then show ?thesis using assms(1) unfolding inj_on_def by metis
qed

end
