(* ===== verification/Str_Ops.thy ===== *)
theory Str_Ops
  imports DB_Spec Mem_Hash
begin

text \<open>
  \<open>str.go\<close>: the operations on string keys. Each is a function of the database (and of the
  clock where it reads it) that returns its result and the new database; an error leaves the
  effects of the steps before it. The properties say that the operations act on the abstract
  map of strings and leave the other data types alone.
\<close>

subsection \<open>Definitions\<close>

text \<open>\<open>db.getValue(db.strIndex.idxTree, key, valueTypeString)\<close>\<close>

definition str_get :: "('t, Value_t) art \<Rightarrow> int \<Rightarrow> bytes \<Rightarrow> ('t, 's) LazyDB \<Rightarrow> slice result" where
  "str_get A now key db = getValue A now (strIndex db) key valueTypeString (store db)"

text \<open>
  The pattern \<open>if err != nil && !errors.Is(err, ErrKeyNotFound) { return err }\<close> after it:
  a missing key counts as a nil value.
\<close>

definition nil_if_missing :: "slice result \<Rightarrow> slice result" where
  "nil_if_missing r = (case r of Inl e \<Rightarrow> if e = ErrKeyNotFound then Inr None else Inl e | Inr v \<Rightarrow> Inr v)"

text \<open>\<open>writeLogEntry\<close> and \<open>updateIndexTree\<close> on the string index, reporting the old entry.\<close>

definition str_put :: "('t, Value_t) art \<Rightarrow> LogEntry \<Rightarrow> ('t, 's) LazyDB \<Rightarrow> unit result \<times> ('t, 's) LazyDB" where
  "str_put A entry db =
     (case put_entry A valueTypeString (strIndex db) entry True (store db) of
        (r, t, st) \<Rightarrow> (r, db\<lparr>store := st, strIndex := t\<rparr>))"

definition Set :: "('t, Value_t) art \<Rightarrow> bytes \<Rightarrow> slice \<Rightarrow> ('t, 's) LazyDB \<Rightarrow> unit result \<times> ('t, 's) LazyDB" where
  "Set A key value db = str_put A (mk_entry key value) db"

definition Get :: "('t, Value_t) art \<Rightarrow> int \<Rightarrow> bytes \<Rightarrow> ('t, 's) LazyDB \<Rightarrow> slice result" where
  "Get A now key db = str_get A now key db"

fun MGet_loop :: "('t, Value_t) art \<Rightarrow> int \<Rightarrow> bytes list \<Rightarrow> ('t, 's) LazyDB \<Rightarrow> slice list result" where
  "MGet_loop A now [] db = Inr []"
| "MGet_loop A now (key # keys) db =
     (case nil_if_missing (str_get A now key db) of
        Inl e \<Rightarrow> Inl e
      | Inr value \<Rightarrow> map_sum id (\<lambda>vs. value # vs) (MGet_loop A now keys db))"

definition MGet :: "('t, Value_t) art \<Rightarrow> int \<Rightarrow> bytes list \<Rightarrow> ('t, 's) LazyDB \<Rightarrow> slice list result" where
  "MGet A now keys db = (if length keys = 0 then Inl ErrInvalidParam else MGet_loop A now keys db)"

text \<open>The index arithmetic of \<open>GetRange\<close> on a value of length \<open>n > 0\<close>.\<close>

definition range_start :: "int \<Rightarrow> int \<Rightarrow> int" where
  "range_start n start = (if start < 0 then (if n + start < 0 then 0 else n + start) else start)"

definition range_end :: "int \<Rightarrow> int \<Rightarrow> int" where
  "range_end n stop =
     (let e = (if stop < 0 then (if n + stop < 0 then 0 else n + stop) else stop)
      in if e > n - 1 then n - 1 else e)"

definition GetRange ::
    "('t, Value_t) art \<Rightarrow> int \<Rightarrow> bytes \<Rightarrow> int \<Rightarrow> int \<Rightarrow> ('t, 's) LazyDB \<Rightarrow> slice result" where
  "GetRange A now key start stop db =
     (case str_get A now key db of
        Inl e \<Rightarrow> Inl e
      | Inr val \<Rightarrow>
          (let n = int (length (bs val)); s = range_start n start; e = range_end n stop
           in if n = 0 then Inr (Some [])
              else if s > n - 1 \<or> s > e then Inr (Some [])
              else Inr (Some (take (nat (e + 1 - s)) (drop (nat s) (bs val))))))"

definition str_del :: "('t, Value_t) art \<Rightarrow> bytes \<Rightarrow> ('t, 's) LazyDB \<Rightarrow> bool result \<times> ('t, 's) LazyDB" where
  "str_del A key db =
     (case del_key A valueTypeString (strIndex db) key (store db) of
        (r, t, st) \<Rightarrow> (r, db\<lparr>store := st, strIndex := t\<rparr>))"

definition GetDel :: "('t, Value_t) art \<Rightarrow> int \<Rightarrow> bytes \<Rightarrow> ('t, 's) LazyDB \<Rightarrow> slice result \<times> ('t, 's) LazyDB" where
  "GetDel A now key db =
     (case nil_if_missing (str_get A now key db) of
        Inl e \<Rightarrow> (Inl e, db)
      | Inr None \<Rightarrow> (Inr None, db)
      | Inr (Some val) \<Rightarrow>
          (case str_del A key db of
             (Inl e, db') \<Rightarrow> (Inl e, db')
           | (Inr _, db') \<Rightarrow> (Inr (Some val), db')))"

definition Delete :: "('t, Value_t) art \<Rightarrow> bytes \<Rightarrow> ('t, 's) LazyDB \<Rightarrow> unit result \<times> ('t, 's) LazyDB" where
  "Delete A key db = (case str_del A key db of (r, db') \<Rightarrow> (map_sum id (\<lambda>_. ()) r, db'))"

definition SetEX ::
    "('t, Value_t) art \<Rightarrow> int \<Rightarrow> bytes \<Rightarrow> slice \<Rightarrow> int \<Rightarrow> ('t, 's) LazyDB \<Rightarrow> unit result \<times> ('t, 's) LazyDB" where
  "SetEX A now key value duration db =
     str_put A ((mk_entry key value)\<lparr>ExpiredAt := Unix (now + duration)\<rparr>) db"

definition SetNX ::
    "('t, Value_t) art \<Rightarrow> int \<Rightarrow> bytes \<Rightarrow> slice \<Rightarrow> ('t, 's) LazyDB \<Rightarrow> unit result \<times> ('t, 's) LazyDB" where
  "SetNX A now key value db =
     (case nil_if_missing (str_get A now key db) of
        Inl e \<Rightarrow> (Inl e, db)
      | Inr (Some _) \<Rightarrow> (Inr (), db)
      | Inr None \<Rightarrow> str_put A (mk_entry key value) db)"

fun MSet_loop ::
    "('t, Value_t) art \<Rightarrow> bytes list \<Rightarrow> ('t, 's) LazyDB \<Rightarrow> unit result \<times> ('t, 's) LazyDB" where
  "MSet_loop A (key # val # args) db =
     (case str_put A (mk_entry key (Some val)) db of
        (Inl e, db') \<Rightarrow> (Inl e, db')
      | (Inr _, db') \<Rightarrow> MSet_loop A args db')"
| "MSet_loop A _ db = (Inr (), db)"

definition MSet :: "('t, Value_t) art \<Rightarrow> bytes list \<Rightarrow> ('t, 's) LazyDB \<Rightarrow> unit result \<times> ('t, 's) LazyDB" where
  "MSet A args db =
     (if length args = 0 \<or> length args mod 2 = 1 then (Inl ErrInvalidParam, db) else MSet_loop A args db)"

text \<open>The first loop of \<open>MSetNX\<close>: does any key have a value?\<close>

fun MSetNX_check :: "('t, Value_t) art \<Rightarrow> int \<Rightarrow> bytes list \<Rightarrow> ('t, 's) LazyDB \<Rightarrow> bool result" where
  "MSetNX_check A now (key # val # args) db =
     (case nil_if_missing (str_get A now key db) of
        Inl e \<Rightarrow> Inl e
      | Inr (Some _) \<Rightarrow> Inr True
      | Inr None \<Rightarrow> MSetNX_check A now args db)"
| "MSetNX_check A now _ db = Inr False"

text \<open>The second loop; \<open>newKeys\<close> holds the hashes of the keys written so far.\<close>

fun MSetNX_loop ::
    "('t, Value_t) art \<Rightarrow> (bytes \<Rightarrow> u64) \<Rightarrow> u64 list \<Rightarrow> bytes list \<Rightarrow> ('t, 's) LazyDB
       \<Rightarrow> unit result \<times> ('t, 's) LazyDB" where
  "MSetNX_loop A memHash newKeys (key # val # args) db =
     (if memHash key \<in> set newKeys then MSetNX_loop A memHash newKeys args db
      else case str_put A (mk_entry key (Some val)) db of
             (Inl e, db') \<Rightarrow> (Inl e, db')
           | (Inr _, db') \<Rightarrow> MSetNX_loop A memHash (memHash key # newKeys) args db')"
| "MSetNX_loop A memHash newKeys _ db = (Inr (), db)"

definition MSetNX ::
    "('t, Value_t) art \<Rightarrow> (bytes \<Rightarrow> 'w::len word \<Rightarrow> 'w word \<Rightarrow> 'w word) \<Rightarrow> int \<Rightarrow> bytes list \<Rightarrow> ('t, 's) LazyDB
       \<Rightarrow> unit result \<times> ('t, 's) LazyDB" where
  "MSetNX A rt now args db =
     (if length args = 0 \<or> length args mod 2 \<noteq> 0 then (Inl ErrInvalidParam, db)
      else case MSetNX_check A now args db of
             Inl e \<Rightarrow> (Inl e, db)
           | Inr True \<Rightarrow> (Inr (), db)
           | Inr False \<Rightarrow> MSetNX_loop A (MemHash rt) [] args db)"

definition Append ::
    "('t, Value_t) art \<Rightarrow> int \<Rightarrow> bytes \<Rightarrow> slice \<Rightarrow> ('t, 's) LazyDB \<Rightarrow> unit result \<times> ('t, 's) LazyDB" where
  "Append A now key value db =
     (case nil_if_missing (str_get A now key db) of
        Inl e \<Rightarrow> (Inl e, db)
      | Inr val \<Rightarrow>
          (let value' = (case val of None \<Rightarrow> value | Some v \<Rightarrow> Some (v @ bs value))
           in str_put A (mk_entry key value') db))"

definition incrDecrBy ::
    "('t, Value_t) art \<Rightarrow> int \<Rightarrow> bytes \<Rightarrow> i64 \<Rightarrow> ('t, 's) LazyDB \<Rightarrow> i64 result \<times> ('t, 's) LazyDB" where
  "incrDecrBy A now key incr db =
     (case nil_if_missing (str_get A now key db) of
        Inl e \<Rightarrow> (Inl e, db)
      | Inr val \<Rightarrow>
          (case ParseInt (if bs val = [] then str ''0'' else bs val) of
             None \<Rightarrow> (Inl ErrWrongValueType, db)
           | Some v \<Rightarrow>
               if 0 < sint incr \<and> 0 < sint v \<and> 2 ^ 63 - 1 - sint v < sint incr \<or>
                  sint incr < 0 \<and> sint v < 0 \<and> sint incr < - (2 ^ 63) - sint v
               then (Inl ErrIntegerOverFlow, db)
               else (case str_put A (mk_entry key (Some (FormatInt (v + incr)))) db of
                       (Inl e, db') \<Rightarrow> (Inl e, db')
                     | (Inr _, db') \<Rightarrow> (Inr (v + incr), db'))))"

definition Decr :: "('t, Value_t) art \<Rightarrow> int \<Rightarrow> bytes \<Rightarrow> ('t, 's) LazyDB \<Rightarrow> i64 result \<times> ('t, 's) LazyDB" where
  "Decr A now key db = incrDecrBy A now key (- 1) db"

definition DecrBy :: "('t, Value_t) art \<Rightarrow> int \<Rightarrow> bytes \<Rightarrow> i64 \<Rightarrow> ('t, 's) LazyDB \<Rightarrow> i64 result \<times> ('t, 's) LazyDB" where
  "DecrBy A now key decr db = incrDecrBy A now key (- decr) db"

definition Incr :: "('t, Value_t) art \<Rightarrow> int \<Rightarrow> bytes \<Rightarrow> ('t, 's) LazyDB \<Rightarrow> i64 result \<times> ('t, 's) LazyDB" where
  "Incr A now key db = incrDecrBy A now key 1 db"

definition IncrBy :: "('t, Value_t) art \<Rightarrow> int \<Rightarrow> bytes \<Rightarrow> i64 \<Rightarrow> ('t, 's) LazyDB \<Rightarrow> i64 result \<times> ('t, 's) LazyDB" where
  "IncrBy A now key incr db = incrDecrBy A now key incr db"

definition StrLen :: "('t, Value_t) art \<Rightarrow> int \<Rightarrow> bytes \<Rightarrow> ('t, 's) LazyDB \<Rightarrow> nat result" where
  "StrLen A now key db =
     (case str_get A now key db of
        Inl e \<Rightarrow> if crash e then Inl e else Inr 0
      | Inr val \<Rightarrow> Inr (length (bs val)))"

definition Count :: "('t, Value_t) art \<Rightarrow> ('t, 's) LazyDB \<Rightarrow> nat" where
  "Count A db = ART_Size A (strIndex db)"

text \<open>\<open>regexp\<close> is a parameter: \<open>compile\<close> gives the matcher of a pattern or fails.\<close>

fun Scan_loop ::
    "('t, Value_t) art \<Rightarrow> int \<Rightarrow> (bytes \<Rightarrow> bool) option \<Rightarrow> bytes list \<Rightarrow> ('t, 's) LazyDB \<Rightarrow> slice list result" where
  "Scan_loop A now reg [] db = Inr []"
| "Scan_loop A now reg (key # keys) db =
     (if (case reg of None \<Rightarrow> False | Some mtch \<Rightarrow> \<not> mtch key) then Scan_loop A now reg keys db
      else case str_get A now key db of
             Inl e \<Rightarrow> if e = ErrKeyNotFound then Scan_loop A now reg keys db else Inl e
           | Inr val \<Rightarrow> map_sum id (\<lambda>vs. Some key # val # vs) (Scan_loop A now reg keys db))"

definition Scan ::
    "('t, Value_t) art \<Rightarrow> (bytes \<Rightarrow> (bytes \<Rightarrow> bool) option) \<Rightarrow> int \<Rightarrow> bytes \<Rightarrow> bytes \<Rightarrow> int
       \<Rightarrow> ('t, 's) LazyDB \<Rightarrow> slice list result" where
  "Scan A compile now prefix pattern count db =
     (if count \<le> 0 then Inr []
      else if pattern \<noteq> [] \<and> compile pattern = None then Inl ErrRegexp
      else Scan_loop A now (if pattern = [] then None else compile pattern)
             (ART_PrefixScan A (strIndex db) prefix count) db)"

text \<open>\<open>Expire\<close> reads the clock twice, once in \<open>getValue\<close> and once in \<open>SetEX\<close>.\<close>

definition Expire ::
    "('t, Value_t) art \<Rightarrow> int \<Rightarrow> int \<Rightarrow> bytes \<Rightarrow> int \<Rightarrow> ('t, 's) LazyDB \<Rightarrow> unit result \<times> ('t, 's) LazyDB" where
  "Expire A now now' key duration db =
     (if duration \<le> 0 then (Inr (), db)
      else case str_get A now key db of
             Inl e \<Rightarrow> (Inl e, db)
           | Inr val \<Rightarrow> SetEX A now' key val duration db)"

definition TTL :: "('t, Value_t) art \<Rightarrow> int \<Rightarrow> bytes \<Rightarrow> ('t, 's) LazyDB \<Rightarrow> i64 result" where
  "TTL A now key db =
     (case ART_Get A (strIndex db) key of
        None \<Rightarrow> Inl ErrKeyNotFound
      | Some idxNode \<Rightarrow> Inr (if v_expiredAt idxNode \<noteq> 0 then v_expiredAt idxNode - Unix now else 0))"

definition Persist :: "('t, Value_t) art \<Rightarrow> int \<Rightarrow> bytes \<Rightarrow> ('t, 's) LazyDB \<Rightarrow> unit result \<times> ('t, 's) LazyDB" where
  "Persist A now key db =
     (case str_get A now key db of Inl e \<Rightarrow> (Inl e, db) | Inr val \<Rightarrow> Set A key val db)"

definition GetStrsKeys :: "('t, Value_t) art \<Rightarrow> int \<Rightarrow> ('t, 's) LazyDB \<Rightarrow> bytes list result" where
  "GetStrsKeys A now db =
     Inr (map fst (filter (\<lambda>(key, v). \<not> (v_expiredAt v \<noteq> 0 \<and> sint (v_expiredAt v) \<le> sint (Unix now)))
       (ART_Iterator A (strIndex db))))"

subsection \<open>Refinement of the shared steps\<close>

text \<open>The value of a key at a time, nil if it is missing or expired.\<close>

definition found :: "i64 \<Rightarrow> imap \<Rightarrow> bytes \<Rightarrow> slice" where
  "found ts m k = (case m k of None \<Rightarrow> None | Some x \<Rightarrow> if live ts x then Some (fst x) else None)"

lemma nil_if_missing_lookup [simp]: "nil_if_missing (lookup_item ts m k) = Inr (found ts m k)"
  by (simp add: nil_if_missing_def lookup_item_def found_def split: option.split)

lemma lookup_item_found:
  "lookup_item ts m k = (case found ts m k of None \<Rightarrow> Inl ErrKeyNotFound | Some v \<Rightarrow> Inr (Some v))"
  by (simp add: lookup_item_def found_def split: option.split)

definition str_upd :: "adb \<Rightarrow> bytes \<Rightarrow> item option \<Rightarrow> adb" where
  "str_upd a k x = a\<lparr>a_str := (a_str a)(k := x)\<rparr>"

lemma str_upd_simps [simp]:
  "a_str (str_upd a k x) = (a_str a)(k := x)" "a_hash (str_upd a k x) = a_hash a"
  by (simp_all add: str_upd_def)

context value_index
begin

lemma str_get_rel [simp]:
  "db_rel A db a \<Longrightarrow> str_get A now k db = lookup_item (Unix now) (a_str a) k"
  by (simp add: str_get_def getValue_rel [OF db_relD(1,2)])

lemma str_put_rel:
  assumes rel: "db_rel A db a" and ok: "put_ok (store db) valueTypeString le" "Stat le \<noteq> SDelete"
    and room: "chan_room (store db) valueTypeString 1"
  shows "\<exists>db'. str_put A le db = (Inr (), db') \<and> db_rel A db' (str_upd a (Key le) (Some (bs (Value le), ExpiredAt le))) \<and>
    chan_upd valueTypeString (old_node A (strIndex db) (Key le)) (store db) (store db') \<and>
    (\<forall>n. ready (store db) valueTypeString (Suc n) \<longrightarrow> ready (store db') valueTypeString n) \<and>
    (durable db a \<longrightarrow> durable db' (str_upd a (Key le) (Some (bs (Value le), ExpiredAt le)))) \<and>
    store_ext valueTypeString (store db) (store db') \<and> spends valueTypeString 1 1 (store db) (store db')"
proof -
  let ?st = "store db" and ?o = "old_node A (strIndex db) (Key le)"
  have "chan_room ?st valueTypeString (length ?o)"
    using chan_room_le [OF room length_old_node] .
  then obtain t' st' where p: "put_entry A valueTypeString (strIndex db) le True ?st = (Inr (), t', st')"
    "store_inv st'" "store_ext valueTypeString ?st st'" "chan_upd valueTypeString ?o ?st st'"
    "\<And>n. capacity ?st valueTypeString (Suc n) \<Longrightarrow> capacity st' valueTypeString n"
    "index_rel A st' valueTypeString t' ((a_str a)(Key le \<mapsto> (bs (Value le), ExpiredAt le)))"
    "\<forall>ls. log_view ?st valueTypeString ls \<longrightarrow> (\<exists>f off. log_view st' valueTypeString (ls @ [(f, off, le)]))"
    using put_entry_rel [OF db_relD(1,2) [OF rel] ok, where sendD = True] by auto
  have "ready st' valueTypeString n" if "ready ?st valueTypeString (Suc n)" for n
    using that p(5) length_old_node [of A "strIndex db" "Key le"]
      chan_upd_room [OF p(4), of n] chan_room_le [of ?st valueTypeString "Suc n" "length ?o + n"]
    by (simp add: ready_def)
  moreover have "durable (db\<lparr>store := st', strIndex := t'\<rparr>) (str_upd a (Key le) (Some (bs (Value le), ExpiredAt le)))"
    if "durable db a"
    using that p(7) ok(2) unfolding durable_def by fastforce
  moreover have "spends valueTypeString 1 1 ?st st'"
    by (rule spends_le [OF spends_write [OF p(3-5)]]) (assumption | rule order_refl length_old_node)+
  ultimately show ?thesis
    using p db_rel_str [OF rel p(2,3,6)] by (simp add: str_put_def str_upd_def)
qed

lemma str_del_rel:
  assumes rel: "db_rel A db a" and ok: "put_ok (store db) valueTypeString (del_entry k)"
    and room: "chan_room (store db) valueTypeString 2"
  shows "\<exists>db' node. str_del A k db = (Inr (a_str a k \<noteq> None), db') \<and> db_rel A db' (str_upd a k None) \<and>
    chan_upd valueTypeString (old_node A (strIndex db) k @ [node]) (store db) (store db') \<and>
    v_entrySize node = int (entry_size (del_entry k)) \<and> (durable db a \<longrightarrow> durable db' (str_upd a k None)) \<and>
    store_ext valueTypeString (store db) (store db') \<and> spends valueTypeString 1 2 (store db) (store db')"
proof -
  let ?st = "store db"
  have "chan_room ?st valueTypeString (Suc (length (old_node A (strIndex db) k)))"
    using chan_room_le [OF room] length_old_node [of A "strIndex db" k] by simp
  then obtain t' st' node where p: "del_key A valueTypeString (strIndex db) k ?st = (Inr (a_str a k \<noteq> None), t', st')"
    "store_inv st'" "store_ext valueTypeString ?st st'" "chan_upd valueTypeString (old_node A (strIndex db) k @ [node]) ?st st'"
    "v_entrySize node = int (entry_size (del_entry k))"
    "index_rel A st' valueTypeString t' ((a_str a)(k := None))"
    "\<forall>ls. log_view ?st valueTypeString ls \<longrightarrow> (\<exists>f off. log_view st' valueTypeString (ls @ [(f, off, del_entry k)]))"
    "\<And>n. capacity ?st valueTypeString (Suc n) \<Longrightarrow> capacity st' valueTypeString n"
    using del_key_rel [OF db_relD(1,2) [OF rel] ok] by metis
  have "durable (db\<lparr>store := st', strIndex := t'\<rparr>) (str_upd a k None)" if "durable db a"
    using that p(7) unfolding durable_def by fastforce
  moreover have "spends valueTypeString 1 2 ?st st'"
    using spends_le [OF spends_write [OF p(3,4,8)]] length_old_node [of A "strIndex db" k] by simp
  ultimately show ?thesis
    using p(1,3,4,5) db_rel_str [OF rel p(2,3,6)] by (auto simp: str_del_def str_upd_def)
qed

end

subsection \<open>Lemmas for the loops\<close>

text \<open>The key-value pairs of an argument list, as items without expiry.\<close>

fun items_of :: "bytes list \<Rightarrow> (bytes \<times> item) list" where
  "items_of (k # v # args) = (k, v, 0) # items_of args"
| "items_of _ = []"

definition roomy_args :: "bytes list \<Rightarrow> bool" where
  "roomy_args args \<longleftrightarrow> (\<forall>(k, v, e) \<in> set (items_of args). roomy (mk_entry k (Some v)))"

lemma str_upd_as_add: "str_upd a k (Some x) = a\<lparr>a_str := a_str a ++ [k \<mapsto> x]\<rparr>"
  by (simp add: str_upd_def)

context value_index
begin

lemma str_put_mk:
  assumes "db_rel A db a" "ready (store db) valueTypeString (Suc n)" "roomy (mk_entry k (Some v))"
  shows "\<exists>db'. str_put A (mk_entry k (Some v)) db = (Inr (), db') \<and> db_rel A db' (str_upd a k (Some (v, 0))) \<and>
    ready (store db') valueTypeString n \<and> spends valueTypeString 1 1 (store db) (store db')"
  using str_put_rel [OF assms(1), of "mk_entry k (Some v)"] ready_put_ok [OF assms(2,3)] assms(2)
  by (auto simp: SDelete_def)

lemma MSet_loop_rel:
  assumes "db_rel A db a" "ready (store db) valueTypeString (length (items_of args))" "roomy_args args"
  shows "\<exists>db'. MSet_loop A args db = (Inr (), db') \<and>
    db_rel A db' (a\<lparr>a_str := a_str a ++ map_of (rev (items_of args))\<rparr>) \<and>
    spends valueTypeString (length (items_of args)) (length (items_of args)) (store db) (store db')"
  using assms
proof (induction args arbitrary: db a rule: items_of.induct)
  case (1 k v args)
  obtain db1 where s: "str_put A (mk_entry k (Some v)) db = (Inr (), db1)"
    "db_rel A db1 (str_upd a k (Some (v, 0)))" "ready (store db1) valueTypeString (length (items_of args))"
    "spends valueTypeString 1 1 (store db) (store db1)"
    using str_put_mk [OF 1(2), of "length (items_of args)" k v] 1(3,4) by (auto simp: roomy_args_def)
  obtain db' where "MSet_loop A args db1 = (Inr (), db')"
    "db_rel A db' ((str_upd a k (Some (v, 0)))\<lparr>a_str := a_str (str_upd a k (Some (v, 0))) ++ map_of (rev (items_of args))\<rparr>)"
    "spends valueTypeString (length (items_of args)) (length (items_of args)) (store db1) (store db')"
    using 1(1) [OF s(2,3)] 1(4) by (auto simp: roomy_args_def simp del: fun_upd_apply)
  then show ?case using s(1) spends_trans [OF s(4)] by (simp add: str_upd_def)
qed (auto)

lemma MSetNX_check_rel:
  assumes "db_rel A db a"
  shows "MSetNX_check A now args db = Inr (\<exists>k \<in> fst ` set (items_of args). found (Unix now) (a_str a) k \<noteq> None)"
  using assms by (induction args rule: items_of.induct) (auto split: option.split)

lemma MSetNX_loop_rel:
  assumes "db_rel A db a" "ready (store db) valueTypeString (length (items_of args))" "roomy_args args"
    "inj_on memHash (fst ` set (items_of args) \<union> K)" "set seen = memHash ` K"
  shows "\<exists>db'. MSetNX_loop A memHash seen args db = (Inr (), db') \<and>
    db_rel A db' (a\<lparr>a_str := a_str a ++ map_of (filter (\<lambda>x. fst x \<notin> K) (items_of args))\<rparr>)"
  using assms
proof (induction args arbitrary: db a seen K rule: items_of.induct)
  case (1 k v args)
  let ?n = "length (items_of args)" and ?m = "\<lambda>K. map_of (filter (\<lambda>x. fst x \<notin> K) (items_of args))"
  have ra: "roomy_args args" using 1(4) by (simp add: roomy_args_def)
  have mem: "memHash k \<in> set seen \<longleftrightarrow> k \<in> K"
    using 1(5,6) by (auto simp: inj_on_def)
  show ?case
  proof (cases "k \<in> K")
    case True
    have "ready (store db) valueTypeString ?n"
      using 1(3) by (auto simp: ready_def intro: capacity_le chan_room_le)
    moreover have "inj_on memHash (fst ` set (items_of args) \<union> K)"
      using 1(5) by (rule inj_on_subset) auto
    ultimately show ?thesis using 1(1) [OF 1(2) _ ra _ 1(6)] True mem by simp
  next
    case False
    obtain db1 where s: "str_put A (mk_entry k (Some v)) db = (Inr (), db1)"
      "db_rel A db1 (str_upd a k (Some (v, 0)))" "ready (store db1) valueTypeString ?n"
      using str_put_mk [OF 1(2), of ?n k v] 1(3,4) by (auto simp: roomy_args_def)
    have "inj_on memHash (fst ` set (items_of args) \<union> insert k K)"
      using 1(5) by (rule inj_on_subset) auto
    then obtain db' where l: "MSetNX_loop A memHash (memHash k # seen) args db1 = (Inr (), db')"
      "db_rel A db' ((str_upd a k (Some (v, 0)))\<lparr>a_str := a_str (str_upd a k (Some (v, 0))) ++ ?m (insert k K)\<rparr>)"
      using 1(1) [OF s(2,3) ra, of "insert k K" "memHash k # seen"] 1(6) by (auto simp del: fun_upd_apply)
    have "?m (insert k K) x = (if x = k then None else ?m K x)" for x
      by (induction args rule: items_of.induct) auto
    then have eq: "(a_str a)(k \<mapsto> (v, 0)) ++ ?m (insert k K) =
        a_str a ++ map_of (filter (\<lambda>x. fst x \<notin> K) (items_of (k # v # args)))"
      using False by (auto simp: map_add_def fun_eq_iff split: option.split)
    have "db_rel A db' (a\<lparr>a_str := (a_str a)(k \<mapsto> (v, 0)) ++ ?m (insert k K)\<rparr>)"
      using l(2) by (simp add: str_upd_def)
    then have "db_rel A db' (a\<lparr>a_str := a_str a ++ map_of (filter (\<lambda>x. fst x \<notin> K) (items_of (k # v # args)))\<rparr>)"
      unfolding eq .
    moreover have "MSetNX_loop A memHash seen (k # v # args) db = (Inr (), db')"
      using False mem s(1) l(1) by simp
    ultimately show ?thesis by blast
  qed
qed (auto)

end

context value_index
begin

lemma MGet_loop_rel:
  "db_rel A db a \<Longrightarrow> MGet_loop A now keys db = Inr (map (found (Unix now) (a_str a)) keys)"
  by (induction keys) simp_all

lemma str_keys: "db_rel A db a \<Longrightarrow> map fst (ART_Iterator A (strIndex db)) = sorted_list_of_set (dom (a_str a))"
  by (simp add: idx.iter_sorted_keys index_rel_dom [OF db_relD(2)])

lemma str_node:
  assumes "db_rel A db a" "(k, v) \<in> set (ART_Iterator A (strIndex db))"
  shows "\<exists>x. a_str a k = Some x \<and> v_expiredAt v = snd x"
proof -
  have "rel_option (points (store db) valueTypeString k) (ART_Get A (strIndex db) k) (a_str a k)"
    using db_relD(2) [OF assms(1)] by (simp add: index_rel_def)
  moreover have "ART_Get A (strIndex db) k = Some v" using assms(2) by (simp add: idx.iter_get)
  ultimately show ?thesis by (auto simp: option_rel_Some1 points_def)
qed

lemma GetStrsKeys_rel:
  assumes "db_rel A db a"
  shows "GetStrsKeys A now db = Inr (filter (\<lambda>k. \<exists>v e. a_str a k = Some (v, e) \<and>
      (e = 0 \<or> sint (Unix now) < sint e)) (sorted_list_of_set (dom (a_str a))))"
proof -
  let ?P = "\<lambda>k. \<exists>v e. a_str a k = Some (v, e) \<and> (e = 0 \<or> sint (Unix now) < sint e)"
  have "filter (\<lambda>(key, v). \<not> (v_expiredAt v \<noteq> 0 \<and> sint (v_expiredAt v) \<le> sint (Unix now)))
      (ART_Iterator A (strIndex db)) = filter (?P \<circ> fst) (ART_Iterator A (strIndex db))"
    using str_node [OF assms] by (intro filter_cong) fastforce+
  then show ?thesis
    by (simp add: GetStrsKeys_def filter_map flip: str_keys [OF assms])
qed

lemma Count_rel: "db_rel A db a \<Longrightarrow> Count A db = card (dom (a_str a))"
  by (simp add: Count_def idx.siz_ok index_rel_dom [OF db_relD(2)])

lemma PrefixScan_rel:
  "db_rel A db a \<Longrightarrow> 0 < count \<Longrightarrow> ART_PrefixScan A (strIndex db) p count =
     take (nat count) (filter (has_prefix p) (sorted_list_of_set (dom (a_str a))))"
  by (simp add: idx.scan_ok str_keys)

lemma Scan_loop_rel:
  assumes "db_rel A db a"
  shows "Scan_loop A now reg keys db = Inr (concat (map (\<lambda>k. [Some k, found (Unix now) (a_str a) k])
    (filter (\<lambda>k. (case reg of None \<Rightarrow> True | Some mtch \<Rightarrow> mtch k) \<and> found (Unix now) (a_str a) k \<noteq> None) keys)))"
  using assms by (induction keys) (auto simp: lookup_item_found split: option.split)

end

lemma slice_upt: "b \<le> length v \<Longrightarrow> take (b - a) (drop a v) = map ((!) v) [a..<b]"
  by (rule nth_equalityI) auto

subsection \<open>Properties\<close>

text \<open>
  C4. Set writes the value and makes the key refer to it, without expiry: the database then
  stands for the updated map, every other key and data type is unchanged, and the replaced
  entry, if there was one, is the only thing reported to the discard table.
\<close>

theorem Set_refines:
  assumes "art_engine A" and rel: "db_rel A db a"
    and ok: "put_ok (store db) valueTypeString (mk_entry k v)" and room: "chan_room (store db) valueTypeString 1"
  shows "\<exists>db'. Set A k v db = (Inr (), db') \<and> db_rel A db' (str_upd a k (Some (bs v, 0))) \<and>
    chan_upd valueTypeString (old_node A (strIndex db) k) (store db) (store db')"
  using value_index.str_put_rel [OF value_index.intro [OF assms(1)] rel ok _ room]
  by (auto simp: Set_def SDelete_def)

theorem Set_refines_witness:
  "\<exists>db'. Set rbt_art (replicate 20 1) (Some [2]) sample_db = (Inr (), db') \<and>
     db_rel rbt_art db' (str_upd empty_adb (replicate 20 1) (Some ([2], 0)))"
  using Set_refines [OF art_engine_rbt sample_db_rel sample_put sample_chan, of "replicate 20 1" "Some [2]"] by auto

text \<open>
  C5. Get returns the value of a key that is in the map and not expired at the time of the
  call, and \<open>ErrKeyNotFound\<close> for every other key; no other result is possible.
\<close>

theorem Get_refines:
  assumes "art_engine A" "db_rel A db a"
  shows "Get A now k db = (case a_str a k of
      None \<Rightarrow> Inl ErrKeyNotFound
    | Some (v, e) \<Rightarrow> if e = 0 \<or> sint (Unix now) \<le> sint e then Inr (Some v) else Inl ErrKeyNotFound)"
  using value_index.str_get_rel [OF value_index.intro [OF assms(1)] assms(2)]
  by (simp add: Get_def lookup_item_def live_def split: option.split)

theorem Get_refines_witness: "Get rbt_art 0 [1] sample_db = Inl ErrKeyNotFound"
  using Get_refines [OF art_engine_rbt sample_db_rel, of 0 "[1]"] by (simp add: empty_adb_def)

text \<open>
  C6. Delete removes the key from the map, whether or not it was there, and reports both the
  removed entry and the delete entry itself as discarded.
\<close>

theorem Delete_refines:
  assumes "art_engine A" and rel: "db_rel A db a"
    and ok: "put_ok (store db) valueTypeString (del_entry k)" and room: "chan_room (store db) valueTypeString 2"
  shows "\<exists>db' node. Delete A k db = (Inr (), db') \<and> db_rel A db' (str_upd a k None) \<and>
    chan_upd valueTypeString (old_node A (strIndex db) k @ [node]) (store db) (store db') \<and>
    v_entrySize node = int (entry_size (del_entry k))"
  using value_index.str_del_rel [OF value_index.intro [OF assms(1)] rel ok room] by (auto simp: Delete_def)

theorem Delete_refines_witness:
  "\<exists>db'. Delete rbt_art (replicate 20 1) sample_db = (Inr (), db') \<and>
     db_rel rbt_art db' (str_upd empty_adb (replicate 20 1) None)"
  using Delete_refines [OF art_engine_rbt sample_db_rel sample_del sample_chan, of "replicate 20 1"] by auto

text \<open>
  GetDel returns the value that Get would return and removes the key; for a key that is
  missing or expired it returns nil and changes nothing.
\<close>

theorem GetDel_refines:
  assumes "art_engine A" and rel: "db_rel A db a"
    and ok: "put_ok (store db) valueTypeString (del_entry k)" and room: "chan_room (store db) valueTypeString 2"
  shows "\<exists>db'. GetDel A now k db = (Inr (found (Unix now) (a_str a) k), db') \<and>
    (if found (Unix now) (a_str a) k = None then db' = db else db_rel A db' (str_upd a k None))"
  using value_index.str_get_rel [OF value_index.intro [OF assms(1)] rel]
    value_index.str_del_rel [OF value_index.intro [OF assms(1)] rel ok room]
  by (auto simp: GetDel_def split: option.split)

theorem GetDel_refines_witness: "GetDel rbt_art 0 (replicate 20 1) sample_db = (Inr None, sample_db)"
  using GetDel_refines [OF art_engine_rbt sample_db_rel sample_del sample_chan, of "replicate 20 1" 0]
  by (auto simp: empty_adb_def found_def)

text \<open>
  After SetEX at time \<open>now\<close> with duration \<open>d\<close>, Get at time \<open>now'\<close> returns the value exactly
  while the clock, in seconds, has not passed \<open>now + d\<close>.
\<close>

theorem SetEX_then_Get:
  assumes "art_engine A" and rel: "db_rel A db a"
    and ok: "put_ok (store db) valueTypeString ((mk_entry k v)\<lparr>ExpiredAt := Unix (now + d)\<rparr>)"
    and room: "chan_room (store db) valueTypeString 1" and pos: "Unix (now + d) \<noteq> 0"
  shows "\<exists>db'. SetEX A now k v d db = (Inr (), db') \<and> db_rel A db' (str_upd a k (Some (bs v, Unix (now + d)))) \<and>
    Get A now' k db' =
      (if sint (Unix now') \<le> sint (Unix (now + d)) then Inr (Some (bs v)) else Inl ErrKeyNotFound)"
proof -
  note vi = value_index.intro [OF assms(1)]
  obtain db' where "SetEX A now k v d db = (Inr (), db')" "db_rel A db' (str_upd a k (Some (bs v, Unix (now + d))))"
    using value_index.str_put_rel [OF vi rel ok _ room] by (auto simp: SetEX_def SDelete_def)
  then show ?thesis
    using value_index.str_get_rel [OF vi, of db'] pos by (auto simp: Get_def lookup_item_def live_def)
qed

theorem SetEX_then_Get_witness:
  "\<exists>db'. SetEX rbt_art 0 (replicate 20 1) (Some [2]) 5000000000 sample_db = (Inr (), db') \<and>
     Get rbt_art 6000000000 (replicate 20 1) db' = Inl ErrKeyNotFound"
  using SetEX_then_Get [where k = "replicate 20 1" and v = "Some [2]" and now = 0 and d = 5000000000 and now' = 6000000000,
      OF art_engine_rbt sample_db_rel sample_roomy sample_chan]
    roomy_expiry [of "replicate 20 1" "Some [2]" 5]
  by (auto simp: Unix_def)

text \<open>SetNX sets the key only if Get would not find it, and otherwise changes nothing.\<close>

theorem SetNX_refines:
  assumes "art_engine A" and rel: "db_rel A db a"
    and ok: "put_ok (store db) valueTypeString (mk_entry k v)" and room: "chan_room (store db) valueTypeString 1"
  shows "\<exists>db'. SetNX A now k v db = (Inr (), db') \<and>
    (if found (Unix now) (a_str a) k = None then db_rel A db' (str_upd a k (Some (bs v, 0))) else db' = db)"
  using value_index.str_get_rel [OF value_index.intro [OF assms(1)] rel]
    value_index.str_put_rel [OF value_index.intro [OF assms(1)] rel ok _ room]
  by (auto simp: SetNX_def SDelete_def split: option.split)

theorem SetNX_refines_witness:
  "\<exists>db'. SetNX rbt_art 0 (replicate 20 1) (Some [2]) sample_db = (Inr (), db') \<and>
     db_rel rbt_art db' (str_upd empty_adb (replicate 20 1) (Some ([2], 0)))"
  using SetNX_refines [OF art_engine_rbt sample_db_rel sample_put sample_chan, of "replicate 20 1" "Some [2]" 0]
  by (auto simp: empty_adb_def found_def)

text \<open>
  MSet with an even, non-empty argument list sets every key to the last value given for
  it, in one call; an odd or empty list is an error and changes nothing.
\<close>

theorem MSet_refines:
  assumes "art_engine A" and rel: "db_rel A db a" and room: "roomy_args args"
    and ready: "ready (store db) valueTypeString (length (items_of args))"
  shows "if args = [] \<or> odd (length args) then MSet A args db = (Inl ErrInvalidParam, db)
    else \<exists>db'. MSet A args db = (Inr (), db') \<and>
      db_rel A db' (a\<lparr>a_str := a_str a ++ map_of (rev (items_of args))\<rparr>)"
  using value_index.MSet_loop_rel [OF value_index.intro [OF assms(1)] rel ready room]
  by (auto simp: MSet_def odd_iff_mod_2_eq_one)

theorem MSet_refines_witness:
  "\<exists>db'. MSet rbt_art [replicate 20 1, [2], replicate 20 1, [3]] sample_db = (Inr (), db') \<and>
     db_rel rbt_art db' (empty_adb\<lparr>a_str := [replicate 20 1 \<mapsto> ([3], 0)]\<rparr>)"
  using MSet_refines [OF art_engine_rbt sample_db_rel _ sample_ready, of "[replicate 20 1, [2], replicate 20 1, [3]]"]
  by (auto simp: roomy_args_def roomy_mk empty_adb_def)

text \<open>
  MSetNX sets nothing when one of the keys has a value; otherwise it sets every key to
  the first value given for it, provided that the hash it tells keys apart by has no
  collision among them.
\<close>

theorem MSetNX_refines:
  assumes "art_engine A" and rel: "db_rel A db a" and room: "roomy_args args"
    and ready: "ready (store db) valueTypeString (length (items_of args))"
    and inj: "inj_on (MemHash rt) (fst ` set (items_of args))" and args: "args \<noteq> []" "even (length args)"
  shows "\<exists>db'. MSetNX A rt now args db = (Inr (), db') \<and>
    (if \<exists>k \<in> fst ` set (items_of args). found (Unix now) (a_str a) k \<noteq> None then db' = db
     else db_rel A db' (a\<lparr>a_str := a_str a ++ map_of (items_of args)\<rparr>))"
proof -
  note vi = value_index.intro [OF assms(1)]
  obtain db' where "MSetNX_loop A (MemHash rt) [] args db = (Inr (), db')"
    "db_rel A db' (a\<lparr>a_str := a_str a ++ map_of (items_of args)\<rparr>)"
    using value_index.MSetNX_loop_rel [OF vi rel ready room, of "MemHash rt" "{}" "[]"] inj by auto
  moreover have "length args mod 2 = 0" using args(2) by presburger
  ultimately show ?thesis
    using value_index.MSetNX_check_rel [OF vi rel, of now args] args(1)
    by (cases "\<exists>k \<in> fst ` set (items_of args). found (Unix now) (a_str a) k \<noteq> None") (auto simp: MSetNX_def)
qed

theorem MSetNX_refines_witness:
  "\<exists>db'. MSetNX rbt_art (\<lambda>_ _ _. 5 :: 64 word) 0 [replicate 20 1, [2], replicate 20 1, [3]] sample_db = (Inr (), db') \<and>
     db_rel rbt_art db' (empty_adb\<lparr>a_str := [replicate 20 1 \<mapsto> ([2], 0)]\<rparr>)"
  using MSetNX_refines [OF art_engine_rbt sample_db_rel _ sample_ready, of "[replicate 20 1, [2], replicate 20 1, [3]]" "\<lambda>_ _ _. 5 :: 64 word" 0]
  by (auto simp: roomy_args_def roomy_mk empty_adb_def found_def)

text \<open>
  Two keys with the same hash are taken for one: MSetNX reports success and drops the value of
  the second.
\<close>

theorem MSetNX_collision:
  assumes "art_engine A" and rel: "db_rel A db a" and new: "a_str a k1 = None" "a_str a k2 = None"
    and col: "k1 \<noteq> k2" "MemHash rt k1 = MemHash rt k2"
    and ok: "put_ok (store db) valueTypeString (mk_entry k1 (Some v1))" "chan_room (store db) valueTypeString 1"
  shows "\<exists>db'. MSetNX A rt now [k1, v1, k2, v2] db = (Inr (), db') \<and> Get A now k2 db' = Inl ErrKeyNotFound"
proof -
  note vi = value_index.intro [OF assms(1)]
  obtain db' where d: "str_put A (mk_entry k1 (Some v1)) db = (Inr (), db')" "db_rel A db' (str_upd a k1 (Some (v1, 0)))"
    using value_index.str_put_rel [OF vi rel ok(1) _ ok(2)] by (auto simp: SDelete_def bs_def)
  have "Get A now k2 db' = Inl ErrKeyNotFound"
    using value_index.str_get_rel [OF vi d(2)] new(2) col(1) by (simp add: Get_def lookup_item_def str_upd_def)
  then show ?thesis
    using d(1) col new value_index.MSetNX_check_rel [OF vi rel, of now "[k1, v1, k2, v2]"]
    by (simp add: MSetNX_def found_def)
qed

theorem MSetNX_collision_witness:
  "\<exists>db'. MSetNX rbt_art (\<lambda>_ _ _. 5 :: 64 word) 0 [replicate 20 1, [2], replicate 20 3, [4]] sample_db = (Inr (), db') \<and>
     Get rbt_art 0 (replicate 20 3) db' = Inl ErrKeyNotFound"
  by (rule MSetNX_collision [OF art_engine_rbt sample_db_rel])
    (simp_all add: empty_adb_def MemHash_def rthash_def sample_put sample_chan bs_def)

text \<open>Append sets the key to the value Get would return, if any, followed by the argument.\<close>

theorem Append_refines:
  assumes "art_engine A" and rel: "db_rel A db a" and room: "chan_room (store db) valueTypeString 1"
    and new: "new = bs (found (Unix now) (a_str a) k) @ bs v"
    and ok: "put_ok (store db) valueTypeString (mk_entry k (Some new))"
    and old: "found (Unix now) (a_str a) k = None \<Longrightarrow> v \<noteq> None"
  shows "\<exists>db'. Append A now k v db = (Inr (), db') \<and> db_rel A db' (str_upd a k (Some (new, 0)))"
proof -
  note vi = value_index.intro [OF assms(1)]
  have "(case found (Unix now) (a_str a) k of None \<Rightarrow> v | Some w \<Rightarrow> Some (w @ bs v)) = Some new"
    using new old by (cases v) (auto split: option.split)
  then have "Append A now k v db = str_put A (mk_entry k (Some new)) db"
    using value_index.str_get_rel [OF vi rel] by (simp add: Append_def Let_def)
  then show ?thesis
    using value_index.str_put_rel [OF vi rel ok _ room] by (auto simp: SDelete_def)
qed

theorem Append_refines_witness:
  "\<exists>db'. Append rbt_art 0 (replicate 20 1) (Some [2]) sample_db = (Inr (), db') \<and>
     db_rel rbt_art db' (str_upd empty_adb (replicate 20 1) (Some ([2], 0)))"
  using Append_refines [where k = "replicate 20 1" and v = "Some [2]" and new = "[2]" and now = 0,
      OF art_engine_rbt sample_db_rel sample_chan _ sample_put]
  by (auto simp: found_def empty_adb_def)

context value_index
begin

lemma incrDecrBy_rel:
  assumes rel: "db_rel A db a" and room: "chan_room (store db) valueTypeString 1"
    and num: "ParseInt (let v = bs (found (Unix now) (a_str a) k) in if v = [] then str ''0'' else v) = Some x"
    and ok: "put_ok (store db) valueTypeString (mk_entry k (Some (FormatInt (x + incr))))"
  shows "if - (2 ^ 63) \<le> sint x + sint incr \<and> sint x + sint incr < 2 ^ 63
    then \<exists>db'. incrDecrBy A now k incr db = (Inr (x + incr), db') \<and> sint (x + incr) = sint x + sint incr \<and>
      db_rel A db' (str_upd a k (Some (FormatInt (x + incr), 0))) \<and> ParseInt (FormatInt (x + incr)) = Some (x + incr) \<and>
      str_put A (mk_entry k (Some (FormatInt (x + incr)))) db = (Inr (), db')
    else incrDecrBy A now k incr db = (Inl ErrIntegerOverFlow, db)"
proof -
  have r: "- (2 ^ 63) \<le> sint x" "sint x < 2 ^ 63" "- (2 ^ 63) \<le> sint incr" "sint incr < 2 ^ 63"
    using sint_greater_eq [of x] sint_less [of x] sint_greater_eq [of incr] sint_less [of incr] by simp_all
  obtain db' where p: "str_put A (mk_entry k (Some (FormatInt (x + incr)))) db = (Inr (), db')"
    "db_rel A db' (str_upd a k (Some (FormatInt (x + incr), 0)))"
    using str_put_rel [OF rel ok _ room] by (auto simp: SDelete_def)
  have e: "incrDecrBy A now k incr db =
      (if 0 < sint incr \<and> 0 < sint x \<and> 2 ^ 63 - 1 - sint x < sint incr \<or>
          sint incr < 0 \<and> sint x < 0 \<and> sint incr < - (2 ^ 63) - sint x
       then (Inl ErrIntegerOverFlow, db) else (Inr (x + incr), db'))"
    using str_get_rel [OF rel] num p(1) by (simp add: incrDecrBy_def Let_def)
  show ?thesis
  proof (cases "- (2 ^ 63) \<le> sint x + sint incr \<and> sint x + sint incr < 2 ^ 63")
    case True
    then have "sint (x + incr) = sint x + sint incr"
      by (simp add: sint_word_ariths signed_take_bit_int_eq_self)
    then show ?thesis using True e p ParseInt_FormatInt by auto
  next
    case False
    then show ?thesis using r e by auto
  qed
qed

end

text \<open>
  The counter operations (Incr, IncrBy, Decr, DecrBy all call incrDecrBy) on a key whose
  value is a decimal number, or that has no value: the sum is stored in decimal and returned
  exactly when it is in the range of \<open>int64\<close>; otherwise the overflow is reported and nothing
  changes.
\<close>

theorem incrDecrBy_refines:
  assumes "art_engine A" and rel: "db_rel A db a" and room: "chan_room (store db) valueTypeString 1"
    and num: "ParseInt (let v = bs (found (Unix now) (a_str a) k) in if v = [] then str ''0'' else v) = Some x"
    and ok: "put_ok (store db) valueTypeString (mk_entry k (Some (FormatInt (x + incr))))"
  shows "if - (2 ^ 63) \<le> sint x + sint incr \<and> sint x + sint incr < 2 ^ 63
    then \<exists>db'. incrDecrBy A now k incr db = (Inr (x + incr), db') \<and> sint (x + incr) = sint x + sint incr \<and>
      db_rel A db' (str_upd a k (Some (FormatInt (x + incr), 0))) \<and> ParseInt (FormatInt (x + incr)) = Some (x + incr)
    else incrDecrBy A now k incr db = (Inl ErrIntegerOverFlow, db)"
  using value_index.incrDecrBy_rel [OF value_index.intro [OF assms(1)] rel room num ok] by (auto split: if_splits)

theorem incrDecrBy_refines_witness:
  "\<exists>db'. incrDecrBy rbt_art 0 (replicate 20 1) 7 sample_db = (Inr 7, db') \<and>
     db_rel rbt_art db' (str_upd empty_adb (replicate 20 1) (Some (FormatInt 7, 0)))"
proof -
  have "ParseInt (str ''0'') = Some 0"
    by (simp add: ParseInt_def str_def is_digit_def digits_val_def)
  moreover have "length (FormatInt 7) < 2 ^ 32" using length_FormatInt(1) [of 7] by simp
  ultimately show ?thesis
    using incrDecrBy_refines [where k = "replicate 20 1" and x = 0 and incr = 7 and now = 0,
        OF art_engine_rbt sample_db_rel sample_chan _ sample_put]
    by (auto simp: found_def empty_adb_def)
qed

text \<open>
  GetRange returns the bytes between the two positions, both inclusive; negative positions
  count from the end, and positions outside the value are clipped to it.
\<close>

theorem GetRange_spec:
  assumes "art_engine A" "db_rel A db a"
  shows "GetRange A now k start stop db = (case found (Unix now) (a_str a) k of
      None \<Rightarrow> Inl ErrKeyNotFound
    | Some v \<Rightarrow>
        (let n = int (length v);
             s = max 0 (if start < 0 then n + start else start);
             e = min (n - 1) (max 0 (if stop < 0 then n + stop else stop))
         in Inr (Some (map ((!) v) [nat s..<nat (e + 1)]))))"
proof (cases "found (Unix now) (a_str a) k")
  case None
  then show ?thesis
    using value_index.str_get_rel [OF value_index.intro [OF assms(1)] assms(2)]
    by (simp add: GetRange_def lookup_item_found)
next
  case (Some v)
  define n where "n = int (length v)"
  have s: "max 0 (if start < 0 then n + start else start) = range_start n start"
    by (auto simp: range_start_def)
  have e: "min (n - 1) (max 0 (if stop < 0 then n + stop else stop)) = range_end n stop"
    by (auto simp: range_end_def Let_def)
  have b: "0 \<le> range_start n start" "range_end n stop \<le> n - 1" "0 \<le> range_end n stop + 1" "0 \<le> n"
    by (auto simp: range_start_def range_end_def n_def Let_def)
  have cut: "take (nat (range_end n stop + 1 - range_start n start)) (drop (nat (range_start n start)) v) =
      map ((!) v) [nat (range_start n start)..<nat (range_end n stop + 1)]"
    using b slice_upt [of "nat (range_end n stop + 1)" v "nat (range_start n start)"]
    by (simp add: n_def nat_diff_distrib')
  have "nat (range_end n stop + 1) \<le> nat (range_start n start)"
    if "n = 0 \<or> range_start n start > n - 1 \<or> range_start n start > range_end n stop"
    using that b by linarith
  then have "map ((!) v) [nat (range_start n start)..<nat (range_end n stop + 1)] = []"
    if "n = 0 \<or> range_start n start > n - 1 \<or> range_start n start > range_end n stop"
    using that by simp
  then show ?thesis
    using value_index.str_get_rel [OF value_index.intro [OF assms(1)] assms(2)] Some
    by (auto simp: GetRange_def lookup_item_found Let_def s e cut simp flip: n_def)
qed

theorem GetRange_spec_witness: "GetRange rbt_art 0 [1] 0 (- 1) sample_db = Inl ErrKeyNotFound"
  using GetRange_spec [OF art_engine_rbt sample_db_rel, of 0 "[1]" 0 "- 1"] by (simp add: found_def empty_adb_def)

text \<open>MGet returns, for each key in turn, its value or nil; no keys is an error.\<close>

theorem MGet_refines:
  assumes "art_engine A" "db_rel A db a"
  shows "MGet A now keys db =
    (if keys = [] then Inl ErrInvalidParam else Inr (map (found (Unix now) (a_str a)) keys))"
  using value_index.MGet_loop_rel [OF value_index.intro [OF assms(1)] assms(2)] by (simp add: MGet_def)

theorem MGet_refines_witness: "MGet rbt_art 0 [[1], [2]] sample_db = Inr [None, None]"
  using MGet_refines [OF art_engine_rbt sample_db_rel, of 0 "[[1], [2]]"] by (simp add: found_def empty_adb_def)

text \<open>
  GetStrsKeys lists, in order, the keys with no expiry or an expiry strictly in the future,
  and Count is the number of all keys, the expired ones included.
\<close>

theorem GetStrsKeys_Count:
  assumes "art_engine A" and rel: "db_rel A db a"
  shows "GetStrsKeys A now db = Inr (filter (\<lambda>k. \<exists>v e. a_str a k = Some (v, e) \<and>
      (e = 0 \<or> sint (Unix now) < sint e)) (sorted_list_of_set (dom (a_str a)))) \<and>
    Count A db = card (dom (a_str a))"
  using value_index.GetStrsKeys_rel [OF value_index.intro [OF assms(1)] rel]
    value_index.Count_rel [OF value_index.intro [OF assms(1)] rel] by simp

theorem GetStrsKeys_Count_witness: "GetStrsKeys rbt_art 0 sample_db = Inr [] \<and> Count rbt_art sample_db = 0"
  using GetStrsKeys_Count [OF art_engine_rbt sample_db_rel, of 0] by (simp add: empty_adb_def)

text \<open>
  Scan takes the first \<open>count\<close> keys, in order, that have the prefix, and returns those
  that match the pattern and are not expired, each followed by its value. A pattern that does
  not compile is an error, a count that is not positive gives nothing.
\<close>

theorem Scan_refines:
  assumes "art_engine A" and rel: "db_rel A db a"
  shows "Scan A compile now prefix pattern count db =
    (if count \<le> 0 then Inr []
     else if pattern \<noteq> [] \<and> compile pattern = None then Inl ErrRegexp
     else Inr (concat (map (\<lambda>k. [Some k, found (Unix now) (a_str a) k])
       (filter (\<lambda>k. (pattern = [] \<or> the (compile pattern) k) \<and> found (Unix now) (a_str a) k \<noteq> None)
         (take (nat count) (filter (has_prefix prefix) (sorted_list_of_set (dom (a_str a)))))))))"
proof -
  note vi = value_index.intro [OF assms(1)]
  have scan: "ART_PrefixScan A (strIndex db) prefix count =
      take (nat count) (filter (has_prefix prefix) (sorted_list_of_set (dom (a_str a))))" if "\<not> count \<le> 0"
    using that by (simp add: value_index.PrefixScan_rel [OF vi rel])
  show ?thesis
    using value_index.Scan_loop_rel [OF vi rel] by (auto simp: Scan_def scan)
qed

theorem Scan_refines_witness:
  "Scan rbt_art (\<lambda>_. None) 0 [] [] 10 sample_db = Inr [] \<and> Scan rbt_art (\<lambda>_. None) 0 [] [42] 10 sample_db = Inl ErrRegexp"
  using Scan_refines [OF art_engine_rbt sample_db_rel, of "\<lambda>_. None" 0 "[]" "[]" 10]
    Scan_refines [OF art_engine_rbt sample_db_rel, of "\<lambda>_. None" 0 "[]" "[42]" 10] by (simp add: empty_adb_def)

text \<open>
  Expire with a positive duration keeps the value of a key that is there and sets its
  expiry; TTL then gives the seconds that are left. A key that is missing or expired is an
  error and stays as it is.
\<close>

theorem Expire_refines:
  assumes "art_engine A" and rel: "db_rel A db a" and room: "chan_room (store db) valueTypeString 1"
    and d: "0 < d" and pos: "Unix (now' + d) \<noteq> 0"
    and ok: "\<And>v. found (Unix now) (a_str a) k = Some v \<Longrightarrow>
      put_ok (store db) valueTypeString ((mk_entry k (Some v))\<lparr>ExpiredAt := Unix (now' + d)\<rparr>)"
  shows "case found (Unix now) (a_str a) k of
      None \<Rightarrow> Expire A now now' k d db = (Inl ErrKeyNotFound, db)
    | Some v \<Rightarrow> \<exists>db'. Expire A now now' k d db = (Inr (), db') \<and>
        db_rel A db' (str_upd a k (Some (v, Unix (now' + d)))) \<and>
        TTL A now'' k db' = Inr (Unix (now' + d) - Unix now'')"
proof (cases "found (Unix now) (a_str a) k")
  case None
  then show ?thesis
    using d value_index.str_get_rel [OF value_index.intro [OF assms(1)] rel]
    by (simp add: Expire_def lookup_item_found)
next
  case (Some v)
  note vi = value_index.intro [OF assms(1)]
  let ?a = "str_upd a k (Some (v, Unix (now' + d)))"
  obtain db' where p: "Expire A now now' k d db = (Inr (), db')" "db_rel A db' ?a"
    using value_index.str_put_rel [OF vi rel ok [OF Some] _ room] value_index.str_get_rel [OF vi rel] d Some
    by (auto simp: Expire_def SetEX_def lookup_item_found SDelete_def)
  have "rel_option (points (store db') valueTypeString k) (ART_Get A (strIndex db') k) (Some (v, Unix (now' + d)))"
    using db_relD(2) [OF p(2)] by (simp add: index_rel_def) (metis fun_upd_same)
  then have "TTL A now'' k db' = Inr (Unix (now' + d) - Unix now'')"
    using pos by (auto simp: TTL_def option_rel_Some2 points_def)
  then show ?thesis using Some p by auto
qed

theorem Expire_refines_witness: "Expire rbt_art 0 0 [1] 5000000000 sample_db = (Inl ErrKeyNotFound, sample_db)"
  using Expire_refines [OF art_engine_rbt sample_db_rel sample_chan, of 5000000000 0 0 "[1]"]
  by (simp add: found_def empty_adb_def Unix_def)

end
