(* ===== verification/Hash_Ops.thy ===== *)
theory Hash_Ops
  imports Str_Ops
begin

text \<open>
  \<open>hash.go\<close>: the operations on hashes. The fields of a hash are kept in one index tree per
  hash, under the key that \<open>encodeKey\<close> builds from the hash's key and the field. The
  properties are stated over the abstract map of the hash; that different pairs of key and
  field have different encodings is what keeps them apart in the log.
\<close>

subsection \<open>Definitions\<close>

fun HSet_loop ::
    "('t, Value_t) art \<Rightarrow> bytes \<Rightarrow> bytes list \<Rightarrow> 't \<Rightarrow> Store \<Rightarrow> unit result \<times> 't \<times> Store" where
  "HSet_loop A key (field # value # args) t st =
     (case encodeKey key field of
        Inl e \<Rightarrow> (Inl e, t, st)
      | Inr hashKey \<Rightarrow>
          (case put_entry A valueTypeHash t (mk_entry hashKey (Some value)) False st of
             (Inl e, t', st') \<Rightarrow> (Inl e, t', st')
           | (Inr _, t', st') \<Rightarrow> HSet_loop A key args t' st'))"
| "HSet_loop A key _ t st = (Inr (), t, st)"

text \<open>The tree of a hash, created when there is none.\<close>

definition hash_tree :: "('t, Value_t) art \<Rightarrow> bytes \<Rightarrow> ('t, 's) LazyDB \<Rightarrow> 't" where
  "hash_tree A key db = (case hashIndex db key of None \<Rightarrow> NewART A | Some t \<Rightarrow> t)"

definition HSet ::
    "('t, Value_t) art \<Rightarrow> bytes \<Rightarrow> bytes list \<Rightarrow> ('t, 's) LazyDB \<Rightarrow> unit result \<times> ('t, 's) LazyDB" where
  "HSet A key args db =
     (if odd (length args) then (Inl ErrInvalidParam, db)
      else if length args = 0 then (Inr (), db)
      else case HSet_loop A key args (hash_tree A key db) (store db) of
             (r, t, st) \<Rightarrow> (r, db\<lparr>store := st, hashIndex := (hashIndex db)(key \<mapsto> t)\<rparr>))"

definition HGet :: "('t, Value_t) art \<Rightarrow> int \<Rightarrow> bytes \<Rightarrow> bytes \<Rightarrow> ('t, 's) LazyDB \<Rightarrow> slice result" where
  "HGet A now key field db =
     (case hashIndex db key of
        None \<Rightarrow> Inr None
      | Some idxTree \<Rightarrow>
          (case encodeKey key field of
             Inl e \<Rightarrow> Inl e
           | Inr hashKey \<Rightarrow> nil_if_missing (getValue A now idxTree hashKey valueTypeHash (store db))))"

text \<open>\<open>HDel\<close> returns the number of fields removed so far also with an error.\<close>

fun HDel_loop ::
    "('t, Value_t) art \<Rightarrow> bytes \<Rightarrow> bytes list \<Rightarrow> nat \<Rightarrow> 't \<Rightarrow> Store \<Rightarrow> (nat \<times> err option) \<times> 't \<times> Store" where
  "HDel_loop A key [] count t st = ((count, None), t, st)"
| "HDel_loop A key (field # flds) count t st =
     (case encodeKey key field of
        Inl e \<Rightarrow> ((count, Some e), t, st)
      | Inr hashKey \<Rightarrow>
          (case del_key A valueTypeHash t hashKey st of
             (Inl e, t', st') \<Rightarrow> ((count, Some e), t', st')
           | (Inr updated, t', st') \<Rightarrow> HDel_loop A key flds (if updated then count + 1 else count) t' st'))"

definition HDel ::
    "('t, Value_t) art \<Rightarrow> bytes \<Rightarrow> bytes list \<Rightarrow> ('t, 's) LazyDB \<Rightarrow> (nat \<times> err option) \<times> ('t, 's) LazyDB" where
  "HDel A key flds db =
     (case hashIndex db key of
        None \<Rightarrow> ((0, None), db)
      | Some idxTree \<Rightarrow>
          (case HDel_loop A key flds 0 idxTree (store db) of
             (r, t, st) \<Rightarrow> (r, db\<lparr>store := st, hashIndex := (hashIndex db)(key \<mapsto> t)\<rparr>)))"

definition HExists :: "('t, Value_t) art \<Rightarrow> int \<Rightarrow> bytes \<Rightarrow> bytes \<Rightarrow> ('t, 's) LazyDB \<Rightarrow> bool result" where
  "HExists A now key field db =
     (case hashIndex db key of
        None \<Rightarrow> Inr False
      | Some idxTree \<Rightarrow>
          (case encodeKey key field of
             Inl e \<Rightarrow> Inl e
           | Inr hashkey \<Rightarrow>
               (case getValue A now idxTree hashkey valueTypeHash (store db) of
                  Inl e \<Rightarrow> if e = ErrKeyNotFound then Inr False else Inl e
                | Inr _ \<Rightarrow> Inr True)))"

fun HGetAll_loop ::
    "('t, Value_t) art \<Rightarrow> int \<Rightarrow> bytes list \<Rightarrow> 't \<Rightarrow> Store \<Rightarrow> slice list result" where
  "HGetAll_loop A now [] t st = Inr []"
| "HGetAll_loop A now (k # ks) t st =
     (case getValue A now t k valueTypeHash st of
        Inl e \<Rightarrow> if e = ErrKeyNotFound then HGetAll_loop A now ks t st else Inl e
      | Inr value \<Rightarrow>
          (case decodeKey k of
             Inl e \<Rightarrow> Inl e
           | Inr (_, field) \<Rightarrow> map_sum id (\<lambda>rs. Some field # value # rs) (HGetAll_loop A now ks t st)))"

definition HGetAll :: "('t, Value_t) art \<Rightarrow> int \<Rightarrow> bytes \<Rightarrow> ('t, 's) LazyDB \<Rightarrow> slice list result" where
  "HGetAll A now key db =
     (case hashIndex db key of
        None \<Rightarrow> Inr []
      | Some idxTree \<Rightarrow> HGetAll_loop A now (map fst (ART_Iterator A idxTree)) idxTree (store db))"

fun HKeys_loop :: "bytes list \<Rightarrow> bytes list result" where
  "HKeys_loop [] = Inr []"
| "HKeys_loop (k # ks) =
     (case decodeKey k of
        Inl e \<Rightarrow> Inl e
      | Inr (_, field) \<Rightarrow> map_sum id (\<lambda>fs. field # fs) (HKeys_loop ks))"

definition HKeys :: "('t, Value_t) art \<Rightarrow> bytes \<Rightarrow> ('t, 's) LazyDB \<Rightarrow> bytes list result" where
  "HKeys A key db =
     (case hashIndex db key of
        None \<Rightarrow> Inr []
      | Some idxTree \<Rightarrow> HKeys_loop (map fst (ART_Iterator A idxTree)))"

fun HVals_loop :: "('t, Value_t) art \<Rightarrow> int \<Rightarrow> bytes list \<Rightarrow> 't \<Rightarrow> Store \<Rightarrow> slice list result" where
  "HVals_loop A now [] t st = Inr []"
| "HVals_loop A now (k # ks) t st =
     (case getValue A now t k valueTypeHash st of
        Inl e \<Rightarrow> if e = ErrKeyNotFound then HVals_loop A now ks t st else Inl e
      | Inr val \<Rightarrow> map_sum id (\<lambda>vs. val # vs) (HVals_loop A now ks t st))"

definition HVals :: "('t, Value_t) art \<Rightarrow> int \<Rightarrow> bytes \<Rightarrow> ('t, 's) LazyDB \<Rightarrow> slice list result" where
  "HVals A now key db =
     (case hashIndex db key of
        None \<Rightarrow> Inr []
      | Some idxTree \<Rightarrow> HVals_loop A now (map fst (ART_Iterator A idxTree)) idxTree (store db))"

definition HSetNX ::
    "('t, Value_t) art \<Rightarrow> int \<Rightarrow> bytes \<Rightarrow> bytes \<Rightarrow> slice \<Rightarrow> ('t, 's) LazyDB \<Rightarrow> unit result \<times> ('t, 's) LazyDB" where
  "HSetNX A now key field value db =
     (let idxTree = hash_tree A key db;
          db1 = db\<lparr>hashIndex := (hashIndex db)(key \<mapsto> idxTree)\<rparr>
      in case encodeKey key field of
           Inl e \<Rightarrow> (Inl e, db1)
         | Inr hashKey \<Rightarrow>
             (case getValue A now idxTree hashKey valueTypeHash (store db) of
                Inr _ \<Rightarrow> (Inr (), db1)
              | Inl e \<Rightarrow>
                  if e \<noteq> ErrKeyNotFound then (Inl e, db1)
                  else (case put_entry A valueTypeHash idxTree (mk_entry hashKey value) False (store db) of
                          (r, t, st) \<Rightarrow> (r, db1\<lparr>store := st, hashIndex := (hashIndex db)(key \<mapsto> t)\<rparr>))))"

fun HMGet_loop ::
    "('t, Value_t) art \<Rightarrow> int \<Rightarrow> bytes \<Rightarrow> bytes list \<Rightarrow> 't \<Rightarrow> Store \<Rightarrow> slice list result" where
  "HMGet_loop A now key [] t st = Inr []"
| "HMGet_loop A now key (field # flds) t st =
     (case encodeKey key field of
        Inl e \<Rightarrow> Inl e
      | Inr hashKey \<Rightarrow>
          (case getValue A now t hashKey valueTypeHash st of
             Inl e \<Rightarrow> if e = ErrKeyNotFound then HMGet_loop A now key flds t st else Inl e
           | Inr val \<Rightarrow> map_sum id (\<lambda>vs. val # vs) (HMGet_loop A now key flds t st)))"

definition HMGet :: "('t, Value_t) art \<Rightarrow> int \<Rightarrow> bytes \<Rightarrow> bytes list \<Rightarrow> ('t, 's) LazyDB \<Rightarrow> slice list result" where
  "HMGet A now key flds db =
     (case hashIndex db key of
        None \<Rightarrow> Inr []
      | Some idxTree \<Rightarrow> HMGet_loop A now key flds idxTree (store db))"

definition HLen :: "('t, Value_t) art \<Rightarrow> bytes \<Rightarrow> ('t, 's) LazyDB \<Rightarrow> nat" where
  "HLen A key db = (case hashIndex db key of None \<Rightarrow> 0 | Some idxTree \<Rightarrow> ART_Size A idxTree)"

subsection \<open>Refinement\<close>

definition hash_of :: "adb \<Rightarrow> bytes \<Rightarrow> imap" where
  "hash_of a key = (case a_hash a key of None \<Rightarrow> Map.empty | Some m \<Rightarrow> m)"

definition hash_upd :: "adb \<Rightarrow> bytes \<Rightarrow> imap \<Rightarrow> adb" where
  "hash_upd a key m = a\<lparr>a_hash := (a_hash a)(key \<mapsto> m)\<rparr>"

text \<open>The items that the arguments of \<open>HSet\<close> stand for.\<close>

definition hitems :: "bytes \<Rightarrow> bytes list \<Rightarrow> (bytes \<times> item) list" where
  "hitems key args = map (\<lambda>(f, x). (encoded key f, x)) (items_of args)"

definition hset_ok :: "bytes \<Rightarrow> bytes list \<Rightarrow> bool" where
  "hset_ok key args \<longleftrightarrow> length key < 2 ^ 32 \<and>
     (\<forall>(f, v, e) \<in> set (items_of args). length f < 2 ^ 32 \<and> roomy (mk_entry (encoded key f) (Some v)))"

definition hfields_ok :: "bytes \<Rightarrow> bytes list \<Rightarrow> bool" where
  "hfields_ok key flds \<longleftrightarrow> length key < 2 ^ 32 \<and>
     (\<forall>f \<in> set flds. length f < 2 ^ 32 \<and> roomy (del_entry (encoded key f)))"

lemma hash_upd_simps [simp]:
  "a_hash (hash_upd a key m) = (a_hash a)(key \<mapsto> m)" "a_str (hash_upd a key m) = a_str a"
  "hash_of (hash_upd a key m) k = (if k = key then m else hash_of a k)"
  by (simp_all add: hash_upd_def hash_of_def)

context value_index
begin

lemma hash_tree_rel:
  assumes "db_rel A db a"
  shows "index_rel A (store db) valueTypeHash (hash_tree A key db) (hash_of a key)"
  using db_relD(3) [OF assms, of key] new_rel
  by (auto simp: hash_tree_def hash_of_def split: option.split)

lemma hash_None: "db_rel A db a \<Longrightarrow> hashIndex db key = None \<longleftrightarrow> a_hash a key = None"
  using db_relD(3) [of A db a key] by (cases "hashIndex db key"; cases "a_hash a key") auto

lemma hash_Some:
  "db_rel A db a \<Longrightarrow> hashIndex db key = Some t \<Longrightarrow> index_rel A (store db) valueTypeHash t (hash_of a key)"
  using hash_tree_rel [of db a key] by (simp add: hash_tree_def)

lemma HSet_loop_rel:
  assumes "store_inv st" "index_rel A st valueTypeHash t m" "capacity st valueTypeHash (length (items_of args))"
    "hset_ok key args"
  shows "\<exists>t' st'. HSet_loop A key args t st = (Inr (), t', st') \<and> store_inv st' \<and> store_ext valueTypeHash st st' \<and>
    index_rel A st' valueTypeHash t' (m ++ map_of (rev (hitems key args))) \<and>
    spends valueTypeHash (length (items_of args)) 0 st st'"
  using assms
proof (induction args arbitrary: t st m rule: items_of.induct)
  case (1 f v args)
  let ?k = "encoded key f"
  have ok: "length key < 2 ^ 32" "length f < 2 ^ 32" "roomy (mk_entry ?k (Some v))" "hset_ok key args"
    using 1(5) by (auto simp: hset_ok_def)
  have cap: "capacity st valueTypeHash (Suc (length (items_of args)))" using 1(4) by simp
  obtain t1 st1 where p: "put_entry A valueTypeHash t (mk_entry ?k (Some v)) False st = (Inr (), t1, st1)"
    "store_inv st1" "store_ext valueTypeHash st st1" "capacity st1 valueTypeHash (length (items_of args))"
    "index_rel A st1 valueTypeHash t1 (m(?k \<mapsto> (v, 0)))" "spends valueTypeHash 1 0 st st1"
    using put_roomy [OF 1(2,3) cap ok(3)] by (auto simp: SDelete_def)
  obtain t' st' where "HSet_loop A key args t1 st1 = (Inr (), t', st')" "store_inv st'" "store_ext valueTypeHash st1 st'"
    "index_rel A st' valueTypeHash t' (m(?k \<mapsto> (v, 0)) ++ map_of (rev (hitems key args)))"
    "spends valueTypeHash (length (items_of args)) 0 st1 st'"
    using 1(1) [OF p(2,5,4) ok(4)] by blast
  then show ?case
    using p(1) store_ext_trans [OF p(3)] spends_trans [OF p(6)] encodeKey_encoded [OF ok(1,2)] by (simp add: hitems_def)
qed (auto simp: hitems_def)

lemma hash_get_rel:
  assumes "db_rel A db a" "hashIndex db key = Some t"
  shows "getValue A now t k valueTypeHash (store db) = lookup_item (Unix now) (hash_of a key) k"
  using getValue_rel [OF db_relD(1) [OF assms(1)] hash_Some [OF assms]] .

lemma HDel_loop_rel:
  assumes "store_inv st" "index_rel A st valueTypeHash t m" "capacity st valueTypeHash (length fs)"
    "chan_room st valueTypeHash (2 * length fs)" "hfields_ok key fs"
  shows "\<exists>t' st'. HDel_loop A key fs c t st = ((c + card (dom m \<inter> encoded key ` set fs), None), t', st') \<and>
    store_inv st' \<and> store_ext valueTypeHash st st' \<and> index_rel A st' valueTypeHash t' (m |` (- encoded key ` set fs)) \<and>
    spends valueTypeHash (length fs) (2 * length fs) st st'"
  using assms
proof (induction fs arbitrary: t st m c)
  case (Cons f fs)
  let ?k = "encoded key f" and ?S = "encoded key ` set fs"
  have ok: "length key < 2 ^ 32" "length f < 2 ^ 32" "roomy (del_entry ?k)" "hfields_ok key fs"
    using Cons(6) by (auto simp: hfields_ok_def)
  have cap: "capacity st valueTypeHash (Suc (length fs))" using Cons(4) by simp
  have "put_ok st valueTypeHash (del_entry ?k)"
    using ok(3) capacity_can_write [OF cap] by (auto simp: put_ok_def roomy_def fits_def)
  moreover have "chan_room st valueTypeHash (Suc (length (old_node A t ?k)))"
    using Cons(5) length_old_node [of A t ?k] by (intro chan_room_le [OF Cons(5)]) simp
  ultimately obtain t1 st1 node where d: "del_key A valueTypeHash t ?k st = (Inr (m ?k \<noteq> None), t1, st1)"
    "store_inv st1" "store_ext valueTypeHash st st1" "capacity st1 valueTypeHash (length fs)"
    "chan_upd valueTypeHash (old_node A t ?k @ [node]) st st1"
    "index_rel A st1 valueTypeHash t1 (m(?k := None))" "\<And>n. capacity st valueTypeHash (Suc n) \<Longrightarrow> capacity st1 valueTypeHash n"
    using del_key_rel [OF Cons(2,3), of ?k] cap by metis
  have sp: "spends valueTypeHash 1 2 st st1"
    using spends_le [OF spends_write [OF d(3,5,7)]] length_old_node [of A t ?k] by simp
  have "chan_room st1 valueTypeHash (2 * length fs)"
    using Cons(5) length_old_node [of A t ?k] by (intro chan_upd_room [OF d(5)] chan_room_le [OF Cons(5)]) simp
  then obtain t' st' where l: "HDel_loop A key fs (if m ?k \<noteq> None then c + 1 else c) t1 st1 =
      (((if m ?k \<noteq> None then c + 1 else c) + card (dom (m(?k := None)) \<inter> ?S), None), t', st')"
    "store_inv st'" "store_ext valueTypeHash st1 st'" "index_rel A st' valueTypeHash t' ((m(?k := None)) |` (- ?S))"
    "spends valueTypeHash (length fs) (2 * length fs) st1 st'"
    using Cons(1) [OF d(2,6,4) _ ok(4)] by blast
  have "dom m \<inter> insert ?k ?S = (if m ?k \<noteq> None then insert ?k (dom (m(?k := None)) \<inter> ?S) else dom (m(?k := None)) \<inter> ?S)"
    by auto
  then have "card (dom m \<inter> insert ?k ?S) = (if m ?k \<noteq> None then 1 else 0) + card (dom (m(?k := None)) \<inter> ?S)"
    by (auto simp: card_insert_if)
  moreover have "(m(?k := None)) |` (- ?S) = m |` (- insert ?k ?S)"
    by (auto simp: restrict_map_def)
  ultimately show ?case
    using d(1) l store_ext_trans [OF d(3) l(3)] spends_trans [OF sp l(5)] encodeKey_encoded [OF ok(1,2)] by simp
qed (auto simp: restrict_map_def)

text \<open>A hash whose index keys are all encodings of its own fields.\<close>

lemma hash_list:
  assumes "db_rel A db a" "hashIndex db key = Some t" "dom (hash_of a key) \<subseteq> range (encoded key)"
    and len: "length key < 2 ^ 32"
  obtains fs where "map fst (ART_Iterator A t) = map (encoded key) fs" "distinct fs"
    "set fs = {f. encoded key f \<in> dom (hash_of a key)}"
proof -
  have dom: "dom (ART_Get A t) = dom (hash_of a key)"
    using index_rel_dom [OF hash_Some [OF assms(1,2)]] .
  then have "\<forall>x \<in> set (map fst (ART_Iterator A t)). \<exists>f. x = encoded key f"
    using assms(3) idx.iter_keys [of t] by blast
  then obtain fs where fs: "map fst (ART_Iterator A t) = map (encoded key) fs"
    using ex_map_conv by metis
  have "distinct fs"
    using idx.iter_ok(2) [of t] unfolding fs by (simp add: distinct_map)
  have im: "encoded key ` set fs = dom (hash_of a key)"
    using idx.iter_keys [of t] unfolding fs dom by simp
  have "inj (encoded key)" using encoded_inj [OF len len] by (simp add: inj_on_def)
  then have "set fs = {f. encoded key f \<in> dom (hash_of a key)}"
    unfolding im [symmetric] by (simp add: inj_image_mem_iff)
  with fs \<open>distinct fs\<close> show thesis by (rule that)
qed

lemma HGetAll_loop_rel:
  assumes "db_rel A db a" "hashIndex db key = Some t" "length key < 2 ^ 32"
  shows "HGetAll_loop A now (map (encoded key) fs) t (store db) =
      Inr (concat (map (\<lambda>f. [Some f, found (Unix now) (hash_of a key) (encoded key f)])
        (filter (\<lambda>f. found (Unix now) (hash_of a key) (encoded key f) \<noteq> None) fs)))"
    and "HVals_loop A now (map (encoded key) fs) t (store db) =
      Inr (map (\<lambda>f. found (Unix now) (hash_of a key) (encoded key f))
        (filter (\<lambda>f. found (Unix now) (hash_of a key) (encoded key f) \<noteq> None) fs))"
    and "HKeys_loop (map (encoded key) fs) = Inr fs"
  by (induction fs; simp add: hash_get_rel [OF assms(1,2)] lookup_item_found decodeKey_encoded [OF assms(3)]
      split: option.split)+

lemma size_length: "ART_Size A t = length (ART_Iterator A t)"
  using distinct_card [OF idx.iter_ok(2) [of t]] by (simp add: idx.siz_ok idx.iter_keys [symmetric])

lemma HMGet_loop_rel:
  assumes "db_rel A db a" "hashIndex db key = Some t" "length key < 2 ^ 32" "\<forall>f \<in> set fs. length f < 2 ^ 32"
  shows "HMGet_loop A now key fs t (store db) =
      Inr (filter (\<lambda>v. v \<noteq> None) (map (\<lambda>f. found (Unix now) (hash_of a key) (encoded key f)) fs))"
  using assms(4)
  by (induction fs) (auto simp: hash_get_rel [OF assms(1,2)] lookup_item_found encodeKey_encoded [OF assms(3)]
      split: option.split)

end

lemma hset_ok_sample: "hset_ok [1] [replicate 20 2, [3]]"
proof -
  have "length (encoded [1] (replicate 20 2)) = length (PutVarint (word_of_nat 1)) + length (PutVarint (word_of_nat 20)) + 21"
    by (simp add: encoded_def)
  moreover have "length (PutVarint (word_of_nat 1)) \<le> 10" "length (PutVarint (word_of_nat 20)) \<le> 10"
    by (rule length_PutVarint_10)+
  ultimately show ?thesis by (simp add: hset_ok_def roomy_mk)
qed

subsection \<open>Properties\<close>

context value_index
begin

lemma HSet_rel:
  assumes rel: "db_rel A db a" and ok: "hset_ok key args" "args \<noteq> []" "even (length args)"
    and cap: "capacity (store db) valueTypeHash (length (items_of args))"
  shows "\<exists>db'. HSet A key args db = (Inr (), db') \<and>
    db_rel A db' (hash_upd a key (hash_of a key ++ map_of (rev (hitems key args)))) \<and>
    (dom (hash_of a key) \<subseteq> range (encoded key) \<longrightarrow>
       dom (hash_of a key ++ map_of (rev (hitems key args))) \<subseteq> range (encoded key)) \<and>
    spends valueTypeHash (length (items_of args)) 0 (store db) (store db')"
proof -
  obtain t st where l: "HSet_loop A key args (hash_tree A key db) (store db) = (Inr (), t, st)"
    "store_inv st" "store_ext valueTypeHash (store db) st"
    "index_rel A st valueTypeHash t (hash_of a key ++ map_of (rev (hitems key args)))"
    "spends valueTypeHash (length (items_of args)) 0 (store db) st"
    using HSet_loop_rel [OF db_relD(1) [OF rel] hash_tree_rel [OF rel] cap ok(1)] by blast
  have "dom (map_of (rev (hitems key args))) \<subseteq> range (encoded key)"
    by (auto simp: dom_map_of_conv_image_fst hitems_def)
  then show ?thesis
    using l(1) ok(2,3) db_rel_hash [OF rel l(2,3), of "Some t"] l(4,5) by (auto simp: HSet_def hash_upd_def)
qed

lemma HGet_rel:
  assumes rel: "db_rel A db a" and len: "length key < 2 ^ 32" "length f < 2 ^ 32"
    and fs: "\<forall>g \<in> set fs. length g < 2 ^ 32"
  shows "HGet A now key f db = Inr (found (Unix now) (hash_of a key) (encoded key f)) \<and>
    HExists A now key f db = Inr (found (Unix now) (hash_of a key) (encoded key f) \<noteq> None) \<and>
    HMGet A now key fs db = Inr (filter (\<lambda>v. v \<noteq> None) (map (\<lambda>g. found (Unix now) (hash_of a key) (encoded key g)) fs))"
proof (cases "hashIndex db key")
  case None
  then have "hash_of a key = Map.empty"
    using hash_None [OF rel, of key] by (simp add: hash_of_def)
  then show ?thesis using None by (simp add: HGet_def HExists_def HMGet_def found_def)
next
  case (Some t)
  show ?thesis
    using Some HMGet_loop_rel [OF rel Some len(1) fs]
    by (simp add: HGet_def HExists_def HMGet_def encodeKey_encoded [OF len] hash_get_rel [OF rel Some]
        lookup_item_found nil_if_missing_def split: option.split)
qed

lemma HDel_rel:
  assumes rel: "db_rel A db a" and ok: "hfields_ok key fs"
    and cap: "capacity (store db) valueTypeHash (length fs)" "chan_room (store db) valueTypeHash (2 * length fs)"
  shows "case a_hash a key of
      None \<Rightarrow> HDel A key fs db = ((0, None), db)
    | Some m \<Rightarrow> \<exists>db'. HDel A key fs db = ((card (dom m \<inter> encoded key ` set fs), None), db') \<and>
        db_rel A db' (hash_upd a key (m |` (- encoded key ` set fs))) \<and>
        spends valueTypeHash (length fs) (2 * length fs) (store db) (store db')"
proof (cases "a_hash a key")
  case None
  then show ?thesis using hash_None [OF rel, of key] by (simp add: HDel_def)
next
  case (Some m)
  obtain t where t: "hashIndex db key = Some t"
    using hash_None [OF rel, of key] Some by auto
  have m: "hash_of a key = m" using Some by (simp add: hash_of_def)
  obtain t' st where l: "HDel_loop A key fs 0 t (store db) = ((card (dom m \<inter> encoded key ` set fs), None), t', st)"
    "store_inv st" "store_ext valueTypeHash (store db) st" "index_rel A st valueTypeHash t' (m |` (- encoded key ` set fs))"
    "spends valueTypeHash (length fs) (2 * length fs) (store db) st"
    using HDel_loop_rel [OF db_relD(1) [OF rel] hash_Some [OF rel t] cap ok, of 0]
    by (auto simp: m)
  then show ?thesis
    using t Some db_rel_hash [OF rel l(2,3), of "Some t'"] by (auto simp: HDel_def hash_upd_def)
qed

end

text \<open>
  C12. HSet with an even argument list sets every field to the last value given for it. The
  fields stay encodings of this hash's fields, and no other hash, string or list changes.
\<close>

theorem HSet_refines:
  assumes "art_engine A" and "db_rel A db a" and "hset_ok key args" "args \<noteq> []" "even (length args)"
    and "capacity (store db) valueTypeHash (length (items_of args))"
  shows "\<exists>db'. HSet A key args db = (Inr (), db') \<and>
    db_rel A db' (hash_upd a key (hash_of a key ++ map_of (rev (hitems key args)))) \<and>
    (dom (hash_of a key) \<subseteq> range (encoded key) \<longrightarrow>
       dom (hash_of a key ++ map_of (rev (hitems key args))) \<subseteq> range (encoded key))"
  using value_index.HSet_rel [OF value_index.intro [OF assms(1)] assms(2-)] by blast

theorem HSet_refines_witness:
  "\<exists>db'. HSet rbt_art [1] [replicate 20 2, [3]] sample_db = (Inr (), db') \<and>
     db_rel rbt_art db' (hash_upd empty_adb [1] [encoded [1] (replicate 20 2) \<mapsto> ([3], 0)])"
  using HSet_refines [OF art_engine_rbt sample_db_rel hset_ok_sample] sample_ready [of 1]
  by (auto simp: hitems_def hash_of_def empty_adb_def ready_def)

text \<open>
  HGet, HExists and HMGet give the current values of the fields; a missing hash or field is
  nil, false or left out, never an error.
\<close>

theorem HGet_refines:
  assumes "art_engine A" and "db_rel A db a" and "length key < 2 ^ 32" "length f < 2 ^ 32"
    and "\<forall>g \<in> set fs. length g < 2 ^ 32"
  shows "HGet A now key f db = Inr (found (Unix now) (hash_of a key) (encoded key f)) \<and>
    HExists A now key f db = Inr (found (Unix now) (hash_of a key) (encoded key f) \<noteq> None) \<and>
    HMGet A now key fs db = Inr (filter (\<lambda>v. v \<noteq> None) (map (\<lambda>g. found (Unix now) (hash_of a key) (encoded key g)) fs))"
  using value_index.HGet_rel [OF value_index.intro [OF assms(1)] assms(2-)] .

theorem HGet_refines_witness:
  "HGet rbt_art 0 [1] [2] sample_db = Inr None \<and> HExists rbt_art 0 [1] [2] sample_db = Inr False"
  using HGet_refines [OF art_engine_rbt sample_db_rel, of "[1]" "[2]" "[]" 0]
  by (simp add: found_def hash_of_def empty_adb_def)

text \<open>
  C27. HDel removes the given fields from the hash and returns how many of them were there,
  counting a field given twice once.
\<close>

theorem HDel_refines:
  assumes "art_engine A" and "db_rel A db a" and "hfields_ok key fs"
    and "capacity (store db) valueTypeHash (length fs)" "chan_room (store db) valueTypeHash (2 * length fs)"
  shows "case a_hash a key of
      None \<Rightarrow> HDel A key fs db = ((0, None), db)
    | Some m \<Rightarrow> \<exists>db'. HDel A key fs db = ((card (dom m \<inter> encoded key ` set fs), None), db') \<and>
        db_rel A db' (hash_upd a key (m |` (- encoded key ` set fs)))"
  using value_index.HDel_rel [OF value_index.intro [OF assms(1)] assms(2-)] by (force split: option.splits)

theorem HDel_refines_witness:
  "\<exists>db db'. HSet rbt_art [1] [replicate 20 2, [3]] sample_db = (Inr (), db) \<and> HGet rbt_art 0 [1] (replicate 20 2) db = Inr (Some [3]) \<and>
     HDel rbt_art [1] [replicate 20 2, replicate 20 4, replicate 20 2] db = ((1, None), db') \<and>
     HGet rbt_art 0 [1] (replicate 20 2) db' = Inr None"
proof -
  let ?k = "encoded [1] (replicate 20 2)" and ?fs = "[replicate 20 2, replicate 20 4, replicate 20 2] :: bytes list"
  have cap: "capacity (store sample_db) valueTypeHash (1 + 3)" using sample_ready [of 4] by (simp add: ready_def)
  obtain db where db: "HSet rbt_art [1] [replicate 20 2, [3]] sample_db = (Inr (), db)"
    "db_rel rbt_art db (hash_upd empty_adb [1] [?k \<mapsto> ([3], 0)])" "spends valueTypeHash 1 0 (store sample_db) (store db)"
    using rbt_values.HSet_rel [OF sample_db_rel hset_ok_sample] capacity_le [OF cap, of 1] by (auto simp: hitems_def hash_of_def empty_adb_def)
  have "length (encoded [1] (replicate 20 x)) < 2 ^ 32" "15 \<le> length (encoded [1] (replicate 20 x))" for x
    using length_PutVarint_10 [of "word_of_nat 1"] length_PutVarint_10 [of "word_of_nat 20"] by (simp_all add: encoded_def)
  then have ok: "hfields_ok [1] ?fs" by (simp add: hfields_ok_def roomy_del)
  have c: "capacity (store db) valueTypeHash (length ?fs)" using spendsD(2) [OF db(3) cap] by (simp add: numeral_3_eq_3)
  have r: "chan_room (store db) valueTypeHash (2 * length ?fs)"
    using spendsD(3) [OF db(3)] sample_chan [of 6 valueTypeHash] by (simp add: chan_grows_def chan_room_def)
  have one: "encoded [1] (replicate 20 4) \<noteq> ?k" using encoded_inj [of "[1]" "[1]" "replicate 20 4" "replicate 20 2"] by (auto simp: replicate_eq_replicate)
  then have "card (dom [?k \<mapsto> ([3] :: bytes, 0 :: i64)] \<inter> encoded [1] ` set ?fs) = 1" by auto
  then obtain db' where db': "HDel rbt_art [1] ?fs db = ((1, None), db')"
    "db_rel rbt_art db' (hash_upd (hash_upd empty_adb [1] [?k \<mapsto> ([3], 0)]) [1] ([?k \<mapsto> ([3], 0)] |` (- encoded [1] ` set ?fs)))"
    using HDel_refines [OF art_engine_rbt db(2) ok c r] by auto
  have "HGet rbt_art 0 [1] (replicate 20 2) db = Inr (Some [3])" "HGet rbt_art 0 [1] (replicate 20 2) db' = Inr None"
    using rbt_values.HGet_rel [OF db(2), of "[1]" "replicate 20 2" "[]" 0] rbt_values.HGet_rel [OF db'(2), of "[1]" "replicate 20 2" "[]" 0]
    by (simp_all add: found_def live_def)
  then show ?thesis using db(1) db'(1) by blast
qed

text \<open>
  Two writes to different fields, or to fields of different hashes, never touch each
  other: what HGet returns for one pair of key and field depends only on writes to it.
\<close>

theorem HSet_other_field:
  assumes "art_engine A" and rel: "db_rel A db a" and ok: "hset_ok key [f, v]"
    and cap: "capacity (store db) valueTypeHash 1"
    and len: "length key' < 2 ^ 32" "length f' < 2 ^ 32"
  shows "\<exists>db'. HSet A key [f, v] db = (Inr (), db') \<and>
    HGet A now key' f' db' = (if key' = key \<and> f' = f then Inr (Some v) else HGet A now key' f' db)"
proof -
  note vi = value_index.intro [OF assms(1)]
  have k: "length key < 2 ^ 32" using ok by (simp add: hset_ok_def)
  let ?a = "hash_upd a key ((hash_of a key)(encoded key f \<mapsto> (v, 0)))"
  obtain t st where l: "HSet_loop A key [f, v] (hash_tree A key db) (store db) = (Inr (), t, st)"
    "store_inv st" "store_ext valueTypeHash (store db) st"
    "index_rel A st valueTypeHash t ((hash_of a key)(encoded key f \<mapsto> (v, 0)))"
    using value_index.HSet_loop_rel [OF vi db_relD(1) [OF rel] value_index.hash_tree_rel [OF vi rel, of key], of "[f, v]" key]
      ok cap by (auto simp: hitems_def simp del: HSet_loop.simps)
  define db' where "db' = db\<lparr>store := st, hashIndex := (hashIndex db)(key \<mapsto> t)\<rparr>"
  have rel': "db_rel A db' ?a"
    using db_rel_hash [OF rel l(2,3), of "Some t" "Some ((hash_of a key)(encoded key f \<mapsto> (v, 0)))" key] l(4)
    by (simp add: db'_def hash_upd_def)
  have g: "HGet A now key' f' d = Inr (found (Unix now) (hash_of b key') (encoded key' f'))" if "db_rel A d b" for d b
    using value_index.hash_get_rel [OF vi that] value_index.hash_None [OF vi that, of key']
    by (cases "hashIndex d key'")
      (simp_all add: HGet_def encodeKey_encoded [OF len] hash_of_def found_def split: option.split)
  have "encoded key f' \<noteq> encoded key f" if "f' \<noteq> f" using that encoded_inj [OF k k] by simp
  then show ?thesis
    using l(1) g [OF rel] g [OF rel'] by (auto simp: HSet_def db'_def found_def live_def)
qed

theorem HSet_other_field_witness:
  "\<exists>db'. HSet rbt_art [1] [replicate 20 2, [3]] sample_db = (Inr (), db') \<and>
     HGet rbt_art 0 [1] (replicate 20 2) db' = Inr (Some [3])"
  using HSet_other_field [OF art_engine_rbt sample_db_rel hset_ok_sample, of "[1]" "replicate 20 2" 0] sample_ready [of 1]
  by (auto simp: ready_def)

text \<open>
  The listing operations agree with each other: for one enumeration of the fields of the
  hash, HKeys is that enumeration, HLen its length, HVals the values of the fields that are
  not expired and HGetAll those fields each followed by its value.
\<close>

theorem hash_listings:
  assumes "art_engine A" and rel: "db_rel A db a" and len: "length key < 2 ^ 32"
    and dom: "dom (hash_of a key) \<subseteq> range (encoded key)"
  shows "\<exists>fs. distinct fs \<and> set fs = {f. encoded key f \<in> dom (hash_of a key)} \<and>
    HKeys A key db = Inr fs \<and> HLen A key db = length fs \<and>
    (let fs' = filter (\<lambda>f. found (Unix now) (hash_of a key) (encoded key f) \<noteq> None) fs;
         val = (\<lambda>f. found (Unix now) (hash_of a key) (encoded key f))
     in HVals A now key db = Inr (map val fs') \<and> HGetAll A now key db = Inr (concat (map (\<lambda>f. [Some f, val f]) fs')))"
proof (cases "hashIndex db key")
  case None
  then have "hash_of a key = Map.empty"
    using value_index.hash_None [OF value_index.intro [OF assms(1)] rel, of key] by (simp add: hash_of_def)
  then show ?thesis using None by (simp add: HKeys_def HLen_def HVals_def HGetAll_def)
next
  case (Some t)
  note vi = value_index.intro [OF assms(1)]
  obtain fs where fs: "map fst (ART_Iterator A t) = map (encoded key) fs" "distinct fs"
    "set fs = {f. encoded key f \<in> dom (hash_of a key)}"
    using value_index.hash_list [OF vi rel Some dom len] .
  have "length (map fst (ART_Iterator A t)) = length fs" unfolding fs(1) by simp
  then have "HLen A key db = length fs"
    using Some by (simp add: HLen_def value_index.size_length [OF vi])
  then show ?thesis
    using Some fs value_index.HGetAll_loop_rel [OF vi rel Some len]
    by (intro exI [of _ fs]) (simp add: HKeys_def HVals_def HGetAll_def Let_def)
qed

theorem hash_listings_witness: "HKeys rbt_art [1] sample_db = Inr [] \<and> HGetAll rbt_art 0 [1] sample_db = Inr []"
  using hash_listings [OF art_engine_rbt sample_db_rel, of "[1]" 0]
  by (auto simp: found_def hash_of_def empty_adb_def Let_def)

end
