(* ===== verification/List_Ops.thy ===== *)
theory List_Ops
  imports Str_Ops
begin

text \<open>
  \<open>list.go\<close>: the operations on lists. A list is one index tree: under the list's key the
  sequence numbers just before its first and just after its last element, under each element's
  sequence number followed by the key the element. Sequence numbers are \<open>uint32\<close> and wrap.

  \<open>lrep key m head xs\<close> says that the tree's map \<open>m\<close> stands for the list \<open>xs\<close>; the properties
  say that the operations act on \<open>xs\<close> as on a double-ended queue, as long as the sequence
  numbers do not wrap. Keys of at least eleven bytes make every entry of a list long enough
  to be readable wherever it is in the log.
\<close>

subsection \<open>Definitions\<close>

definition initialListSeq :: u32 where
  "initialListSeq = 2147483647"

definition encodeListKey :: "bytes \<Rightarrow> u32 \<Rightarrow> bytes" where
  "encodeListKey key seq = le32 seq @ key"

definition decodeListKey :: "bytes \<Rightarrow> (bytes \<times> u32) result" where
  "decodeListKey buf = (case un_le32 buf of Inl e \<Rightarrow> Inl e | Inr seq \<Rightarrow> Inr (drop 4 buf, seq))"

definition lMeta ::
    "('t, Value_t) art \<Rightarrow> int \<Rightarrow> 't \<Rightarrow> bytes \<Rightarrow> Store \<Rightarrow> (u32 \<times> u32) result" where
  "lMeta A now idxTree key st =
     (case nil_if_missing (getValue A now idxTree key valueTypeList st) of
        Inl e \<Rightarrow> Inl e
      | Inr value \<Rightarrow>
          if length (bs value) = 0 then Inr (initialListSeq, initialListSeq + 1)
          else if length (bs value) < 8 then Inl Panic
          else (case (un_le32 (bs value), un_le32 (drop 4 (bs value))) of
                  (Inr headSeq, Inr tailSeq) \<Rightarrow> Inr (headSeq, tailSeq)
                | _ \<Rightarrow> Inl Panic))"

definition meta_entry :: "bytes \<Rightarrow> u32 \<Rightarrow> u32 \<Rightarrow> LogEntry" where
  "meta_entry key headSeq tailSeq = (mk_entry key (Some (le32 headSeq @ le32 tailSeq)))\<lparr>Stat := SListMeta\<rparr>"

definition saveLMeta ::
    "('t, Value_t) art \<Rightarrow> 't \<Rightarrow> bytes \<Rightarrow> u32 \<Rightarrow> u32 \<Rightarrow> Store \<Rightarrow> unit result \<times> 't \<times> Store" where
  "saveLMeta A idxTree key headSeq tailSeq st =
     put_entry A valueTypeList idxTree (meta_entry key headSeq tailSeq) False st"

definition lSequence :: "u32 \<Rightarrow> u32 \<Rightarrow> int \<Rightarrow> u32" where
  "lSequence headSeq tailSeq index =
     (if 0 \<le> index then headSeq + word_of_int index + 1 else tailSeq - word_of_int (- index))"

text \<open>A tree of the list index, updated in place.\<close>

definition set_list :: "bytes \<Rightarrow> 't \<Rightarrow> Store \<Rightarrow> ('t, 's) LazyDB \<Rightarrow> ('t, 's) LazyDB" where
  "set_list key t st db = db\<lparr>store := st, listIndex := (listIndex db)(key \<mapsto> t)\<rparr>"

definition push ::
    "('t, Value_t) art \<Rightarrow> int \<Rightarrow> bytes \<Rightarrow> bytes \<Rightarrow> bool \<Rightarrow> ('t, 's) LazyDB \<Rightarrow> unit result \<times> ('t, 's) LazyDB" where
  "push A now key arg isLeft db =
     (case listIndex db key of
        None \<Rightarrow> (Inl Panic, db)
      | Some idxTree \<Rightarrow>
          (case lMeta A now idxTree key (store db) of
             Inl e \<Rightarrow> (Inl e, db)
           | Inr (headSeq, tailSeq) \<Rightarrow>
               (let s = (if isLeft then headSeq else tailSeq);
                    entry = mk_entry (encodeListKey key s) (Some arg)
                in case put_entry A valueTypeList idxTree entry False (store db) of
                     (Inl e, t1, st1) \<Rightarrow> (Inl e, set_list key t1 st1 db)
                   | (Inr _, t1, st1) \<Rightarrow>
                       (case saveLMeta A t1 key (if isLeft then headSeq - 1 else headSeq)
                               (if isLeft then tailSeq else tailSeq + 1) st1 of
                          (r, t2, st2) \<Rightarrow> (r, set_list key t2 st2 db)))))"

fun push_all ::
    "('t, Value_t) art \<Rightarrow> int \<Rightarrow> bytes \<Rightarrow> bytes list \<Rightarrow> bool \<Rightarrow> ('t, 's) LazyDB \<Rightarrow> unit result \<times> ('t, 's) LazyDB" where
  "push_all A now key [] isLeft db = (Inr (), db)"
| "push_all A now key (arg # args) isLeft db =
     (case push A now key arg isLeft db of
        (Inl e, db') \<Rightarrow> (Inl e, db')
      | (Inr _, db') \<Rightarrow> push_all A now key args isLeft db')"

definition list_make :: "('t, Value_t) art \<Rightarrow> bytes \<Rightarrow> ('t, 's) LazyDB \<Rightarrow> ('t, 's) LazyDB" where
  "list_make A key db =
     (if listIndex db key = None then db\<lparr>listIndex := (listIndex db)(key \<mapsto> NewART A)\<rparr> else db)"

definition LPush ::
    "('t, Value_t) art \<Rightarrow> int \<Rightarrow> bytes \<Rightarrow> bytes list \<Rightarrow> ('t, 's) LazyDB \<Rightarrow> unit result \<times> ('t, 's) LazyDB" where
  "LPush A now key args db =
     (if length args = 0 then (Inr (), db) else push_all A now key args True (list_make A key db))"

definition LPushX ::
    "('t, Value_t) art \<Rightarrow> int \<Rightarrow> bytes \<Rightarrow> bytes list \<Rightarrow> ('t, 's) LazyDB \<Rightarrow> unit result \<times> ('t, 's) LazyDB" where
  "LPushX A now key args db =
     (if length args = 0 then (Inr (), db)
      else if listIndex db key = None then (Inl ErrKeyNotFound, db)
      else push_all A now key args True db)"

definition RPush ::
    "('t, Value_t) art \<Rightarrow> int \<Rightarrow> bytes \<Rightarrow> bytes list \<Rightarrow> ('t, 's) LazyDB \<Rightarrow> unit result \<times> ('t, 's) LazyDB" where
  "RPush A now key args db =
     (if length args = 0 then (Inr (), db) else push_all A now key args False (list_make A key db))"

definition RPushX ::
    "('t, Value_t) art \<Rightarrow> int \<Rightarrow> bytes \<Rightarrow> bytes list \<Rightarrow> ('t, 's) LazyDB \<Rightarrow> unit result \<times> ('t, 's) LazyDB" where
  "RPushX A now key args db =
     (if length args = 0 then (Inr (), db)
      else if listIndex db key = None then (Inl ErrKeyNotFound, db)
      else push_all A now key args False db)"

text \<open>
  \<open>pop\<close> hides an error of \<open>getValue\<close> or \<open>writeLogEntry\<close> behind a nil result. Reaching the
  empty list resets the sequence numbers in the log and drops the tree.
\<close>

definition pop_reset ::
    "('t, Value_t) art \<Rightarrow> bytes \<Rightarrow> u32 \<Rightarrow> u32 \<Rightarrow> 't \<Rightarrow> Store \<Rightarrow> unit result \<times> Store" where
  "pop_reset A key headSeq tailSeq t st =
     (if headSeq \<noteq> initialListSeq \<or> tailSeq \<noteq> initialListSeq + 1
      then (case saveLMeta A t key initialListSeq (initialListSeq + 1) st of
              (Inl e, _, st') \<Rightarrow> (if crash e then Inl e else Inr (), st')
            | (Inr _, _, st') \<Rightarrow> (Inr (), st'))
      else (Inr (), st))"

definition pop ::
    "('t, Value_t) art \<Rightarrow> int \<Rightarrow> bytes \<Rightarrow> bool \<Rightarrow> ('t, 's) LazyDB \<Rightarrow> slice result \<times> ('t, 's) LazyDB" where
  "pop A now key isLeft db =
     (case listIndex db key of
        None \<Rightarrow> (Inr None, db)
      | Some idxTree \<Rightarrow>
          (case lMeta A now idxTree key (store db) of
             Inl e \<Rightarrow> (Inl e, db)
           | Inr (headSeq, tailSeq) \<Rightarrow>
               if tailSeq - headSeq - 1 \<le> 0 then (Inr None, db)
               else
                 (let s = (if isLeft then headSeq + 1 else tailSeq - 1);
                      k = encodeListKey key s
                  in case getValue A now idxTree k valueTypeList (store db) of
                       Inl e \<Rightarrow> (if crash e then Inl e else Inr None, db)
                     | Inr value \<Rightarrow>
                         (case writeLogEntry valueTypeList (del_entry k) (store db) of
                            (Inl e, st1) \<Rightarrow> (if crash e then Inl e else Inr None, db\<lparr>store := st1\<rparr>)
                          | (Inr _, st1) \<Rightarrow>
                              (let h = (if isLeft then headSeq + 1 else headSeq);
                                   tl = (if isLeft then tailSeq else tailSeq - 1)
                               in case saveLMeta A idxTree key h tl st1 of
                                    (Inl e, t2, st2) \<Rightarrow> (Inl e, set_list key t2 st2 db)
                                  | (Inr _, t2, st2) \<Rightarrow>
                                      if tl - h - 1 = 0
                                      then (case pop_reset A key h tl t2 st2 of
                                              (Inl e, st3) \<Rightarrow> (Inl e, set_list key t2 st3 db)
                                            | (Inr _, st3) \<Rightarrow>
                                                (Inr value, db\<lparr>store := st3, listIndex := (listIndex db)(key := None)\<rparr>))
                                      else (Inr value, set_list key t2 st2 db))))))"

definition LPop :: "('t, Value_t) art \<Rightarrow> int \<Rightarrow> bytes \<Rightarrow> ('t, 's) LazyDB \<Rightarrow> slice result \<times> ('t, 's) LazyDB" where
  "LPop A now key db = pop A now key True db"

definition RPop :: "('t, Value_t) art \<Rightarrow> int \<Rightarrow> bytes \<Rightarrow> ('t, 's) LazyDB \<Rightarrow> slice result \<times> ('t, 's) LazyDB" where
  "RPop A now key db = pop A now key False db"

definition LSet ::
    "('t, Value_t) art \<Rightarrow> int \<Rightarrow> bytes \<Rightarrow> int \<Rightarrow> slice \<Rightarrow> ('t, 's) LazyDB \<Rightarrow> unit result \<times> ('t, 's) LazyDB" where
  "LSet A now key index value db =
     (case listIndex db key of
        None \<Rightarrow> (Inl ErrKeyNotFound, db)
      | Some idxTree \<Rightarrow>
          (case lMeta A now idxTree key (store db) of
             Inl e \<Rightarrow> (Inl e, db)
           | Inr (headSeq, tailSeq) \<Rightarrow>
               (let s = lSequence headSeq tailSeq index
                in if s \<le> headSeq \<or> s \<ge> tailSeq then (Inl ErrWrongIndex, db)
                   else (case put_entry A valueTypeList idxTree (mk_entry (encodeListKey key s) value) False (store db) of
                           (r, t, st) \<Rightarrow> (r, set_list key t st db)))))"

definition LIndex :: "('t, Value_t) art \<Rightarrow> int \<Rightarrow> bytes \<Rightarrow> int \<Rightarrow> ('t, 's) LazyDB \<Rightarrow> slice result" where
  "LIndex A now key index db =
     (case listIndex db key of
        None \<Rightarrow> Inl ErrKeyNotFound
      | Some idxTree \<Rightarrow>
          (case lMeta A now idxTree key (store db) of
             Inl e \<Rightarrow> Inl e
           | Inr (headSeq, tailSeq) \<Rightarrow>
               (let s = lSequence headSeq tailSeq index
                in if s \<le> headSeq \<or> s \<ge> tailSeq then Inl ErrWrongIndex
                   else getValue A now idxTree (encodeListKey key s) valueTypeList (store db))))"

definition LLen :: "('t, Value_t) art \<Rightarrow> int \<Rightarrow> bytes \<Rightarrow> ('t, 's) LazyDB \<Rightarrow> nat result" where
  "LLen A now key db =
     (case listIndex db key of
        None \<Rightarrow> Inr 0
      | Some idxTree \<Rightarrow>
          (case lMeta A now idxTree key (store db) of
             Inl e \<Rightarrow> if crash e then Inl e else Inr 0
           | Inr (headSeq, tailSeq) \<Rightarrow> Inr (unat (tailSeq - headSeq - 1))))"

text \<open>The loop of \<open>LRange\<close> runs over the sequence numbers from the first up to the last.\<close>

fun LRange_loop ::
    "('t, Value_t) art \<Rightarrow> int \<Rightarrow> bytes \<Rightarrow> u32 list \<Rightarrow> 't \<Rightarrow> Store \<Rightarrow> slice list result" where
  "LRange_loop A now key [] t st = Inr []"
| "LRange_loop A now key (seq # seqs) t st =
     (case getValue A now t (encodeListKey key seq) valueTypeList st of
        Inl e \<Rightarrow> Inl e
      | Inr val \<Rightarrow> map_sum id (\<lambda>vs. val # vs) (LRange_loop A now key seqs t st))"

definition LRange ::
    "('t, Value_t) art \<Rightarrow> int \<Rightarrow> bytes \<Rightarrow> int \<Rightarrow> int \<Rightarrow> ('t, 's) LazyDB \<Rightarrow> slice list result" where
  "LRange A now key start stop db =
     (case listIndex db key of
        None \<Rightarrow> Inl ErrKeyNotFound
      | Some idxTree \<Rightarrow>
          (case lMeta A now idxTree key (store db) of
             Inl e \<Rightarrow> Inl e
           | Inr (headSeq, tailSeq) \<Rightarrow>
               (let startSeq = lSequence headSeq tailSeq start; stopSeq = lSequence headSeq tailSeq stop
                in if startSeq > stopSeq \<or> startSeq \<ge> tailSeq \<or> stopSeq \<le> headSeq then Inl ErrWrongIndex
                   else
                     (let a = (if startSeq \<le> headSeq then headSeq + 1 else startSeq);
                          b = (if stopSeq \<ge> tailSeq then tailSeq - 1 else stopSeq)
                      in LRange_loop A now key (map word_of_nat [unat a..<unat (b + 1)]) idxTree (store db)))))"

definition LMove ::
    "('t, Value_t) art \<Rightarrow> int \<Rightarrow> bytes \<Rightarrow> bytes \<Rightarrow> bool \<Rightarrow> bool \<Rightarrow> ('t, 's) LazyDB
       \<Rightarrow> slice result \<times> ('t, 's) LazyDB" where
  "LMove A now sourceKey distKey sourceIsLeft distIsLeft db =
     (case pop A now sourceKey sourceIsLeft db of
        (Inl e, db1) \<Rightarrow> (Inl e, db1)
      | (Inr None, db1) \<Rightarrow> (Inr None, db1)
      | (Inr (Some val), db1) \<Rightarrow>
          (case push A now distKey val distIsLeft (list_make A distKey db1) of
             (Inl e, db2) \<Rightarrow> (Inl e, db2)
           | (Inr _, db2) \<Rightarrow> (Inr (Some val), db2)))"

subsection \<open>Representation\<close>

definition tail_of :: "u32 \<Rightarrow> bytes list \<Rightarrow> u32" where
  "tail_of head xs = head + word_of_nat (length xs) + 1"

definition lrep :: "bytes \<Rightarrow> imap \<Rightarrow> u32 \<Rightarrow> bytes list \<Rightarrow> bool" where
  "lrep key m head xs \<longleftrightarrow> unat head + length xs + 1 < 2 ^ 32 \<and>
     (m key = Some (le32 head @ le32 (tail_of head xs), 0) \<or> m key = None \<and> head = initialListSeq \<and> xs = []) \<and>
     (\<forall>i < length xs. m (encodeListKey key (head + 1 + word_of_nat i)) = Some (xs ! i, 0))"

text \<open>A list that is not in the index is empty.\<close>

definition list_rep :: "bytes \<Rightarrow> imap option \<Rightarrow> u32 \<Rightarrow> bytes list \<Rightarrow> bool" where
  "list_rep key mo head xs \<longleftrightarrow>
     (case mo of None \<Rightarrow> head = initialListSeq \<and> xs = [] | Some m \<Rightarrow> lrep key m head xs)"

text \<open>The list is in the index exactly when it has an element.\<close>

definition list_live :: "bytes \<Rightarrow> imap option \<Rightarrow> u32 \<Rightarrow> bytes list \<Rightarrow> bool" where
  "list_live key mo head xs \<longleftrightarrow> list_rep key mo head xs \<and> (mo = None \<longleftrightarrow> xs = [])"

definition list_key_ok :: "bytes \<Rightarrow> bool" where
  "list_key_ok key \<longleftrightarrow> 11 \<le> length key \<and> length key + 4 < 2 ^ 32"

definition list_upd :: "adb \<Rightarrow> bytes \<Rightarrow> imap option \<Rightarrow> adb" where
  "list_upd a key mo = a\<lparr>a_list := (a_list a)(key := mo)\<rparr>"

lemma list_upd_simps [simp]:
  "a_list (list_upd a key mo) = (a_list a)(key := mo)" "list_upd (list_upd a key m1) key m2 = list_upd a key m2"
  by (simp_all add: list_upd_def)

lemma unat_u32: "n < 2 ^ 32 \<Longrightarrow> unat (word_of_nat n :: u32) = n"
  by (simp add: unat_of_nat)

lemma of_nat_u32_eq: "i < 2 ^ 32 \<Longrightarrow> j < 2 ^ 32 \<Longrightarrow> (word_of_nat i :: u32) = word_of_nat j \<longleftrightarrow> i = j"
  by (metis unat_u32)

lemma le32_inj: "le32 x = le32 y \<longleftrightarrow> x = y"
  by (metis append_Nil2 sum.inject(2) un_le32_le32)

lemma encodeListKey_eq [simp]: "encodeListKey key s = encodeListKey key s' \<longleftrightarrow> s = s'"
  by (simp add: encodeListKey_def le32_inj)

lemma length_encodeListKey [simp]: "length (encodeListKey key s) = length key + 4"
  by (simp add: encodeListKey_def)

lemma encodeListKey_neq [simp]: "encodeListKey key s \<noteq> key" "key \<noteq> encodeListKey key s" "encodeListKey key s \<noteq> []"
  using length_encodeListKey [of key s] by (metis add_eq_self_zero zero_neq_numeral add_is_0 list.size(3))+

lemma decodeListKey_encode: "decodeListKey (encodeListKey key s) = Inr (key, s)"
  using un_le32_le32 [of s key] by (simp add: decodeListKey_def encodeListKey_def)

lemma meta_entry_simps [simp]:
  "Key (meta_entry key h t) = key" "Value (meta_entry key h t) = Some (le32 h @ le32 t)"
  "ExpiredAt (meta_entry key h t) = 0" "Stat (meta_entry key h t) \<noteq> SDelete"
  by (simp_all add: meta_entry_def SListMeta_def SDelete_def mk_entry_def empty_entry_def)

lemma roomy_list:
  assumes "list_key_ok key"
  shows "length (bs v) < 2 ^ 32 \<Longrightarrow> roomy (mk_entry (encodeListKey key s) v)"
    "roomy (del_entry (encodeListKey key s))" "roomy (meta_entry key h t)"
proof -
  show "length (bs v) < 2 ^ 32 \<Longrightarrow> roomy (mk_entry (encodeListKey key s) v)" "roomy (del_entry (encodeListKey key s))"
    using assms by (simp_all add: roomy_mk roomy_del list_key_ok_def)
  have "TxID (meta_entry key h t) = 0" "TxStat (meta_entry key h t) = 0"
    by (simp_all add: meta_entry_def mk_entry_def empty_entry_def)
  moreover have "key \<noteq> []" using assms by (auto simp: list_key_ok_def)
  ultimately have "encodable (meta_entry key h t)"
    using assms by (intro encodable_plain) (simp_all add: list_key_ok_def)
  then show "roomy (meta_entry key h t)"
    using header_size_ge [of "meta_entry key h t"] assms
    by (simp add: roomy_def entry_size_def MaxHeaderSize_def list_key_ok_def)
qed

lemma lrepD:
  assumes "lrep key m head xs"
  shows "unat head + length xs + 1 < 2 ^ 32" "tail_of head xs - head - 1 = word_of_nat (length xs)"
    "i < length xs \<Longrightarrow> m (encodeListKey key (head + 1 + word_of_nat i)) = Some (xs ! i, 0)"
    "unat (tail_of head xs) = unat head + length xs + 1"
proof -
  show b: "unat head + length xs + 1 < 2 ^ 32" using assms by (simp add: lrep_def)
  show "tail_of head xs - head - 1 = word_of_nat (length xs)" by (simp add: tail_of_def)
  show "i < length xs \<Longrightarrow> m (encodeListKey key (head + 1 + word_of_nat i)) = Some (xs ! i, 0)"
    using assms by (simp add: lrep_def)
  have "tail_of head xs = word_of_nat (unat head + length xs + 1)" by (simp add: tail_of_def)
  then show "unat (tail_of head xs) = unat head + length xs + 1"
    using unat_u32 [OF b] by simp
qed

lemma list_live_cases:
  assumes "list_live key mo (if xs = [] then s else h) xs"
  shows "if xs = [] then mo = None else \<exists>m. mo = Some m \<and> lrep key m h xs"
  using assms by (auto simp: list_live_def list_rep_def split: option.splits)

lemma lrep_new: "lrep key Map.empty initialListSeq []"
  by (simp add: lrep_def initialListSeq_def)

text \<open>What one push and one pop do to the map.\<close>

lemma lrep_push_left:
  assumes r: "lrep key m head xs" and nz: "head \<noteq> 0"
  shows "lrep key (m(encodeListKey key head \<mapsto> (x, 0), key \<mapsto> (le32 (head - 1) @ le32 (tail_of head xs), 0))) (head - 1) (x # xs)"
proof -
  have u: "unat (head - 1) = unat head - 1" "0 < unat head"
    using nz by (simp_all add: unat_minus_one unat_gt_0)
  have b: "unat head + length xs + 1 < 2 ^ 32" by (rule lrepD(1) [OF r])
  have t: "tail_of (head - 1) (x # xs) = tail_of head xs" by (simp add: tail_of_def)
  have s: "head - 1 + 1 + word_of_nat i = head + word_of_nat i" for i by simp
  have n: "head + word_of_nat (Suc i) \<noteq> head" if "i < length xs" for i
    using of_nat_u32_eq [of "Suc i" 0] that b by simp
  have "(m(encodeListKey key head \<mapsto> (x, 0))) (encodeListKey key (head + word_of_nat i)) = Some ((x # xs) ! i, 0)"
    if "i < Suc (length xs)" for i
  proof (cases i)
    case (Suc j)
    then show ?thesis using that n [of j] lrepD(3) [OF r, of j] by (simp add: add.assoc)
  qed simp
  then show ?thesis using u b by (simp add: lrep_def t s)
qed

lemma lrep_push_right:
  assumes r: "lrep key m head xs" and b: "unat head + length xs + 2 < 2 ^ 32"
  shows "lrep key (m(encodeListKey key (tail_of head xs) \<mapsto> (x, 0), key \<mapsto> (le32 head @ le32 (tail_of head xs + 1), 0)))
    head (xs @ [x])"
proof -
  have t: "tail_of head (xs @ [x]) = tail_of head xs + 1" "tail_of head xs = head + 1 + word_of_nat (length xs)"
    by (simp_all add: tail_of_def)
  have n: "head + 1 + word_of_nat i \<noteq> tail_of head xs" if "i < length xs" for i
    using that b of_nat_u32_eq [of i "length xs"] by (simp add: t(2))
  show ?thesis
    using b n lrepD(3) [OF r] by (auto simp: lrep_def t(1) nth_append less_Suc_eq) (simp_all add: t(2))
qed

lemma lrep_pop_left:
  assumes r: "lrep key m head (x # xs)"
  shows "lrep key (m(key \<mapsto> (le32 (head + 1) @ le32 (tail_of head (x # xs)), 0))) (head + 1) xs"
proof -
  have "unat (head + 1) = unat head + 1" using unat_succ [of head] lrepD(1) [OF r] by simp
  moreover have "tail_of (head + 1) xs = tail_of head (x # xs)" by (simp add: tail_of_def)
  moreover have "m (encodeListKey key (head + 1 + 1 + word_of_nat i)) = Some (xs ! i, 0)" if "i < length xs" for i
    using lrepD(3) [OF r, of "Suc i"] that by (simp add: ac_simps)
  ultimately show ?thesis using lrepD(1) [OF r] by (simp add: lrep_def)
qed

lemma lrep_pop_right:
  assumes r: "lrep key m head (xs @ [x])"
  shows "lrep key (m(key \<mapsto> (le32 head @ le32 (tail_of head (xs @ [x]) - 1), 0))) head xs"
proof -
  have "tail_of head (xs @ [x]) - 1 = tail_of head xs" by (simp add: tail_of_def)
  then show ?thesis
    using lrepD(1) [OF r] lrepD(3) [OF r] by (simp add: lrep_def) (metis less_SucI nth_append)
qed

subsection \<open>Refinement of the steps\<close>

lemma stat_simps [simp]: "0 \<noteq> SDelete" "SDelete \<noteq> 0"
  by (simp_all add: SDelete_def)

context value_index
begin

lemma list_tree:
  "db_rel A db a \<Longrightarrow> a_list a key = Some m \<Longrightarrow> \<exists>t. listIndex db key = Some t \<and> index_rel A (store db) valueTypeList t m"
  using db_relD(4) [of A db a key] by (auto simp: option_rel_Some2)

lemma list_None: "db_rel A db a \<Longrightarrow> listIndex db key = None \<longleftrightarrow> a_list a key = None"
  using db_relD(4) [of A db a key] by (cases "listIndex db key"; cases "a_list a key") auto

lemma set_list_rel:
  assumes "db_rel A db a" "store_inv st" "store_ext valueTypeList (store db) st" "index_rel A st valueTypeList t m"
  shows "db_rel A (set_list key t st db) (list_upd a key (Some m))"
  using db_rel_list [OF assms(1-3), of "Some t" "Some m" key] assms(4) by (simp add: set_list_def list_upd_def)

lemma list_make_rel:
  assumes "db_rel A db a" "list_rep key (a_list a key) head xs"
  shows "\<exists>m. db_rel A (list_make A key db) (list_upd a key (Some m)) \<and> lrep key m head xs \<and>
    store (list_make A key db) = store db"
proof (cases "a_list a key")
  case None
  then have "db_rel A (list_make A key db) (list_upd a key (Some Map.empty))"
    using list_None [OF assms(1), of key] db_rel_list [OF assms(1) db_relD(1) [OF assms(1)], of "Some (NewART A)" "Some Map.empty" key]
    by (simp add: list_make_def list_upd_def new_rel)
  then show ?thesis using None assms(2) lrep_new [of key] by (auto simp: list_rep_def list_make_def)
next
  case (Some m)
  then have "list_upd a key (Some m) = a" by (simp add: list_upd_def) (metis adb.surjective adb.update_convs(3) fun_upd_triv)
  then show ?thesis
    using Some assms list_None [OF assms(1), of key] by (intro exI [of _ m]) (auto simp: list_rep_def list_make_def)
qed

lemma lMeta_rel:
  assumes "store_inv st" "index_rel A st valueTypeList t m" "lrep key m head xs"
  shows "lMeta A now t key st = Inr (head, tail_of head xs)"
  using assms(3) un_le32_le32 [of head "le32 (tail_of head xs)"] un_le32_le32 [of "tail_of head xs" "[]"]
  by (auto simp: lMeta_def getValue_rel [OF assms(1,2)] lrep_def found_def live_def tail_of_def)

lemma elem_rel:
  assumes "store_inv st" "index_rel A st valueTypeList t m" "lrep key m head xs" "i < length xs"
  shows "getValue A now t (encodeListKey key (head + 1 + word_of_nat i)) valueTypeList st = Inr (Some (xs ! i))"
  using lrepD(3) [OF assms(3,4)] by (simp add: getValue_rel [OF assms(1,2)] lookup_item_def live_def)

lemma saveLMeta_rel:
  assumes "store_inv st" "index_rel A st valueTypeList t m" "capacity st valueTypeList (Suc n)" "list_key_ok key"
  shows "\<exists>t' st'. saveLMeta A t key h e st = (Inr (), t', st') \<and> store_inv st' \<and> store_ext valueTypeList st st' \<and>
    capacity st' valueTypeList n \<and> index_rel A st' valueTypeList t' (m(key \<mapsto> (le32 h @ le32 e, 0))) \<and>
    spends valueTypeList 1 0 st st'"
  using put_roomy [OF assms(1-3) roomy_list(3) [OF assms(4)], of h e] by (simp add: saveLMeta_def)

lemma push_rel:
  assumes rel: "db_rel A db a" "a_list a key = Some m" "lrep key m head xs" and ok: "list_key_ok key" "length arg < 2 ^ 32"
    and cap: "capacity (store db) valueTypeList (Suc (Suc n))"
    and room: "if isLeft then head \<noteq> 0 else unat head + length xs + 2 < 2 ^ 32"
  shows "\<exists>db' m'. push A now key arg isLeft db = (Inr (), db') \<and> db_rel A db' (list_upd a key (Some m')) \<and>
    lrep key m' (if isLeft then head - 1 else head) (if isLeft then arg # xs else xs @ [arg]) \<and>
    capacity (store db') valueTypeList n \<and> spends valueTypeList 2 0 (store db) (store db')"
proof -
  obtain t where t: "listIndex db key = Some t" "index_rel A (store db) valueTypeList t m"
    using list_tree [OF rel(1,2)] by blast
  let ?s = "if isLeft then head else tail_of head xs"
  let ?h = "if isLeft then head - 1 else head" and ?tl = "if isLeft then tail_of head xs else tail_of head xs + 1"
  let ?le = "mk_entry (encodeListKey key ?s) (Some arg)"
  have "roomy ?le" using roomy_list(1) [OF ok(1), of "Some arg"] ok(2) by simp
  then obtain t1 st1 where p: "put_entry A valueTypeList t ?le False (store db) = (Inr (), t1, st1)"
    "store_inv st1" "store_ext valueTypeList (store db) st1" "capacity st1 valueTypeList (Suc n)"
    "index_rel A st1 valueTypeList t1 (m(encodeListKey key ?s \<mapsto> (arg, 0)))" "spends valueTypeList 1 0 (store db) st1"
    using put_roomy [OF db_relD(1) [OF rel(1)] t(2) cap, of ?le] by (auto simp del: fun_upd_apply)
  obtain t2 st2 where q: "saveLMeta A t1 key ?h ?tl st1 = (Inr (), t2, st2)"
    "store_inv st2" "store_ext valueTypeList st1 st2" "capacity st2 valueTypeList n"
    "index_rel A st2 valueTypeList t2 (m(encodeListKey key ?s \<mapsto> (arg, 0), key \<mapsto> (le32 ?h @ le32 ?tl, 0)))"
    "spends valueTypeList 1 0 st1 st2"
    using saveLMeta_rel [OF p(2,5,4) ok(1)] by blast
  have "push A now key arg isLeft db = (Inr (), set_list key t2 st2 db)"
    using t(1) lMeta_rel [OF db_relD(1) [OF rel(1)] t(2) rel(3)] p(1) q(1) by (simp add: push_def Let_def)
  moreover have "db_rel A (set_list key t2 st2 db)
      (list_upd a key (Some (m(encodeListKey key ?s \<mapsto> (arg, 0), key \<mapsto> (le32 ?h @ le32 ?tl, 0)))))"
    by (rule set_list_rel [OF rel(1) q(2) store_ext_trans [OF p(3) q(3)] q(5)])
  moreover have "lrep key (m(encodeListKey key ?s \<mapsto> (arg, 0), key \<mapsto> (le32 ?h @ le32 ?tl, 0))) ?h
      (if isLeft then arg # xs else xs @ [arg])"
    using lrep_push_left [OF rel(3)] lrep_push_right [OF rel(3)] room by (cases isLeft) simp_all
  moreover have "store (set_list key t2 st2 db) = st2" by (simp add: set_list_def)
  moreover have "spends valueTypeList 2 0 (store db) st2" using spends_trans [OF p(6) q(6)] by (simp add: numeral_2_eq_2)
  ultimately show ?thesis using q(4) by metis
qed

lemma push_all_left:
  assumes "db_rel A db a" "a_list a key = Some m" "lrep key m head xs" "list_key_ok key"
    "\<forall>x \<in> set args. length x < 2 ^ 32" "capacity (store db) valueTypeList (2 * length args)" "length args \<le> unat head"
  shows "\<exists>db' m'. push_all A now key args True db = (Inr (), db') \<and> db_rel A db' (list_upd a key (Some m')) \<and>
    lrep key m' (head - word_of_nat (length args)) (rev args @ xs) \<and>
    spends valueTypeList (2 * length args) 0 (store db) (store db')"
  using assms
proof (induction args arbitrary: db a m head xs)
  case Nil
  then have "list_upd a key (Some m) = a" by (simp add: list_upd_def) (metis adb.surjective adb.update_convs(3) fun_upd_triv)
  with Nil show ?case by (intro exI [of _ db] exI [of _ m]) simp
next
  case (Cons x args)
  have nz: "head \<noteq> 0" using Cons(8) by auto
  obtain db1 m1 where p: "push A now key x True db = (Inr (), db1)" "db_rel A db1 (list_upd a key (Some m1))"
    "lrep key m1 (head - 1) (x # xs)" "capacity (store db1) valueTypeList (2 * length args)"
    "spends valueTypeList 2 0 (store db) (store db1)"
    using push_rel [OF Cons(2-5), of x "2 * length args" True now] Cons(6,7) nz by auto
  have "length args \<le> unat (head - 1)" using Cons(8) nz by (simp add: unat_minus_one)
  then obtain db' m' where "push_all A now key args True db1 = (Inr (), db')"
    "db_rel A db' (list_upd (list_upd a key (Some m1)) key (Some m'))"
    "lrep key m' (head - 1 - word_of_nat (length args)) (rev args @ x # xs)"
    "spends valueTypeList (2 * length args) 0 (store db1) (store db')"
    using Cons(1) [OF p(2) _ p(3) Cons(5) _ p(4)] Cons(6) by auto
  then show ?case using p(1) spends_trans [OF p(5)] by (fastforce simp: diff_diff_eq)
qed

lemma push_all_right:
  assumes "db_rel A db a" "a_list a key = Some m" "lrep key m head xs" "list_key_ok key"
    "\<forall>x \<in> set args. length x < 2 ^ 32" "capacity (store db) valueTypeList (2 * length args)"
    "unat head + length xs + length args + 1 < 2 ^ 32"
  shows "\<exists>db' m'. push_all A now key args False db = (Inr (), db') \<and> db_rel A db' (list_upd a key (Some m')) \<and>
    lrep key m' head (xs @ args) \<and> spends valueTypeList (2 * length args) 0 (store db) (store db')"
  using assms
proof (induction args arbitrary: db a m xs)
  case Nil
  then have "list_upd a key (Some m) = a" by (simp add: list_upd_def) (metis adb.surjective adb.update_convs(3) fun_upd_triv)
  with Nil show ?case by (intro exI [of _ db] exI [of _ m]) simp
next
  case (Cons x args)
  obtain db1 m1 where p: "push A now key x False db = (Inr (), db1)" "db_rel A db1 (list_upd a key (Some m1))"
    "lrep key m1 head (xs @ [x])" "capacity (store db1) valueTypeList (2 * length args)"
    "spends valueTypeList 2 0 (store db) (store db1)"
    using push_rel [OF Cons(2-5), of x "2 * length args" False now] Cons(6-8) by auto
  then obtain db' m' where "push_all A now key args False db1 = (Inr (), db')"
    "db_rel A db' (list_upd (list_upd a key (Some m1)) key (Some m'))" "lrep key m' head ((xs @ [x]) @ args)"
    "spends valueTypeList (2 * length args) 0 (store db1) (store db')"
    using Cons(1) [OF p(2) _ p(3) Cons(5) _ p(4)] Cons(6,8) by auto
  then show ?case using p(1) spends_trans [OF p(5)] by fastforce
qed

lemma pop_rel:
  assumes rel: "db_rel A db a" "a_list a key = Some m" "lrep key m head xs" and ne: "xs \<noteq> []" and ok: "list_key_ok key"
    and cap: "capacity (store db) valueTypeList (Suc (Suc (Suc n)))"
    and x_def: "x = (if isLeft then hd xs else last xs)" and ys_def: "ys = (if isLeft then tl xs else butlast xs)"
    and h_def: "h = (if isLeft then head + 1 else head)"
  shows "\<exists>db' mo. pop A now key isLeft db = (Inr (Some x), db') \<and> db_rel A db' (list_upd a key mo) \<and>
    list_live key mo (if ys = [] then initialListSeq else h) ys \<and> capacity (store db') valueTypeList n \<and>
    spends valueTypeList 3 0 (store db) (store db')"
proof -
  let ?i = "if isLeft then 0 else length xs - 1" and ?T = "tail_of head xs"
  let ?e = "if isLeft then ?T else ?T - 1"
  note inv = db_relD(1) [OF rel(1)]
  obtain t where t: "listIndex db key = Some t" "index_rel A (store db) valueTypeList t m"
    using list_tree [OF rel(1,2)] by blast
  have len: "0 < length xs" "length xs < 2 ^ 32" using ne lrepD(1) [OF rel(3)] by auto
  have wl: "(word_of_nat (length xs) :: u32) = 1 + word_of_nat (length xs - 1)"
    using ne by (cases xs) simp_all
  have sq: "(if isLeft then head + 1 else ?T - 1) = head + 1 + word_of_nat ?i"
    using wl by (simp add: tail_of_def)
  have gv: "getValue A now t (encodeListKey key (head + 1 + word_of_nat ?i)) valueTypeList (store db) = Inr (Some x)"
    using elem_rel [OF inv t(2) rel(3), of ?i] len ne by (simp add: x_def hd_conv_nth last_conv_nth)
  have nz: "\<not> ?T - head - 1 \<le> 0"
    using lrepD(2) [OF rel(3)] of_nat_u32_eq [of "length xs" 0] len by simp
  let ?d = "del_entry (encodeListKey key (head + 1 + word_of_nat ?i))"
  obtain pos st1 where w: "writeLogEntry valueTypeList ?d (store db) = (Inr pos, st1)" "store_inv st1"
    "store_ext valueTypeList (store db) st1" "capacity st1 valueTypeList (Suc (Suc n))"
    "chan_upd valueTypeList [] (store db) st1" "\<And>n. capacity (store db) valueTypeList (Suc n) \<Longrightarrow> capacity st1 valueTypeList n"
    using log_write [OF inv roomy_put_ok [OF cap roomy_list(2) [OF ok]]] cap by blast
  note e1 = w(3) and sp1 = spends_write [OF w(3,5,6)]
  obtain t2 st2 where s: "saveLMeta A t key h ?e st1 = (Inr (), t2, st2)" "store_inv st2" "store_ext valueTypeList st1 st2"
    "capacity st2 valueTypeList (Suc n)" "index_rel A st2 valueTypeList t2 (m(key \<mapsto> (le32 h @ le32 ?e, 0)))"
    "spends valueTypeList 1 0 st1 st2"
    using saveLMeta_rel [OF w(2) index_rel_ext [OF t(2) e1] w(4) ok] by blast
  have sp2: "spends valueTypeList 2 0 (store db) st2" using spends_trans [OF sp1 s(6)] by (simp add: numeral_2_eq_2)
  have e2: "store_ext valueTypeList (store db) st2" by (rule store_ext_trans [OF e1 s(3)])
  have rep: "lrep key (m(key \<mapsto> (le32 h @ le32 ?e, 0))) h ys"
    using rel(3) ne lrep_pop_left [of key m head x ys] lrep_pop_right [of key m head ys x]
    by (cases isLeft) (simp_all add: h_def x_def ys_def)
  then have rep2: "list_rep key (Some (m(key \<mapsto> (le32 h @ le32 ?e, 0)))) h ys" by (simp add: list_rep_def)
  have len2: "length ys < 2 ^ 32" using lrepD(1) [OF rep] by simp
  have te: "?e = tail_of h ys"
    using wl by (simp add: tail_of_def h_def ys_def)
  have em: "?e - h - 1 = 0 \<longleftrightarrow> ys = []"
    unfolding te lrepD(2) [OF rep] using of_nat_u32_eq [of "length ys" 0] len2 by simp
  show ?thesis
  proof (cases "ys = []")
    case False
    then have "pop A now key isLeft db = (Inr (Some x), set_list key t2 st2 db)"
      using t(1) lMeta_rel [OF inv t(2) rel(3)] nz gv w(1) s(1) em by (simp add: pop_def Let_def sq flip: h_def)
    moreover have "capacity (store (set_list key t2 st2 db)) valueTypeList n"
      using capacity_le [OF s(4), of n] by (simp add: set_list_def)
    moreover have "spends valueTypeList 3 0 (store db) (store (set_list key t2 st2 db))"
      using spends_le [OF sp2, of 3 0] by (simp add: set_list_def)
    ultimately show ?thesis
      using set_list_rel [OF rel(1) s(2) e2 s(5), of key] rep2 False by (auto simp: list_live_def)
  next
    case True
    obtain st3 where r: "pop_reset A key h ?e t2 st2 = (Inr (), st3)" "store_inv st3" "store_ext valueTypeList st2 st3"
      "capacity st3 valueTypeList n" "spends valueTypeList 1 0 st2 st3"
      using saveLMeta_rel [OF s(2,5,4) ok, of initialListSeq "initialListSeq + 1"] s(2) capacity_le [OF s(4), of n]
      by (cases "h \<noteq> initialListSeq \<or> ?e \<noteq> initialListSeq + 1") (auto simp: pop_reset_def)
    let ?db = "db\<lparr>store := st3, listIndex := (listIndex db)(key := None)\<rparr>"
    have "pop A now key isLeft db = (Inr (Some x), ?db)"
      using True t(1) lMeta_rel [OF inv t(2) rel(3)] nz gv w(1) s(1) em r(1) by (simp add: pop_def Let_def sq flip: h_def)
    moreover have "db_rel A ?db (list_upd a key None)"
      using db_rel_list [OF rel(1) r(2) store_ext_trans [OF e2 r(3)], of None None key] by (simp add: list_upd_def)
    moreover have "spends valueTypeList 3 0 (store db) st3" using spends_trans [OF sp2 r(5)] by (simp add: numeral_3_eq_3)
    ultimately show ?thesis using True r(4) by (auto simp: list_live_def list_rep_def)
  qed
qed

end

subsection \<open>Positions\<close>

text \<open>
  The position that an index stands for, counted from the front, and when the \<open>uint32\<close>
  arithmetic of \<open>lSequence\<close> computes it without wrapping.
\<close>

definition pos_of :: "nat \<Rightarrow> int \<Rightarrow> int" where
  "pos_of n index = (if 0 \<le> index then index else int n + index)"

definition seq_ok :: "u32 \<Rightarrow> nat \<Rightarrow> int \<Rightarrow> bool" where
  "seq_ok head n index \<longleftrightarrow>
     (if 0 \<le> index then int (unat head) + index + 1 < 2 ^ 32 else - index \<le> int (unat head) + int n + 1)"

lemma lSequence_pos:
  assumes "lrep key m head xs" "seq_ok head (length xs) index"
  shows "int (unat (lSequence head (tail_of head xs) index)) = int (unat head) + 1 + pos_of (length xs) index"
proof (cases "0 \<le> index")
  case True
  then have e: "lSequence head (tail_of head xs) index = word_of_nat (unat head + nat index + 1)"
    by (simp add: lSequence_def)
  have "int (unat head) + index + 1 < 2 ^ 32" using True assms(2) by (simp only: seq_ok_def if_True)
  then have "int (unat head + nat index + 1) < int (2 ^ 32)" using True by (simp del: of_nat_unat)
  then have "unat head + nat index + 1 < 2 ^ 32" by (simp only: of_nat_less_iff)
  then show ?thesis using True unat_u32 [of "unat head + nat index + 1"] unfolding e by (simp add: pos_of_def)
next
  case False
  let ?T = "tail_of head xs" and ?k = "nat (- index)"
  have T: "unat ?T = unat head + length xs + 1" by (rule lrepD(4) [OF assms(1)])
  have "- index \<le> int (unat head) + int (length xs) + 1" using False assms(2) by (simp only: seq_ok_def if_False)
  then have k: "?k \<le> unat ?T" using T by linarith
  then have k32: "?k < 2 ^ 32" using lrepD(1) [OF assms(1)] T by linarith
  have w: "word_of_int (- index) = (word_of_nat ?k :: u32)" using False by simp
  have "unat (?T - word_of_nat ?k) = unat ?T - ?k"
    using k unat_u32 [OF k32] by (subst unat_sub) (simp_all add: word_le_nat_alt)
  then have "int (unat (lSequence head ?T index)) = int (unat ?T) + index"
    using False k w by (simp add: lSequence_def del: of_nat_unat)
  then show ?thesis using False T by (simp add: pos_of_def del: of_nat_unat)
qed

lemma seq_elem:
  assumes r: "lrep key m head xs" and ok: "seq_ok head (length xs) index"
    and p: "0 \<le> pos_of (length xs) index" "pos_of (length xs) index < int (length xs)"
  shows "lSequence head (tail_of head xs) index = head + 1 + word_of_nat (nat (pos_of (length xs) index))"
proof -
  let ?s = "lSequence head (tail_of head xs) index" and ?p = "nat (pos_of (length xs) index)"
  have "unat ?s = unat head + 1 + ?p" using lSequence_pos [OF r ok] p(1) by linarith
  then have "?s = word_of_nat (unat head + 1 + ?p)" by (metis of_nat_unat ucast_id)
  then show ?thesis by simp
qed

lemma seq_bounds:
  assumes r: "lrep key m head xs" and ok: "seq_ok head (length xs) index"
  shows "lSequence head (tail_of head xs) index \<le> head \<longleftrightarrow> pos_of (length xs) index < 0"
    "tail_of head xs \<le> lSequence head (tail_of head xs) index \<longleftrightarrow> int (length xs) \<le> pos_of (length xs) index"
  unfolding word_le_nat_alt using lSequence_pos [OF r ok] lrepD(4) [OF r] by linarith+

lemma lrep_set:
  assumes r: "lrep key m head xs" and i: "i < length xs"
  shows "lrep key (m(encodeListKey key (head + 1 + word_of_nat i) \<mapsto> (v, 0))) head (xs[i := v])"
proof -
  have "head + 1 + word_of_nat j = head + 1 + word_of_nat i \<longleftrightarrow> j = i" if "j < length xs" for j
    using of_nat_u32_eq [of j i] that i lrepD(1) [OF r] by simp
  then show ?thesis using r by (auto simp: lrep_def tail_of_def nth_list_update)
qed

context value_index
begin

lemma list_case:
  assumes "db_rel A db a" "a_list a key = Some m" "lrep key m head xs"
  obtains t where "listIndex db key = Some t" "index_rel A (store db) valueTypeList t m"
    "lMeta A now t key (store db) = Inr (head, tail_of head xs)"
  using list_tree [OF assms(1,2)] lMeta_rel [OF db_relD(1) [OF assms(1)] _ assms(3)] by blast

lemma LRange_loop_rel:
  assumes "store_inv st" "index_rel A st valueTypeList t m" "lrep key m head xs" "\<forall>i \<in> set is. i < length xs"
  shows "LRange_loop A now key (map (\<lambda>i. head + 1 + word_of_nat i) is) t st = Inr (map (\<lambda>i. Some (xs ! i)) is)"
  using assms(4) by (induction "is") (simp_all add: elem_rel [OF assms(1-3)])

end

lemma sample_list: "list_rep key (a_list empty_adb key) initialListSeq []"
  by (simp add: list_rep_def empty_adb_def)

lemma sample_list_key: "list_key_ok (replicate 20 1)"
  by (simp add: list_key_ok_def)

lemma sample_list_db:
  "\<exists>(db :: ((bytes, Value_t) rbt, unit) LazyDB) a m. db_rel rbt_art db a \<and> a_list a (replicate 20 1) = Some m \<and>
     lrep (replicate 20 1) m initialListSeq [[2]] \<and> capacity (store db) valueTypeList 5"
proof -
  obtain m where m: "db_rel rbt_art (list_make rbt_art (replicate 20 1) sample_db) (list_upd empty_adb (replicate 20 1) (Some m))"
    "lrep (replicate 20 1) m initialListSeq []" "store (list_make rbt_art (replicate 20 1) sample_db) = store sample_db"
    using rbt_values.list_make_rel [OF sample_db_rel sample_list, of "replicate 20 1"] by blast
  then obtain db' :: "((bytes, Value_t) rbt, unit) LazyDB" and m'
    where "db_rel rbt_art db' (list_upd empty_adb (replicate 20 1) (Some m'))"
    "lrep (replicate 20 1) m' initialListSeq [[2]]" "capacity (store db') valueTypeList 5"
    using rbt_values.push_rel [OF m(1) _ m(2) sample_list_key, of "[2]" 5 False 0] sample_ready [of 7]
    by (auto simp: ready_def initialListSeq_def)
  then show ?thesis by (metis fun_upd_same list_upd_simps(1))
qed

lemma seq_ok_small: "seq_ok initialListSeq 1 0" "seq_ok initialListSeq 1 (- 1)"
  by (simp_all add: seq_ok_def initialListSeq_def)

context value_index
begin

lemma LRange_seqs:
  assumes r: "lrep key m head xs" and ok: "seq_ok head (length xs) start" "seq_ok head (length xs) stop"
  defines "S \<equiv> lSequence head (tail_of head xs) start" and "E \<equiv> lSequence head (tail_of head xs) stop"
    and "s \<equiv> pos_of (length xs) start" and "e \<equiv> pos_of (length xs) stop"
  assumes c: "\<not> (e < s \<or> int (length xs) \<le> s \<or> e < 0)"
  shows "map word_of_nat [unat (if S \<le> head then head + 1 else S)..<unat ((if E \<ge> tail_of head xs then tail_of head xs - 1 else E) + 1)] =
    map (\<lambda>i. head + 1 + word_of_nat i) [nat (max 0 s)..<nat (min (int (length xs) - 1) e + 1)]"
proof -
  let ?h = "unat head + 1" and ?n = "length xs"
  note S = lSequence_pos [OF r ok(1), folded S_def s_def] and E = lSequence_pos [OF r ok(2), folded E_def e_def]
  note b = seq_bounds [OF r ok(1), folded S_def s_def] seq_bounds [OF r ok(2), folded E_def e_def]
  note T = lrepD(4) [OF r] and n = lrepD(1) [OF r]
  have h1: "unat (head + 1) = ?h" using unat_succ [of head] n by simp
  have "unat (if S \<le> head then head + 1 else S) = ?h + nat (max 0 s)"
    using S h1 b(1) by (cases "s < 0") (simp_all del: of_nat_unat)
  moreover have "unat ((if E \<ge> tail_of head xs then tail_of head xs - 1 else E) + 1) = ?h + nat (min (int ?n - 1) e + 1)"
  proof (cases "int ?n \<le> e")
    case True
    then show ?thesis using b(4) T c by (simp del: of_nat_unat)
  next
    case False
    then have u: "unat E = ?h + nat e" using E c by linarith
    then have "unat E + 1 < 2 ^ 32" using False n c by linarith
    then have "unat (E + 1) = ?h + nat e + 1" using unat_succ [of E] u by simp
    then show ?thesis using False b(4) c by (simp add: nat_add_distrib)
  qed
  moreover have "map (\<lambda>i. head + 1 + word_of_nat i) [x..<y] = map word_of_nat [?h + x..<?h + y]" for x y
    by (rule nth_equalityI) (auto simp: algebra_simps simp del: upt_Suc)
  ultimately show ?thesis by simp
qed

end

subsection \<open>Properties\<close>

context value_index
begin

lemma LPush_rel:
  assumes rel: "db_rel A db a" "list_rep key (a_list a key) head xs" and ok: "list_key_ok key"
    and args: "args \<noteq> []" "\<forall>x \<in> set args. length x < 2 ^ 32" "length args \<le> unat head"
    and cap: "capacity (store db) valueTypeList (2 * length args)"
  shows "\<exists>db' m. LPush A now key args db = (Inr (), db') \<and> db_rel A db' (list_upd a key (Some m)) \<and>
    lrep key m (head - word_of_nat (length args)) (rev args @ xs) \<and>
    spends valueTypeList (2 * length args) 0 (store db) (store db')"
proof -
  obtain m where m: "db_rel A (list_make A key db) (list_upd a key (Some m))" "lrep key m head xs"
    "store (list_make A key db) = store db"
    using list_make_rel [OF rel] by blast
  then show ?thesis
    using push_all_left [OF m(1) _ m(2) ok args(2) _ args(3), of now] cap args(1)
    by (auto simp: LPush_def)
qed

lemma RPush_rel:
  assumes rel: "db_rel A db a" "list_rep key (a_list a key) head xs" and ok: "list_key_ok key"
    and args: "args \<noteq> []" "\<forall>x \<in> set args. length x < 2 ^ 32"
    and room: "unat head + length xs + length args + 1 < 2 ^ 32"
    and cap: "capacity (store db) valueTypeList (2 * length args)"
  shows "\<exists>db' m. RPush A now key args db = (Inr (), db') \<and> db_rel A db' (list_upd a key (Some m)) \<and>
    lrep key m head (xs @ args) \<and> spends valueTypeList (2 * length args) 0 (store db) (store db')"
proof -
  obtain m where m: "db_rel A (list_make A key db) (list_upd a key (Some m))" "lrep key m head xs"
    "store (list_make A key db) = store db"
    using list_make_rel [OF rel] by blast
  then show ?thesis
    using push_all_right [OF m(1) _ m(2) ok args(2) _ room, of now] cap args(1)
    by (auto simp: RPush_def)
qed

lemma pop_any:
  assumes rel: "db_rel A db a" "list_rep key (a_list a key) head xs" and ok: "list_key_ok key"
    and cap: "capacity (store db) valueTypeList 3"
  shows "if xs = [] then pop A now key isLeft db = (Inr None, db)
    else \<exists>db' mo. pop A now key isLeft db = (Inr (Some (if isLeft then hd xs else last xs)), db') \<and>
      db_rel A db' (list_upd a key mo) \<and>
      (let ys = (if isLeft then tl xs else butlast xs)
       in list_live key mo (if ys = [] then initialListSeq else if isLeft then head + 1 else head) ys) \<and>
      spends valueTypeList 3 0 (store db) (store db')"
proof (cases "a_list a key")
  case None
  then have "listIndex db key = None" "xs = []"
    using rel(2) list_None [OF rel(1), of key] by (simp_all add: list_rep_def)
  then show ?thesis by (simp add: pop_def)
next
  case (Some m)
  have r: "lrep key m head xs" using rel(2) Some by (simp add: list_rep_def)
  have c: "capacity (store db) valueTypeList (Suc (Suc (Suc 0)))" using cap by (simp add: numeral_3_eq_3)
  show ?thesis
  proof (cases "xs = []")
    case True
    obtain t where "listIndex db key = Some t" "lMeta A now t key (store db) = Inr (head, tail_of head xs)"
      using list_case [OF rel(1) Some r] .
    then show ?thesis using True by (simp add: pop_def tail_of_def)
  next
    case False
    then show ?thesis
      using pop_rel [OF rel(1) Some r False ok c refl refl refl, of now isLeft] by (auto simp: Let_def)
  qed
qed

end

text \<open>
  C14. LPush puts the arguments in front of the list one after the other, so that the last
  argument comes first; a list that does not exist is created. The sequence number before the
  first element moves down by their number.
\<close>

theorem LPush_refines:
  assumes "art_engine A" and "db_rel A db a" "list_rep key (a_list a key) head xs" and "list_key_ok key"
    and "args \<noteq> []" "\<forall>x \<in> set args. length x < 2 ^ 32" "length args \<le> unat head"
    and "capacity (store db) valueTypeList (2 * length args)"
  shows "\<exists>db' m. LPush A now key args db = (Inr (), db') \<and> db_rel A db' (list_upd a key (Some m)) \<and>
    lrep key m (head - word_of_nat (length args)) (rev args @ xs)"
  using value_index.LPush_rel [OF value_index.intro [OF assms(1)] assms(2-)] by blast

theorem LPush_refines_witness:
  "\<exists>db' m. LPush rbt_art 0 (replicate 20 1) [[2], [3]] sample_db = (Inr (), db') \<and>
     lrep (replicate 20 1) m (initialListSeq - 2) [[3], [2]]"
  using LPush_refines [OF art_engine_rbt sample_db_rel sample_list sample_list_key, of "[[2], [3]]" 0] sample_ready [of 4]
  by (auto simp: ready_def initialListSeq_def)

text \<open>RPush appends the arguments to the list in their order; a list that does not exist is created.\<close>

theorem RPush_refines:
  assumes "art_engine A" and "db_rel A db a" "list_rep key (a_list a key) head xs" and "list_key_ok key"
    and "args \<noteq> []" "\<forall>x \<in> set args. length x < 2 ^ 32"
    and "unat head + length xs + length args + 1 < 2 ^ 32"
    and "capacity (store db) valueTypeList (2 * length args)"
  shows "\<exists>db' m. RPush A now key args db = (Inr (), db') \<and> db_rel A db' (list_upd a key (Some m)) \<and>
    lrep key m head (xs @ args)"
  using value_index.RPush_rel [OF value_index.intro [OF assms(1)] assms(2-)] by blast

theorem RPush_refines_witness:
  "\<exists>db' m. RPush rbt_art 0 (replicate 20 1) [[2], [3]] sample_db = (Inr (), db') \<and>
     lrep (replicate 20 1) m initialListSeq [[2], [3]]"
  using RPush_refines [OF art_engine_rbt sample_db_rel sample_list sample_list_key, of "[[2], [3]]" 0] sample_ready [of 4]
  by (auto simp: ready_def initialListSeq_def)

text \<open>
  C15. LPop takes the first element off the list and returns it, RPop the last one; on an empty
  or missing list they return nil and change nothing. A list that becomes empty is removed
  from the index, and a list that keeps an element stays; nothing else of the database changes.
\<close>

theorem pop_refines:
  assumes "art_engine A" and "db_rel A db a" "list_rep key (a_list a key) head xs" and "list_key_ok key"
    and "capacity (store db) valueTypeList 3"
  shows "if xs = [] then LPop A now key db = (Inr None, db) \<and> RPop A now key db = (Inr None, db)
    else (\<exists>db' mo. LPop A now key db = (Inr (Some (hd xs)), db') \<and> db_rel A db' (list_upd a key mo) \<and>
        (if tl xs = [] then mo = None else \<exists>m. mo = Some m \<and> lrep key m (head + 1) (tl xs))) \<and>
      (\<exists>db' mo. RPop A now key db = (Inr (Some (last xs)), db') \<and> db_rel A db' (list_upd a key mo) \<and>
        (if butlast xs = [] then mo = None else \<exists>m. mo = Some m \<and> lrep key m head (butlast xs)))"
proof -
  note p = value_index.pop_any [OF value_index.intro [OF assms(1)] assms(2-), of now]
  show ?thesis
  proof (cases "xs = []")
    case True
    then show ?thesis using p [of True] p [of False] by (simp add: LPop_def RPop_def)
  next
    case False
    obtain db1 mo1 where l: "LPop A now key db = (Inr (Some (hd xs)), db1)" "db_rel A db1 (list_upd a key mo1)"
      "list_live key mo1 (if tl xs = [] then initialListSeq else head + 1) (tl xs)"
      using p [of True] unfolding if_not_P [OF False] Let_def if_True LPop_def [symmetric] by blast
    obtain db2 mo2 where r: "RPop A now key db = (Inr (Some (last xs)), db2)" "db_rel A db2 (list_upd a key mo2)"
      "list_live key mo2 (if butlast xs = [] then initialListSeq else head) (butlast xs)"
      using p [of False] unfolding if_not_P [OF False] Let_def if_False RPop_def [symmetric] by blast
    show ?thesis
      unfolding if_not_P [OF False] using l(1,2) r(1,2) list_live_cases [OF l(3)] list_live_cases [OF r(3)] by (intro conjI) fastforce+
  qed
qed

lemma sample_two:
  "\<exists>(db :: ((bytes, Value_t) rbt, unit) LazyDB) m. LPush rbt_art 0 (replicate 20 1) [[2], [3]] sample_db = (Inr (), db) \<and>
     db_rel rbt_art db (list_upd empty_adb (replicate 20 1) (Some m)) \<and> lrep (replicate 20 1) m (initialListSeq - 2) [[3], [2]] \<and>
     spends valueTypeList 4 0 (store sample_db) (store db)"
proof -
  have c: "capacity (store (sample_db :: ((bytes, Value_t) rbt, unit) LazyDB)) valueTypeList (2 * length [[2], [3] :: bytes])"
    using sample_ready [of 4] by (simp add: ready_def)
  have u: "length [[2], [3] :: bytes] \<le> unat initialListSeq" by (simp add: initialListSeq_def)
  have n: "2 * length [[2], [3] :: bytes] = 4" "word_of_nat (length [[2], [3] :: bytes]) = (2 :: u32)" "rev [[2], [3] :: bytes] @ [] = [[3], [2]]"
    by simp_all
  show ?thesis
    using rbt_values.LPush_rel [OF sample_db_rel sample_list sample_list_key _ _ u c, of 0] unfolding n by simp
qed

theorem pop_refines_witness:
  "\<exists>(db :: ((bytes, Value_t) rbt, unit) LazyDB) db1 db2 db3. LPush rbt_art 0 (replicate 20 1) [[2], [3]] sample_db = (Inr (), db) \<and>
     RPop rbt_art 0 (replicate 20 1) db = (Inr (Some [2]), db1) \<and> LPop rbt_art 0 (replicate 20 1) db1 = (Inr (Some [3]), db2) \<and>
     listIndex db2 (replicate 20 1) = None \<and> LPop rbt_art 0 (replicate 20 1) db2 = (Inr None, db3)"
proof -
  let ?k = "replicate 20 1 :: bytes"
  have cap: "capacity (store sample_db) valueTypeList (4 + 9)" using sample_ready [of 13] by (simp add: ready_def)
  obtain db :: "((bytes, Value_t) rbt, unit) LazyDB" and m where db: "LPush rbt_art 0 ?k [[2], [3]] sample_db = (Inr (), db)"
    "db_rel rbt_art db (list_upd empty_adb ?k (Some m))" "lrep ?k m (initialListSeq - 2) [[3], [2]]" "spends valueTypeList 4 0 (store sample_db) (store db)"
    using sample_two by blast
  have c: "capacity (store db) valueTypeList (3 + 6)" using spendsD(2) [OF db(4) cap] by simp
  have p1: "list_rep ?k (a_list (list_upd empty_adb ?k (Some m)) ?k) (initialListSeq - 2) [[3], [2]]" using db(3) by (simp add: list_rep_def)
  obtain db1 m1 where db1: "RPop rbt_art 0 ?k db = (Inr (Some [2]), db1)" "db_rel rbt_art db1 (list_upd empty_adb ?k (Some m1))"
    "lrep ?k m1 (initialListSeq - 2) [[3]]"
    using pop_refines [OF art_engine_rbt db(2) p1 sample_list_key capacity_le [OF c], of 0] by auto
  have "spends valueTypeList 3 0 (store db) (store db1)"
    using rbt_values.pop_any [OF db(2) p1 sample_list_key capacity_le [OF c], of 0 False] db1(1) by (auto simp: RPop_def)
  then have c1: "capacity (store db1) valueTypeList 3" using spendsD(2) [OF _ c] capacity_le by fastforce
  have p2: "list_rep ?k (a_list (list_upd empty_adb ?k (Some m1)) ?k) (initialListSeq - 2) [[3]]" using db1(3) by (simp add: list_rep_def)
  obtain db2 where db2: "LPop rbt_art 0 ?k db1 = (Inr (Some [3]), db2)" "db_rel rbt_art db2 (list_upd empty_adb ?k None)"
    using pop_refines [OF art_engine_rbt db1(2) p2 sample_list_key c1, of 0] by auto
  have "listIndex db2 ?k = None" using rbt_values.list_None [OF db2(2), of ?k] by simp
  then show ?thesis using db(1) db1(1) db2(1) by (auto simp: LPop_def pop_def)
qed

context value_index
begin

lemma LIndex_LLen_rel:
  assumes rel: "db_rel A db a" "a_list a key = Some m" "lrep key m head xs"
    and ok: "seq_ok head (length xs) index"
  shows "LLen A now key db = Inr (length xs) \<and>
    LIndex A now key index db =
      (let p = pos_of (length xs) index
       in if 0 \<le> p \<and> p < int (length xs) then Inr (Some (xs ! nat p)) else Inl ErrWrongIndex)"
proof -
  obtain t where t: "listIndex db key = Some t" "index_rel A (store db) valueTypeList t m"
    "lMeta A now t key (store db) = Inr (head, tail_of head xs)"
    using list_case [OF rel] .
  have "LLen A now key db = Inr (length xs)"
    using t lrepD(1,2) [OF rel(3)] unat_u32 [of "length xs"] by (simp add: LLen_def)
  moreover have "getValue A now t (encodeListKey key (lSequence head (tail_of head xs) index)) valueTypeList (store db) =
      Inr (Some (xs ! nat (pos_of (length xs) index)))"
    if "0 \<le> pos_of (length xs) index" "pos_of (length xs) index < int (length xs)"
    unfolding seq_elem [OF rel(3) ok that]
    using elem_rel [OF db_relD(1) [OF rel(1)] t(2) rel(3), of "nat (pos_of (length xs) index)"] that by simp
  ultimately show ?thesis
    using t seq_bounds [OF rel(3) ok] by (auto simp: LIndex_def Let_def)
qed

lemma LRange_rel:
  assumes rel: "db_rel A db a" "a_list a key = Some m" "lrep key m head xs"
    and ok: "seq_ok head (length xs) start" "seq_ok head (length xs) stop"
  shows "LRange A now key start stop db =
    (let n = int (length xs); s = pos_of (length xs) start; e = pos_of (length xs) stop
     in if e < s \<or> n \<le> s \<or> e < 0 then Inl ErrWrongIndex
        else Inr (map (\<lambda>i. Some (xs ! i)) [nat (max 0 s)..<nat (min (n - 1) e + 1)]))"
proof -
  let ?S = "lSequence head (tail_of head xs) start" and ?E = "lSequence head (tail_of head xs) stop"
  let ?s = "pos_of (length xs) start" and ?e = "pos_of (length xs) stop"
  obtain t where t: "listIndex db key = Some t" "index_rel A (store db) valueTypeList t m"
    "lMeta A now t key (store db) = Inr (head, tail_of head xs)"
    using list_case [OF rel] .
  have "?E < ?S \<longleftrightarrow> ?e < ?s"
    using lSequence_pos [OF rel(3) ok(1)] lSequence_pos [OF rel(3) ok(2)] unfolding word_less_nat_alt by linarith
  then have c: "?E < ?S \<or> tail_of head xs \<le> ?S \<or> ?E \<le> head \<longleftrightarrow> ?e < ?s \<or> int (length xs) \<le> ?s \<or> ?e < 0"
    using seq_bounds [OF rel(3) ok(1)] seq_bounds [OF rel(3) ok(2)] by simp
  show ?thesis
  proof (cases "?e < ?s \<or> int (length xs) \<le> ?s \<or> ?e < 0")
    case True
    then show ?thesis using t c by (simp add: LRange_def Let_def)
  next
    case False
    have "nat (min (int (length xs) - 1) ?e + 1) \<le> length xs" by linarith
    then have "\<forall>i \<in> set [nat (max 0 ?s)..<nat (min (int (length xs) - 1) ?e + 1)]. i < length xs" by auto
    then show ?thesis
      using False t c LRange_loop_rel [OF db_relD(1) [OF rel(1)] t(2) rel(3)]
        LRange_seqs [OF rel(3) ok]
      by (simp add: LRange_def Let_def)
  qed
qed

end

text \<open>
  LLen is the length of the list, and LIndex the element at a position, counted from the
  end when the index is negative; a position outside the list is \<open>ErrWrongIndex\<close>.
\<close>

theorem LIndex_LLen_refines:
  assumes "art_engine A" and "db_rel A db a" "a_list a key = Some m" "lrep key m head xs"
    and "seq_ok head (length xs) index"
  shows "LLen A now key db = Inr (length xs) \<and>
    LIndex A now key index db =
      (let p = pos_of (length xs) index
       in if 0 \<le> p \<and> p < int (length xs) then Inr (Some (xs ! nat p)) else Inl ErrWrongIndex)"
  using value_index.LIndex_LLen_rel [OF value_index.intro [OF assms(1)] assms(2-)] .

theorem LIndex_LLen_refines_witness:
  "\<exists>db :: ((bytes, Value_t) rbt, unit) LazyDB.
     LLen rbt_art 0 (replicate 20 1) db = Inr 1 \<and> LIndex rbt_art 0 (replicate 20 1) (- 1) db = Inr (Some [2])"
proof -
  obtain db :: "((bytes, Value_t) rbt, unit) LazyDB" and a m where d: "db_rel rbt_art db a"
    "a_list a (replicate 20 1) = Some m" "lrep (replicate 20 1) m initialListSeq [[2]]"
    using sample_list_db by blast
  show ?thesis
    using LIndex_LLen_refines [OF art_engine_rbt d, of "- 1" 0] seq_ok_small by (auto simp: pos_of_def Let_def)
qed

context value_index
begin

lemma LSet_rel:
  assumes rel: "db_rel A db a" "a_list a key = Some m" "lrep key m head xs"
    and ok: "seq_ok head (length xs) index" "list_key_ok key" "length (bs v) < 2 ^ 32"
    and cap: "capacity (store db) valueTypeList 1"
  shows "let p = pos_of (length xs) index
    in if 0 \<le> p \<and> p < int (length xs)
       then \<exists>db' m'. LSet A now key index v db = (Inr (), db') \<and> db_rel A db' (list_upd a key (Some m')) \<and>
         lrep key m' head (xs[nat p := bs v]) \<and> spends valueTypeList 1 0 (store db) (store db')
       else LSet A now key index v db = (Inl ErrWrongIndex, db)"
proof -
  let ?p = "pos_of (length xs) index"
  obtain t where t: "listIndex db key = Some t" "index_rel A (store db) valueTypeList t m"
    "lMeta A now t key (store db) = Inr (head, tail_of head xs)"
    using list_case [OF rel] .
  show ?thesis
  proof (cases "0 \<le> ?p \<and> ?p < int (length xs)")
    case True
    let ?k = "encodeListKey key (head + 1 + word_of_nat (nat ?p))"
    obtain t' st' where p: "put_entry A valueTypeList t (mk_entry ?k v) False (store db) = (Inr (), t', st')"
      "store_inv st'" "store_ext valueTypeList (store db) st'" "index_rel A st' valueTypeList t' (m(?k \<mapsto> (bs v, 0)))"
      "spends valueTypeList 1 0 (store db) st'"
      using put_roomy [OF db_relD(1) [OF rel(1)] t(2) _ roomy_list(1) [OF ok(2,3), of "head + 1 + word_of_nat (nat ?p)"], of 0] cap
      by (auto simp del: fun_upd_apply)
    have "LSet A now key index v db = (Inr (), set_list key t' st' db)"
      using t True seq_bounds [OF rel(3) ok(1)] seq_elem [OF rel(3) ok(1)] p(1) by (simp add: LSet_def Let_def)
    moreover have "lrep key (m(?k \<mapsto> (bs v, 0))) head (xs[nat ?p := bs v])"
      using True by (intro lrep_set [OF rel(3)]) linarith
    ultimately show ?thesis
      using True set_list_rel [OF rel(1) p(2-4), of key] p(5) by (auto simp: Let_def set_list_def)
  next
    case False
    then show ?thesis using t seq_bounds [OF rel(3) ok(1)] by (auto simp: LSet_def Let_def)
  qed
qed

end

text \<open>
  LSet replaces the element at a position of the list, and is \<open>ErrWrongIndex\<close> without any
  effect for a position outside it.
\<close>

theorem LSet_refines:
  assumes "art_engine A" and rel: "db_rel A db a" "a_list a key = Some m" "lrep key m head xs"
    and ok: "seq_ok head (length xs) index" "list_key_ok key" "length (bs v) < 2 ^ 32"
    and cap: "capacity (store db) valueTypeList 1"
  shows "let p = pos_of (length xs) index
    in if 0 \<le> p \<and> p < int (length xs)
       then \<exists>db' m'. LSet A now key index v db = (Inr (), db') \<and> db_rel A db' (list_upd a key (Some m')) \<and>
         lrep key m' head (xs[nat p := bs v])
       else LSet A now key index v db = (Inl ErrWrongIndex, db)"
  using value_index.LSet_rel [OF value_index.intro [OF assms(1)] rel ok cap] by (simp add: Let_def) meson

theorem LSet_refines_witness:
  "\<exists>(db :: ((bytes, Value_t) rbt, unit) LazyDB) db' m'.
     LSet rbt_art 0 (replicate 20 1) 0 (Some [9]) db = (Inr (), db') \<and> lrep (replicate 20 1) m' initialListSeq [[9]]"
proof -
  obtain db :: "((bytes, Value_t) rbt, unit) LazyDB" and a m where d: "db_rel rbt_art db a"
    "a_list a (replicate 20 1) = Some m" "lrep (replicate 20 1) m initialListSeq [[2]]"
    and c: "capacity (store db) valueTypeList 5"
    using sample_list_db by blast
  show ?thesis
    using LSet_refines [OF art_engine_rbt d _ sample_list_key, of 0 "Some [9]" 0] seq_ok_small capacity_le [OF c, of 1]
    by (auto simp: pos_of_def Let_def)
qed

text \<open>
  C31. LRange returns the elements between two positions, both inclusive and clipped to the
  list; negative indices count from the end. A range that does not meet the list is
  \<open>ErrWrongIndex\<close>.
\<close>

theorem LRange_refines:
  assumes "art_engine A" and "db_rel A db a" "a_list a key = Some m" "lrep key m head xs"
    and "seq_ok head (length xs) start" "seq_ok head (length xs) stop"
  shows "LRange A now key start stop db =
    (let n = int (length xs); s = pos_of (length xs) start; e = pos_of (length xs) stop
     in if e < s \<or> n \<le> s \<or> e < 0 then Inl ErrWrongIndex
        else Inr (map (\<lambda>i. Some (xs ! i)) [nat (max 0 s)..<nat (min (n - 1) e + 1)]))"
  using value_index.LRange_rel [OF value_index.intro [OF assms(1)] assms(2-)] .

theorem LRange_refines_witness:
  "\<exists>db :: ((bytes, Value_t) rbt, unit) LazyDB. LRange rbt_art 0 (replicate 20 1) 0 (- 1) db = Inr [Some [2]]"
proof -
  obtain db :: "((bytes, Value_t) rbt, unit) LazyDB" and a m where d: "db_rel rbt_art db a"
    "a_list a (replicate 20 1) = Some m" "lrep (replicate 20 1) m initialListSeq [[2]]"
    using sample_list_db by blast
  show ?thesis
    using LRange_refines [OF art_engine_rbt d, of 0 "- 1" 0] seq_ok_small by (auto simp: pos_of_def)
qed

text \<open>
  C30. LMove takes an element off one end of the source list, returns it and pushes it onto an end of the
  destination, which it creates when needed and which may be the source itself; then the list is
  rotated. The source is removed from the index when it becomes empty and is not the destination. With an empty source nothing happens. The
  destination has a free sequence number at the end that is pushed to.
\<close>

theorem LMove_refines:
  assumes "art_engine A" and rel: "db_rel A db a"
    and src: "list_rep src (a_list a src) h xs" "list_key_ok src"
    and dst: "list_rep dst (a_list a dst) h' ys" "list_key_ok dst"
    and vals: "\<forall>x \<in> set xs. length x < 2 ^ 32"
    and x_def: "x = (if sl then hd xs else last xs)" and xs'_def: "xs' = (if sl then tl xs else butlast xs)"
    and q_def: "q = (if xs' = [] then initialListSeq else if sl then h + 1 else h)"
    and d_def: "(d, ds) = (if dst = src then (q, xs') else (h', ys))"
    and room: "if dl then d \<noteq> 0 else unat d + length ds + 2 < 2 ^ 32"
    and cap: "capacity (store db) valueTypeList 5"
  shows "if xs = [] then LMove A now src dst sl dl db = (Inr None, db)
    else \<exists>db' mo m. LMove A now src dst sl dl db = (Inr (Some x), db') \<and>
        db_rel A db' (list_upd (list_upd a src mo) dst (Some m)) \<and>
        (if xs' = [] then mo = None else \<exists>m0. mo = Some m0 \<and> lrep src m0 q xs') \<and>
        lrep dst m (if dl then d - 1 else d) (if dl then x # ds else ds @ [x])"
proof (cases "xs = []")
  case True
  have "capacity (store db) valueTypeList 3" using capacity_le [OF cap] by simp
  then have "pop A now src sl db = (Inr None, db)"
    using value_index.pop_any [OF value_index.intro [OF assms(1)] rel src, of now sl] True by simp
  then show ?thesis using True by (simp add: LMove_def)
next
  case False
  note vi = value_index.intro [OF assms(1)]
  obtain m where m: "a_list a src = Some m" "lrep src m h xs"
    using src(1) False by (auto simp: list_rep_def split: option.splits)
  have c: "capacity (store db) valueTypeList (Suc (Suc (Suc 2)))" using cap by (simp add: eval_nat_numeral)
  obtain db1 mo where p: "pop A now src sl db = (Inr (Some x), db1)" "db_rel A db1 (list_upd a src mo)"
    "list_live src mo q xs'" "capacity (store db1) valueTypeList 2"
    using value_index.pop_rel [OF vi rel m False src(2) c x_def xs'_def refl, of now] unfolding q_def by blast
  have "list_rep dst (a_list (list_upd a src mo) dst) d ds"
    using dst(1) d_def p(3) by (auto simp: list_live_def split: if_splits)
  then obtain m1 where l: "db_rel A (list_make A dst db1) (list_upd (list_upd a src mo) dst (Some m1))" "lrep dst m1 d ds"
    "store (list_make A dst db1) = store db1"
    using value_index.list_make_rel [OF vi p(2)] by blast
  have len: "length x < 2 ^ 32" using vals False by (simp add: x_def)
  have c2: "capacity (store (list_make A dst db1)) valueTypeList (Suc (Suc 0))"
    using p(4) l(3) by (simp add: eval_nat_numeral)
  obtain db' m2 where r: "push A now dst x dl (list_make A dst db1) = (Inr (), db')"
    "db_rel A db' (list_upd (list_upd (list_upd a src mo) dst (Some m1)) dst (Some m2))"
    "lrep dst m2 (if dl then d - 1 else d) (if dl then x # ds else ds @ [x])"
    using value_index.push_rel [OF vi l(1) _ l(2) dst(2) len c2 room, of now] by auto
  have "LMove A now src dst sl dl db = (Inr (Some x), db')"
    using p(1) r(1) by (simp add: LMove_def)
  moreover have "db_rel A db' (list_upd (list_upd a src mo) dst (Some m2))" using r(2) by simp
  ultimately show ?thesis unfolding if_not_P [OF False] using r(3) list_live_cases [OF p(3) [unfolded q_def]] q_def by (fastforce split: if_splits)
qed

theorem LMove_refines_witness:
  "\<exists>(db :: ((bytes, Value_t) rbt, unit) LazyDB) db' db''. LPush rbt_art 0 (replicate 20 1) [[2], [3]] sample_db = (Inr (), db) \<and>
     LMove rbt_art 0 (replicate 20 1) (replicate 20 2) True False db = (Inr (Some [3]), db') \<and>
     LRange rbt_art 0 (replicate 20 1) 0 (- 1) db' = Inr [Some [2]] \<and> LRange rbt_art 0 (replicate 20 2) 0 (- 1) db' = Inr [Some [3]] \<and>
     LMove rbt_art 0 (replicate 20 1) (replicate 20 1) True False db = (Inr (Some [3]), db'') \<and>
     LRange rbt_art 0 (replicate 20 1) 0 (- 1) db'' = Inr [Some [2], Some [3]]"
proof -
  let ?k = "replicate 20 1 :: bytes" and ?l = "replicate 20 2 :: bytes"
  have cap: "capacity (store sample_db) valueTypeList (4 + 5)" using sample_ready [of 9] by (simp add: ready_def)
  obtain db :: "((bytes, Value_t) rbt, unit) LazyDB" and m where db: "LPush rbt_art 0 ?k [[2], [3]] sample_db = (Inr (), db)"
    "db_rel rbt_art db (list_upd empty_adb ?k (Some m))" "lrep ?k m (initialListSeq - 2) [[3], [2]]" "spends valueTypeList 4 0 (store sample_db) (store db)"
    using sample_two by blast
  let ?a = "list_upd empty_adb ?k (Some m)"
  have c: "capacity (store db) valueTypeList 5" using spendsD(2) [OF db(4) cap] .
  have kl: "?l \<noteq> ?k" "list_key_ok ?l" by (simp_all add: replicate_eq_replicate list_key_ok_def)
  have p: "list_rep ?k (a_list ?a ?k) (initialListSeq - 2) [[3], [2]]" "list_rep ?l (a_list ?a ?l) initialListSeq []"
    using db(3) kl(1) by (simp_all add: list_rep_def empty_adb_def)
  obtain db' m0 m1 where a: "LMove rbt_art 0 ?k ?l True False db = (Inr (Some [3]), db')"
    "db_rel rbt_art db' (list_upd (list_upd ?a ?k (Some m0)) ?l (Some m1))" "lrep ?k m0 (initialListSeq - 1) [[2]]" "lrep ?l m1 initialListSeq [[3]]"
    using LMove_refines [OF art_engine_rbt db(2) p(1) sample_list_key p(2) kl(2) _ refl refl refl _ _ c, where sl = True and dl = False and now = 0
        and d = initialListSeq and ds = "[]"] kl(1) by (auto simp: initialListSeq_def)
  obtain db'' m2 where b: "LMove rbt_art 0 ?k ?k True False db = (Inr (Some [3]), db'')"
    "db_rel rbt_art db'' (list_upd ?a ?k (Some m2))" "lrep ?k m2 (initialListSeq - 1) [[2], [3]]"
    using LMove_refines [OF art_engine_rbt db(2) p(1) sample_list_key p(1) sample_list_key _ refl refl refl _ _ c, where sl = True and dl = False and now = 0
        and d = "initialListSeq - 1" and ds = "[[2]]"] by (auto simp: initialListSeq_def)
  have s: "seq_ok h (length (x # xs)) 0" "seq_ok h (length (x # xs)) (- 1)" if "h \<in> {initialListSeq, initialListSeq - 1}" for h and x :: bytes and xs
    using that by (auto simp: seq_ok_def initialListSeq_def)
  have "LRange rbt_art 0 ?k 0 (- 1) db' = Inr [Some [2]]"
    using rbt_values.LRange_rel [OF a(2) _ a(3) s, of 0] kl(1) by (simp add: pos_of_def)
  moreover have "LRange rbt_art 0 ?l 0 (- 1) db' = Inr [Some [3]]"
    using rbt_values.LRange_rel [OF a(2) _ a(4) s, of 0] by (simp add: pos_of_def)
  moreover have "LRange rbt_art 0 ?k 0 (- 1) db'' = Inr [Some [2], Some [3]]"
    using rbt_values.LRange_rel [OF b(2) _ b(3) s, of 0] by (simp add: pos_of_def upt_rec numeral_2_eq_2)
  ultimately show ?thesis using db(1) a(1) b(1) by blast
qed

end
