(* ===== verification/Murmur.thy ===== *)
theory Murmur
  imports Go_Binary
begin

text \<open>
  \<open>util/hash.go\<close>: the wrapper \<open>Murmur128\<close> that the set commands use to turn a member into an
  index key. The hash itself is the third-party package \<open>murmur3\<close>, a parameter; \<open>mur_engine\<close>
  states what \<open>hash.Hash\<close> documents: the sum depends on the bytes written since the last
  reset, a write takes all its bytes and never fails.

  The wrapper turns the two words of a sum into a key, injectively; the operations of a set
  use it in the sequence \<open>Write\<close>, \<open>EncodeSum128\<close>, \<open>Reset\<close>, here \<open>member_key\<close>.
\<close>

subsection \<open>Definitions\<close>

record 'h mur3 =
  mur_New :: 'h
  mur_Write :: "'h \<Rightarrow> bytes \<Rightarrow> 'h \<times> int \<times> err option"
  mur_Sum128 :: "'h \<Rightarrow> u64 \<times> u64"
  mur_Reset :: "'h \<Rightarrow> 'h"

definition NewMurmur128 :: "'h mur3 \<Rightarrow> 'h" where
  "NewMurmur128 M = mur_New M"

definition Mur_Write :: "'h mur3 \<Rightarrow> 'h \<Rightarrow> bytes \<Rightarrow> err option \<times> 'h" where
  "Mur_Write M h p =
     (case mur_Write M h p of
        (h', n, e) \<Rightarrow> (if n \<noteq> int (length p) then Some ErrShortWrite else e, h'))"

definition EncodeSum128 :: "'h mur3 \<Rightarrow> 'h \<Rightarrow> bytes" where
  "EncodeSum128 M h = (case mur_Sum128 M h of (s1, s2) \<Rightarrow> PutUvarint (unat s1) @ PutUvarint (unat s2))"

definition Mur_Reset :: "'h mur3 \<Rightarrow> 'h \<Rightarrow> 'h" where
  "Mur_Reset M h = mur_Reset M h"

text \<open>The lines that compute the key of a member.\<close>

definition member_key :: "'h mur3 \<Rightarrow> 'h \<Rightarrow> bytes \<Rightarrow> bytes result \<times> 'h" where
  "member_key M h mem =
     (case Mur_Write M h mem of
        (Some e, h') \<Rightarrow> (Inl e, h')
      | (None, h') \<Rightarrow> (Inr (EncodeSum128 M h'), Mur_Reset M h'))"

subsection \<open>Contract\<close>

text \<open>\<open>sum128\<close> is the hash function, \<open>written\<close> the bytes that a state has taken since its reset.\<close>

locale mur_engine =
  fixes M :: "'h mur3" and sum128 :: "bytes \<Rightarrow> u64 \<times> u64" and written :: "'h \<Rightarrow> bytes"
  assumes new_written: "written (mur_New M) = []"
    and write_all: "mur_Write M h p = (h', n, e) \<Longrightarrow> written h' = written h @ p \<and> n = int (length p) \<and> e = None"
    and sum_written: "mur_Sum128 M h = sum128 (written h)"
    and reset_written: "written (mur_Reset M h) = []"

definition sum_key :: "(bytes \<Rightarrow> u64 \<times> u64) \<Rightarrow> bytes \<Rightarrow> bytes" where
  "sum_key sum128 v = (case sum128 v of (s1, s2) \<Rightarrow> PutUvarint (unat s1) @ PutUvarint (unat s2))"

lemma PutUvarint_pair_inj:
  assumes "PutUvarint (unat a) @ PutUvarint (unat b) = PutUvarint (unat c) @ PutUvarint (unat d)"
  shows "(a :: u64) = c \<and> (b :: u64) = d"
proof -
  have u: "Uvarint (PutUvarint (unat x) @ r) = (unat x, int (length (PutUvarint (unat x))))" for x :: u64 and r
    using unsigned_less [of x, where ?'a = nat] by (intro Uvarint_PutUvarint) simp
  have ac: "unat a = unat c" using u [of a "PutUvarint (unat b)"] u [of c "PutUvarint (unat d)"] assms by simp
  have "PutUvarint (unat b) = PutUvarint (unat d)" using assms unfolding ac by simp
  then have "unat b = unat d" using u [of b "[]"] u [of d "[]"] by (metis prod.inject)
  then show ?thesis using unsigned_word_eqI [OF ac] unsigned_word_eqI [of b d] by simp
qed

lemma sum_key_inj: "inj_on sum128 S \<Longrightarrow> inj_on (sum_key sum128) S"
  unfolding inj_on_def sum_key_def by (metis (no_types, lifting) PutUvarint_pair_inj case_prod_beta prod.collapse)

lemma length_sum_key: "length (sum_key sum128 v) \<le> 20" "sum_key sum128 v \<noteq> []"
proof -
  have "length (PutUvarint (unat (x :: u64))) \<le> 10" for x
    using unsigned_less [of x, where ?'a = nat] by (intro length_PutUvarint_le) auto
  from this [of "fst (sum128 v)"] this [of "snd (sum128 v)"]
  show "length (sum_key sum128 v) \<le> 20" by (simp add: sum_key_def case_prod_beta)
qed (simp add: sum_key_def case_prod_beta)

context mur_engine
begin

text \<open>From a reset state the key is the encoded hash of the member, and the state is reset again.\<close>

lemma member_key_ok:
  assumes "written h = []"
  shows "\<exists>h'. member_key M h mem = (Inr (sum_key sum128 mem), h') \<and> written h' = []"
proof -
  obtain h' n e where w: "mur_Write M h mem = (h', n, e)" by (cases "mur_Write M h mem")
  then show ?thesis
    using write_all [OF w] assms
    by (simp add: member_key_def Mur_Write_def EncodeSum128_def sum_written sum_key_def Mur_Reset_def reset_written)
qed

text \<open>
  Two members whose writes are not separated by a reset: the key is that of their
  concatenation. The state is shared, so this is what readers that run at the same time get.
\<close>

lemma member_key_interleaved:
  assumes "written h = []" "Mur_Write M h m1 = (e1, h1)" "Mur_Write M h1 m2 = (e2, h2)"
  shows "EncodeSum128 M h2 = sum_key sum128 (m1 @ m2)"
proof -
  obtain h1' n1 x1 h2' n2 x2 where w: "mur_Write M h m1 = (h1', n1, x1)" "mur_Write M h1 m2 = (h2', n2, x2)"
    by (metis prod_cases3)
  then have "h1' = h1" "h2' = h2" using assms(2,3) by (simp_all add: Mur_Write_def)
  then show ?thesis
    using write_all [OF w(1)] write_all [OF w(2)] assms(1) by (simp add: EncodeSum128_def sum_written sum_key_def)
qed

end

subsection \<open>An engine\<close>

text \<open>Keeps the bytes and hashes them when asked; short inputs do not collide.\<close>

definition buf_sum :: "bytes \<Rightarrow> u64 \<times> u64" where
  "buf_sum b = (word_of_nat (foldl (\<lambda>n x. 256 * n + unat x) 0 b), word_of_nat (length b))"

definition buf_mur :: "bytes mur3" where
  "buf_mur = \<lparr>mur_New = [], mur_Write = (\<lambda>h p. (h @ p, int (length p), None)), mur_Sum128 = buf_sum,
     mur_Reset = (\<lambda>_. [])\<rparr>"

interpretation buf_engine: mur_engine buf_mur buf_sum id
  by unfold_locales (auto simp: buf_mur_def)

lemma mur_engine_buf: "mur_engine buf_mur buf_sum id"
  by (rule buf_engine.mur_engine_axioms)

end
