(* ===== verification/Set_Ops.thy ===== *)
theory Set_Ops
  imports Str_Ops Murmur
begin

text \<open>
  \<open>set.go\<close>: the operations on sets. A member is logged under the key of its set and indexed
  under the hash of the member. The state of the hash is part of the set index and threaded
  through the operations next to the database.

  The properties are stated over the abstract set of members. They assume that the hash tells
  the members at hand apart; a collision makes two members one.
\<close>

subsection \<open>Definitions\<close>

text \<open>Log one entry and index another one that says where to find it.\<close>

definition sadd_put ::
    "('t, Value_t) art \<Rightarrow> LogEntry \<Rightarrow> bytes \<Rightarrow> bytes \<Rightarrow> 't \<Rightarrow> Store \<Rightarrow> unit result \<times> 't \<times> Store" where
  "sadd_put A ent msum mem t st =
     (case writeLogEntry valueTypeSet ent st of
        (Inl e, st1) \<Rightarrow> (Inl e, t, st1)
      | (Inr valPos, st1) \<Rightarrow>
          (case EncodeEntry (Some ent) of
             Inl e \<Rightarrow> (Inl e, t, st1)
           | Inr (_, siz) \<Rightarrow>
               updateIndexTree A valueTypeSet t (mk_entry msum (Some mem)) (valPos\<lparr>vp_entrySize := int siz\<rparr>) False st1))"

fun SAdd_loop ::
    "'h mur3 \<Rightarrow> ('t, Value_t) art \<Rightarrow> bytes \<Rightarrow> bytes list \<Rightarrow> 'h \<Rightarrow> 't \<Rightarrow> Store \<Rightarrow> unit result \<times> 'h \<times> 't \<times> Store" where
  "SAdd_loop M A key [] h t st = (Inr (), h, t, st)"
| "SAdd_loop M A key (mem # members) h t st =
     (if length mem = 0 then SAdd_loop M A key members h t st
      else case member_key M h mem of
             (Inl e, h') \<Rightarrow> (Inl e, h', t, st)
           | (Inr msum, h') \<Rightarrow>
               (case sadd_put A (mk_entry key (Some mem)) msum mem t st of
                  (Inl e, t', st') \<Rightarrow> (Inl e, h', t', st')
                | (Inr _, t', st') \<Rightarrow> SAdd_loop M A key members h' t' st'))"

definition set_tree :: "('t, Value_t) art \<Rightarrow> bytes \<Rightarrow> ('t, 's) LazyDB \<Rightarrow> 't" where
  "set_tree A key db = (case setIndex db key of None \<Rightarrow> NewART A | Some t \<Rightarrow> t)"

definition SAdd ::
    "'h mur3 \<Rightarrow> ('t, Value_t) art \<Rightarrow> bytes \<Rightarrow> bytes list \<Rightarrow> 'h \<Rightarrow> ('t, 's) LazyDB \<Rightarrow> unit result \<times> 'h \<times> ('t, 's) LazyDB" where
  "SAdd M A key members h db =
     (case SAdd_loop M A key members h (set_tree A key db) (store db) of
        (r, h', t, st) \<Rightarrow> (r, h', db\<lparr>store := st, setIndex := (setIndex db)(key \<mapsto> t)\<rparr>))"

definition SIsMember ::
    "'h mur3 \<Rightarrow> ('t, Value_t) art \<Rightarrow> bytes \<Rightarrow> bytes \<Rightarrow> 'h \<Rightarrow> ('t, 's) LazyDB \<Rightarrow> bool \<times> 'h" where
  "SIsMember M A key member h db =
     (case setIndex db key of
        None \<Rightarrow> (False, h)
      | Some idxTree \<Rightarrow>
          (case member_key M h member of
             (Inl e, h') \<Rightarrow> (False, h')
           | (Inr msum, h') \<Rightarrow> (ART_Get A idxTree msum \<noteq> None, h')))"

text \<open>The loop over the nodes of the tree that reads their values, in \<open>sMembers\<close> and \<open>SPop\<close>.\<close>

fun read_nodes :: "('t, Value_t) art \<Rightarrow> int \<Rightarrow> bytes list \<Rightarrow> 't \<Rightarrow> Store \<Rightarrow> slice list result" where
  "read_nodes A now [] t st = Inr []"
| "read_nodes A now (k # ks) t st =
     (case getValue A now t k valueTypeSet st of
        Inl e \<Rightarrow> Inl e
      | Inr val \<Rightarrow> map_sum id (\<lambda>vs. val # vs) (read_nodes A now ks t st))"

definition sMembers :: "('t, Value_t) art \<Rightarrow> int \<Rightarrow> bytes \<Rightarrow> ('t, 's) LazyDB \<Rightarrow> slice list result" where
  "sMembers A now key db =
     (case setIndex db key of
        None \<Rightarrow> Inr []
      | Some idxTree \<Rightarrow> read_nodes A now (map fst (ART_Iterator A idxTree)) idxTree (store db))"

definition SMembers :: "('t, Value_t) art \<Rightarrow> int \<Rightarrow> bytes \<Rightarrow> ('t, 's) LazyDB \<Rightarrow> slice list result" where
  "SMembers A now key db = sMembers A now key db"

text \<open>The entry that records a removal: the value is the index key of the member.\<close>

definition srem_entry :: "bytes \<Rightarrow> bytes \<Rightarrow> LogEntry" where
  "srem_entry key msum = (mk_entry key (Some msum))\<lparr>Stat := SDelete\<rparr>"

definition sremInternal ::
    "'h mur3 \<Rightarrow> ('t, Value_t) art \<Rightarrow> bytes \<Rightarrow> bytes \<Rightarrow> 'h \<Rightarrow> 't \<Rightarrow> Store \<Rightarrow> unit result \<times> 'h \<times> 't \<times> Store" where
  "sremInternal M A key member h t st =
     (case member_key M h member of
        (Inl e, h') \<Rightarrow> (Inl e, h', t, st)
      | (Inr msum, h') \<Rightarrow>
          (case ART_Delete A t msum of
             (t', val, updated) \<Rightarrow>
               if \<not> updated then (Inr (), h', t', st)
               else (case writeLogEntry valueTypeSet (srem_entry key msum) st of
                       (Inl e, st1) \<Rightarrow> (Inl e, h', t', st1)
                     | (Inr pos, st1) \<Rightarrow>
                         (case report_deleted valueTypeSet val updated (srem_entry key msum) pos st1 of
                            (r, st2) \<Rightarrow> (r, h', t', st2)))))"

fun srem_all ::
    "'h mur3 \<Rightarrow> ('t, Value_t) art \<Rightarrow> bytes \<Rightarrow> bytes list \<Rightarrow> 'h \<Rightarrow> 't \<Rightarrow> Store \<Rightarrow> unit result \<times> 'h \<times> 't \<times> Store" where
  "srem_all M A key [] h t st = (Inr (), h, t, st)"
| "srem_all M A key (mem # members) h t st =
     (case sremInternal M A key mem h t st of
        (Inl e, h', t', st') \<Rightarrow> (Inl e, h', t', st')
      | (Inr _, h', t', st') \<Rightarrow> srem_all M A key members h' t' st')"

definition SRem ::
    "'h mur3 \<Rightarrow> ('t, Value_t) art \<Rightarrow> bytes \<Rightarrow> bytes list \<Rightarrow> 'h \<Rightarrow> ('t, 's) LazyDB \<Rightarrow> unit result \<times> 'h \<times> ('t, 's) LazyDB" where
  "SRem M A key members h db =
     (case setIndex db key of
        None \<Rightarrow> (Inr (), h, db)
      | Some idxTree \<Rightarrow>
          (case srem_all M A key members h idxTree (store db) of
             (r, h', t, st) \<Rightarrow> (r, h', db\<lparr>store := st, setIndex := (setIndex db)(key \<mapsto> t)\<rparr>)))"

text \<open>An error of \<open>getValue\<close> returns before anything is removed.\<close>

definition SPop ::
    "'h mur3 \<Rightarrow> ('t, Value_t) art \<Rightarrow> int \<Rightarrow> bytes \<Rightarrow> nat \<Rightarrow> 'h \<Rightarrow> ('t, 's) LazyDB
       \<Rightarrow> slice list result \<times> 'h \<times> ('t, 's) LazyDB" where
  "SPop M A now key num h db =
     (case setIndex db key of
        None \<Rightarrow> (Inr [], h, db)
      | Some idxTree \<Rightarrow>
          (case read_nodes A now (take num (map fst (ART_Iterator A idxTree))) idxTree (store db) of
             Inl e \<Rightarrow> (Inl e, h, db)
           | Inr vals \<Rightarrow>
               (case srem_all M A key (map bs vals) h idxTree (store db) of
                  (r, h', t, st) \<Rightarrow>
                    (map_sum id (\<lambda>_. vals) r, h', db\<lparr>store := st, setIndex := (setIndex db)(key \<mapsto> t)\<rparr>))))"

subsection \<open>Abstraction\<close>

text \<open>The items of a tree that holds the members \<open>S\<close> under the keys \<open>K\<close>.\<close>

definition set_rep :: "(bytes \<Rightarrow> bytes) \<Rightarrow> imap \<Rightarrow> bytes set \<Rightarrow> bool" where
  "set_rep K m S \<longleftrightarrow> dom m = K ` S \<and> (\<forall>v \<in> S. m (K v) = Some (v, 0))"

definition set_of :: "adb \<Rightarrow> bytes \<Rightarrow> imap" where
  "set_of a key = (case a_set a key of None \<Rightarrow> Map.empty | Some m \<Rightarrow> m)"

definition set_upd :: "adb \<Rightarrow> bytes \<Rightarrow> imap \<Rightarrow> adb" where
  "set_upd a key m = a\<lparr>a_set := (a_set a)(key \<mapsto> m)\<rparr>"

lemma set_rep_empty [simp]: "set_rep K Map.empty {}"
  by (simp add: set_rep_def)

lemma set_rep_insert: "set_rep K m S \<Longrightarrow> inj_on K (insert v S) \<Longrightarrow> set_rep K (m(K v \<mapsto> (v, 0))) (insert v S)"
  by (auto simp: set_rep_def inj_on_def)

lemma set_rep_delete:
  assumes "set_rep K m S" "inj_on K (insert v S)"
  shows "set_rep K (m(K v := None)) (S - {v})"
proof -
  have "K ` S - {K v} = K ` (S - {v})" using assms(2) by (auto simp: inj_on_def)
  then show ?thesis using assms by (auto simp: set_rep_def inj_on_def)
qed

lemma set_rep_mem: "set_rep K m S \<Longrightarrow> inj_on K (insert v S) \<Longrightarrow> m (K v) \<noteq> None \<longleftrightarrow> v \<in> S"
  by (auto simp: set_rep_def inj_on_def domI)

subsection \<open>Refinement\<close>

lemma set_upd_simps [simp]:
  "a_str (set_upd a key m) = a_str a" "a_hash (set_upd a key m) = a_hash a" "a_list (set_upd a key m) = a_list a"
  "a_zset (set_upd a key m) = a_zset a" "set_of (set_upd a key m) k = (if k = key then m else set_of a k)"
  by (simp_all add: set_upd_def set_of_def)

definition adds_ok :: "bytes \<Rightarrow> bytes list \<Rightarrow> bool" where
  "adds_ok key vs \<longleftrightarrow> (\<forall>v \<in> set vs. v \<noteq> [] \<longrightarrow> roomy (mk_entry key (Some v)))"

definition rems_ok :: "(bytes \<Rightarrow> bytes) \<Rightarrow> bytes \<Rightarrow> bytes list \<Rightarrow> bool" where
  "rems_ok K key vs \<longleftrightarrow> (\<forall>v \<in> set vs. roomy (srem_entry key (K v)))"

context value_index
begin

lemma set_tree_rel:
  assumes "db_rel A db a"
  shows "index_rel A (store db) valueTypeSet (set_tree A key db) (set_of a key)"
proof -
  have "rel_option (index_rel A (store db) valueTypeSet) (setIndex db key) (a_set a key)"
    using assms by (simp add: db_rel_def)
  then show ?thesis using new_rel by (auto simp: set_tree_def set_of_def split: option.split)
qed

lemma set_None: "db_rel A db a \<Longrightarrow> setIndex db key = None \<longleftrightarrow> a_set a key = None"
  unfolding db_rel_def by (metis option.rel_distinct option.exhaust)

lemma set_Some:
  "db_rel A db a \<Longrightarrow> setIndex db key = Some t \<Longrightarrow> index_rel A (store db) valueTypeSet t (set_of a key)"
  using set_tree_rel [of db a key] by (simp add: set_tree_def)

lemma db_rel_set:
  assumes "db_rel A db a" "store_inv st'" "store_ext valueTypeSet (store db) st'" "index_rel A st' valueTypeSet t m"
  shows "db_rel A (db\<lparr>store := st', setIndex := (setIndex db)(key \<mapsto> t)\<rparr>) (set_upd a key m)"
  using db_rel_ext [OF assms(1-3)] assms(4) by (simp add: db_rel_def set_upd_def)

lemma sadd_put_rel:
  assumes inv: "store_inv st" and rel: "index_rel A st valueTypeSet t m"
    and cap: "capacity st valueTypeSet (Suc n)" and ok: "roomy le"
    and le: "bs (Value le) = mem" "ExpiredAt le = 0" "Stat le \<noteq> SDelete"
  shows "\<exists>t' st'. sadd_put A le k mem t st = (Inr (), t', st') \<and> store_inv st' \<and> store_ext valueTypeSet st st' \<and>
    capacity st' valueTypeSet n \<and> index_rel A st' valueTypeSet t' (m(k \<mapsto> (mem, 0))) \<and>
    chan_upd valueTypeSet [] st st' \<and> spends valueTypeSet 1 0 st st'"
proof -
  obtain pos st1 where w: "writeLogEntry valueTypeSet le st = (Inr pos, st1)" "store_inv st1" "capacity st1 valueTypeSet n"
    "\<And>ls. log_view st valueTypeSet ls \<Longrightarrow> log_view st1 valueTypeSet (ls @ [(vp_fid pos, vp_offset pos, le)])"
    and ext: "store_ext valueTypeSet st st1" "chan_upd valueTypeSet [] st st1"
      "\<And>n. capacity st valueTypeSet (Suc n) \<Longrightarrow> capacity st1 valueTypeSet n"
    using log_write [OF inv roomy_put_ok [OF cap ok]] cap by blast
  define node where "node = \<lparr>v_value = None, v_vType = valueTypeString, v_fid = vp_fid pos,
    v_offset = vp_offset pos, v_entrySize = int (entry_size le), v_expiredAt = 0\<rparr>"
  have "points st1 valueTypeSet k node (mem, 0)"
    unfolding points_def using refers_written [OF inv w(4), where v = node and k = k] le by (simp add: node_def)
  then have "index_rel A st1 valueTypeSet (fst (ART_Put A t k node)) (m(k \<mapsto> (mem, 0)))"
    using put_rel [OF index_rel_ext [OF rel ext(1)]] by blast
  moreover have "EncodeEntry (Some le) = Inr (entry_bytes le, entry_size le)"
    using ok by (auto simp: roomy_def intro: EncodeEntry_encodable)
  then have "sadd_put A le k mem t st = (Inr (), fst (ART_Put A t k node), st1)"
    using w(1) by (simp add: sadd_put_def updateIndexTree_def node_def split: prod.split)
  ultimately show ?thesis using w(2,3) ext spends_write [OF ext] by auto
qed

lemma set_get_rel:
  assumes "store_inv st" "index_rel A st valueTypeSet t m" "set_rep K m S" "set vs \<subseteq> S"
  shows "read_nodes A now (map K vs) t st = Inr (map Some vs)"
  using assms(4)
proof (induction vs)
  case (Cons v vs)
  have "getValue A now t (K v) valueTypeSet st = Inr (Some v)"
    using getValue_rel [OF assms(1,2)] assms(3) Cons(2) by (simp add: lookup_item_def set_rep_def live_def)
  then show ?case using Cons by simp
qed simp

text \<open>The nodes of the tree stand for the members in some order.\<close>

lemma set_list:
  assumes "index_rel A st valueTypeSet t m" "set_rep K m S" "inj_on K S"
  obtains vs where "map fst (ART_Iterator A t) = map K vs" "distinct vs" "set vs = S"
proof -
  have dom: "set (map fst (ART_Iterator A t)) = K ` S"
    using index_rel_dom [OF assms(1)] idx.iter_keys [of t] assms(2) by (simp add: set_rep_def)
  define vs where "vs = map (inv_into S K) (map fst (ART_Iterator A t))"
  have "map K vs = map fst (ART_Iterator A t)"
    using dom unfolding vs_def by (simp add: set_eq_iff image_iff) (metis f_inv_into_f fst_conv image_eqI)
  moreover have "set vs \<subseteq> S" using dom unfolding vs_def by (simp add: set_eq_iff image_iff subset_iff) (metis image_eqI inv_into_into)
  ultimately have vs: "map fst (ART_Iterator A t) = map K vs" "set vs \<subseteq> S" by simp_all
  have "distinct vs" using idx.iter_ok(2) [of t] unfolding vs(1) by (simp add: distinct_map)
  moreover have "set vs = S"
    using dom vs(2) assms(3) unfolding vs(1) by (metis inj_on_image_eq_iff order_refl set_map)
  ultimately show thesis using that vs(1) by blast
qed

end

locale set_index = value_index A + mur_engine M sum128 written
  for A :: "('t, Value_t) art" and M :: "'h mur3" and sum128 written
begin

abbreviation K :: "bytes \<Rightarrow> bytes" where
  "K \<equiv> sum_key sum128"

lemma SAdd_loop_rel:
  assumes "store_inv st" "index_rel A st valueTypeSet t m" "set_rep K m S" "capacity st valueTypeSet (length vs)"
    "adds_ok key vs" "inj_on K (S \<union> set vs)" "written h = []"
  shows "\<exists>h' t' st' m'. SAdd_loop M A key vs h t st = (Inr (), h', t', st') \<and> written h' = [] \<and> store_inv st' \<and>
    store_ext valueTypeSet st st' \<and> index_rel A st' valueTypeSet t' m' \<and> set_rep K m' (S \<union> (set vs - {[]})) \<and>
    spends valueTypeSet (length vs) 0 st st'"
  using assms
proof (induction vs arbitrary: S m h t st)
  case (Cons v vs)
  show ?case
  proof (cases "v = []")
    case True
    have "capacity st valueTypeSet (length vs)" using Cons.prems(4) capacity_le [of st valueTypeSet "Suc (length vs)"] by simp
    moreover have "inj_on K (S \<union> set vs)" by (rule inj_on_subset [OF Cons.prems(6)]) auto
    ultimately show ?thesis
      using Cons.IH [of st t m S h] Cons.prems True spends_le [of valueTypeSet "length vs" 0 st _ "length (v # vs)" 0]
      by (fastforce simp: adds_ok_def)
  next
    case False
    obtain h1 where h1: "member_key M h v = (Inr (K v), h1)" "written h1 = []" using member_key_ok [OF Cons.prems(7)] by blast
    have "capacity st valueTypeSet (Suc (length vs))" "roomy (mk_entry key (Some v))"
      using Cons.prems(4,5) False by (simp_all add: adds_ok_def)
    then obtain t1 st1 where p: "sadd_put A (mk_entry key (Some v)) (K v) v t st = (Inr (), t1, st1)" "store_inv st1"
      "store_ext valueTypeSet st st1" "capacity st1 valueTypeSet (length vs)"
      "index_rel A st1 valueTypeSet t1 (m(K v \<mapsto> (v, 0)))" "spends valueTypeSet 1 0 st st1"
      using sadd_put_rel [OF Cons.prems(1,2), where n = "length vs" and le = "mk_entry key (Some v)" and mem = v and k = "K v"]
      by (auto simp: SDelete_def bs_def)
    have inj: "inj_on K (insert v S)" "inj_on K (insert v S \<union> set vs)"
      by (rule inj_on_subset [OF Cons.prems(6)], force)+
    obtain h' t' st' m' where l: "SAdd_loop M A key vs h1 t1 st1 = (Inr (), h', t', st')" "written h' = []" "store_inv st'"
      "store_ext valueTypeSet st1 st'" "index_rel A st' valueTypeSet t' m'" "set_rep K m' (insert v S \<union> (set vs - {[]}))"
      "spends valueTypeSet (length vs) 0 st1 st'"
      using Cons.IH [OF p(2,5) set_rep_insert [OF Cons.prems(3) inj(1)] p(4) _ inj(2) h1(2)] Cons.prems(5)
      by (auto simp: adds_ok_def)
    moreover have "insert v S \<union> (set vs - {[]}) = S \<union> (set (v # vs) - {[]})" using False by auto
    moreover have "spends valueTypeSet (length (v # vs)) 0 st st'" using spends_trans [OF p(6) l(7)] by simp
    ultimately show ?thesis using h1 p(1) False store_ext_trans [OF p(3) l(4)] by simp blast
  qed
qed auto

lemma srem_rel:
  assumes "store_inv st" "index_rel A st valueTypeSet t m" "set_rep K m S" "inj_on K (insert v S)" "written h = []"
    and cap: "capacity st valueTypeSet (Suc n)" and room: "chan_room st valueTypeSet (2 + r)"
    and ok: "roomy (srem_entry key (K v))"
  shows "\<exists>h' t' st'. sremInternal M A key v h t st = (Inr (), h', t', st') \<and> written h' = [] \<and> store_inv st' \<and>
    store_ext valueTypeSet st st' \<and> capacity st' valueTypeSet n \<and> chan_room st' valueTypeSet r \<and>
    index_rel A st' valueTypeSet t' (m(K v := None)) \<and> spends valueTypeSet 1 2 st st'"
proof -
  obtain h' where h': "member_key M h v = (Inr (K v), h')" "written h' = []" using member_key_ok [OF assms(5)] by blast
  define t' where "t' = fst (ART_Delete A t (K v))"
  note del = idx.del_eq [of t "K v", folded t'_def]
  show ?thesis
  proof (cases "ART_Get A t (K v)")
    case None
    then have "m(K v := None) = m" using index_rel_get [OF assms(2)] by auto
    moreover have "index_rel A st valueTypeSet t' (m(K v := None))" unfolding t'_def by (rule del_rel [OF assms(2)])
    ultimately show ?thesis
      using h' del None assms(1) capacity_le [OF cap] chan_room_le [OF room] by (simp add: sremInternal_def)
  next
    case (Some x)
    let ?le = "srem_entry key (K v)"
    obtain pos st1 where w: "writeLogEntry valueTypeSet ?le st = (Inr pos, st1)" "store_inv st1" "capacity st1 valueTypeSet n"
      "contents (files st1) valueTypeSet (vp_fid pos) \<noteq> None"
      and ext: "store_ext valueTypeSet st st1" "chan_upd valueTypeSet [] st st1"
        "\<And>n. capacity st valueTypeSet (Suc n) \<Longrightarrow> capacity st1 valueTypeSet n"
      using log_write [OF assms(1) roomy_put_ok [OF cap ok]] cap by blast
    have rel1: "index_rel A st1 valueTypeSet t m" by (rule index_rel_ext [OF assms(2) ext(1)])
    have len: "length (old_node A t (K v)) \<le> 1" by (rule length_old_node)
    then have "chan_room st1 valueTypeSet (Suc (length (old_node A t (K v))))"
      using chan_upd_room [OF ext(2)] chan_room_le [OF room] by simp
    moreover have "encodable ?le" using ok by (simp add: roomy_def)
    ultimately obtain st2 node where r: "report_deleted valueTypeSet (ART_Get A t (K v)) (ART_Get A t (K v) \<noteq> None) ?le pos st1 = (Inr (), st2)"
      "store_inv st2" "store_ext valueTypeSet st1 st2" "chan_upd valueTypeSet (old_node A t (K v) @ [node]) st1 st2"
      "\<And>t n. capacity st1 t n \<Longrightarrow> capacity st2 t n"
      using report_rel [OF w(2) rel1] w(4) by metis
    have ch: "chan_upd valueTypeSet (old_node A t (K v) @ [node]) st st2" using chan_upd_trans [OF ext(2) r(4)] by simp
    note e2 = store_ext_trans [OF ext(1) r(3)]
    have sp: "spends valueTypeSet 1 2 st st2"
      by (rule spends_le [OF spends_write [OF e2 ch]]) (use ext(3) r(5) len in auto)
    note ch
    moreover have "length (old_node A t (K v) @ [node]) + r \<le> 2 + r" using len by simp
    ultimately have "chan_room st2 valueTypeSet r" using chan_upd_room chan_room_le [OF room] by blast
    moreover have "sremInternal M A key v h t st = (Inr (), h', t', st2)"
      using h' del Some w(1) r(1) by (simp add: sremInternal_def)
    moreover have "index_rel A st2 valueTypeSet t' (m(K v := None))"
      unfolding t'_def by (rule index_rel_ext [OF del_rel [OF rel1] r(3)])
    ultimately show ?thesis using h'(2) r(2,5) w(3) e2 sp by auto
  qed
qed

lemma srem_all_rel:
  assumes "store_inv st" "index_rel A st valueTypeSet t m" "set_rep K m S" "inj_on K (S \<union> set vs)" "written h = []"
    "capacity st valueTypeSet (length vs)" "chan_room st valueTypeSet (2 * length vs)" "rems_ok K key vs"
  shows "\<exists>h' t' st' m'. srem_all M A key vs h t st = (Inr (), h', t', st') \<and> written h' = [] \<and> store_inv st' \<and>
    store_ext valueTypeSet st st' \<and> index_rel A st' valueTypeSet t' m' \<and> set_rep K m' (S - set vs) \<and>
    spends valueTypeSet (length vs) (2 * length vs) st st'"
  using assms
proof (induction vs arbitrary: S m h t st)
  case (Cons v vs)
  have inj: "inj_on K (insert v S)" "inj_on K (S - {v} \<union> set vs)"
    by (rule inj_on_subset [OF Cons.prems(4)], force)+
  obtain h1 t1 st1 where d: "sremInternal M A key v h t st = (Inr (), h1, t1, st1)" "written h1 = []" "store_inv st1"
    "store_ext valueTypeSet st st1" "capacity st1 valueTypeSet (length vs)" "chan_room st1 valueTypeSet (2 * length vs)"
    "index_rel A st1 valueTypeSet t1 (m(K v := None))" "spends valueTypeSet 1 2 st st1"
    using srem_rel [OF Cons.prems(1,2,3) inj(1) Cons.prems(5), of "length vs" "2 * length vs" key] Cons.prems(6-8)
    by (auto simp: rems_ok_def)
  obtain h' t' st' m' where l: "srem_all M A key vs h1 t1 st1 = (Inr (), h', t', st')" "written h' = []" "store_inv st'"
    "store_ext valueTypeSet st1 st'" "index_rel A st' valueTypeSet t' m'" "set_rep K m' (S - {v} - set vs)"
    "spends valueTypeSet (length vs) (2 * length vs) st1 st'"
    using Cons.IH [OF d(3,7) set_rep_delete [OF Cons.prems(3) inj(1)] inj(2) d(2,5,6)] Cons.prems(8)
    by (auto simp: rems_ok_def)
  moreover have "S - {v} - set vs = S - set (v # vs)" by auto
  moreover have "spends valueTypeSet (length (v # vs)) (2 * length (v # vs)) st st'" using spends_trans [OF d(8) l(7)] by simp
  ultimately show ?case using d(1) store_ext_trans [OF d(4) l(4)] by simp blast
qed auto

end

interpretation sample_sets: set_index rbt_art buf_mur buf_sum id
  by (intro set_index.intro value_index.intro art_engine_rbt mur_engine_buf)

text \<open>A database with a set of one member.\<close>

lemma roomy_set: "15 \<le> length key \<Longrightarrow> length key < 2 ^ 32 \<Longrightarrow> length v < 2 ^ 32 \<Longrightarrow> roomy (mk_entry key (Some v))"
  by (rule roomy_mk) (auto simp: bs_def)

lemma roomy_srem:
  assumes "15 \<le> length key" "length key < 2 ^ 32"
  shows "roomy (srem_entry key (sum_key f v))"
proof -
  let ?le = "srem_entry key (sum_key f v)"
  have "encodable ?le"
    using assms length_sum_key(1) [of f v] by (intro encodable_plain) (auto simp: srem_entry_def bs_def)
  then show ?thesis
    using assms header_size_ge [of ?le] by (simp add: roomy_def entry_size_def MaxHeaderSize_def srem_entry_def)
qed

lemma sample_set:
  "\<exists>h db. SAdd buf_mur rbt_art (replicate 20 1) [[2]] [] sample_db = (Inr (), h, db) \<and> h = [] \<and>
     db_rel rbt_art db (set_upd empty_adb (replicate 20 1) [sum_key buf_sum [2] \<mapsto> ([2], 0)]) \<and>
     capacity (store db) valueTypeSet 9 \<and> chan_room (store db) valueTypeSet 9"
proof -
  have r: "ready (store sample_db) valueTypeSet 10" by (rule sample_ready) simp
  obtain t st where p: "sadd_put rbt_art (mk_entry (replicate 20 1) (Some [2])) (sum_key buf_sum [2]) [2] (NewART rbt_art) (store sample_db) = (Inr (), t, st)"
    "store_inv st" "store_ext valueTypeSet (store sample_db) st" "capacity st valueTypeSet 9"
    "index_rel rbt_art st valueTypeSet t [sum_key buf_sum [2] \<mapsto> ([2], 0)]" "chan_upd valueTypeSet [] (store sample_db) st"
    using rbt_values.sadd_put_rel [OF db_relD(1) [OF sample_db_rel] rbt_values.new_rel, where n = 9 and le = "mk_entry (replicate 20 1) (Some [2])" and mem = "[2]" and k = "sum_key buf_sum [2]"]
      r roomy_set [of "replicate 20 1" "[2]"] by (auto simp: ready_def SDelete_def bs_def)
  have "chan_room st valueTypeSet 9" using chan_upd_room [OF p(6)] r chan_room_le [of _ _ 10 9] by (simp add: ready_def)
  moreover have "setIndex sample_db (replicate 20 1) = None" by (simp add: sample_db_def new_db_def)
  moreover obtain h where "member_key buf_mur [] [2] = (Inr (sum_key buf_sum [2]), h)" "h = []"
    using buf_engine.member_key_ok [of "[]" "[2]"] by auto
  ultimately show ?thesis
    using p rbt_values.db_rel_set [OF sample_db_rel p(2,3,5), of "replicate 20 1"] by (simp add: SAdd_def set_tree_def)
qed

lemma sample_set_rep: "set_rep K (set_of (set_upd a key [K [2] \<mapsto> ([2], 0)]) key) {[2]}"
  by (simp add: set_rep_def)

subsection \<open>Properties\<close>

context set_index
begin

lemma SAdd_rel:
  assumes rel: "db_rel A db a" and S: "set_rep (sum_key sum128) (set_of a key) S"
    and cap: "capacity (store db) valueTypeSet (length vs)" and ok: "adds_ok key vs"
    and inj: "inj_on sum128 (S \<union> set vs)" and h: "written h = []"
  shows "\<exists>h' db' m'. SAdd M A key vs h db = (Inr (), h', db') \<and> written h' = [] \<and> db_rel A db' (set_upd a key m') \<and>
    set_rep (sum_key sum128) m' (S \<union> (set vs - {[]})) \<and> spends valueTypeSet (length vs) 0 (store db) (store db')"
proof -
  obtain h' t' st' m' where "SAdd_loop M A key vs h (set_tree A key db) (store db) = (Inr (), h', t', st')" "written h' = []"
    "store_inv st'" "store_ext valueTypeSet (store db) st'" "index_rel A st' valueTypeSet t' m'"
    "set_rep (sum_key sum128) m' (S \<union> (set vs - {[]}))" "spends valueTypeSet (length vs) 0 (store db) st'"
    using SAdd_loop_rel [OF db_relD(1) [OF rel] set_tree_rel [OF rel] S cap ok sum_key_inj [OF inj] h]
    by blast
  then show ?thesis using db_rel_set [OF rel] by (fastforce simp: SAdd_def)
qed

lemma SMembers_rel:
  assumes rel: "db_rel A db a" and S: "set_rep (sum_key sum128) (set_of a key) S"
    and inj: "inj_on sum128 (insert v S)" and h: "written h = []"
  shows "fst (SIsMember M A key v h db) = (v \<in> S) \<and>
    (\<exists>vs. SMembers A now key db = Inr (map Some vs) \<and> distinct vs \<and> set vs = S)"
proof (cases "setIndex db key")
  case None
  then have "set_of a key = Map.empty"
    using set_None [OF rel] by (simp add: set_of_def)
  then have "S = {}" using S by (simp add: set_rep_def)
  then show ?thesis using None by (simp add: SIsMember_def SMembers_def sMembers_def)
next
  case (Some t)
  have t: "index_rel A (store db) valueTypeSet t (set_of a key)" using set_Some [OF rel Some] .
  have K: "inj_on (sum_key sum128) (insert v S)" using sum_key_inj [OF inj] .
  obtain vs where vs: "map fst (ART_Iterator A t) = map (sum_key sum128) vs" "distinct vs" "set vs = S"
    using set_list [OF t S inj_on_subset [OF K]] by blast
  have "read_nodes A now (map (sum_key sum128) vs) t (store db) = Inr (map Some vs)"
    using set_get_rel [OF db_relD(1) [OF rel] t S] vs(3) by simp
  moreover obtain h' where "member_key M h v = (Inr (sum_key sum128 v), h')"
    using member_key_ok [OF h] by blast
  moreover have "ART_Get A t (sum_key sum128 v) \<noteq> None \<longleftrightarrow> v \<in> S"
    using set_rep_mem [OF S K] index_rel_get [OF t] by simp
  ultimately show ?thesis
    using Some vs by (auto simp: SIsMember_def SMembers_def sMembers_def)
qed

lemma SRem_rel:
  assumes rel: "db_rel A db a" and S: "set_rep (sum_key sum128) (set_of a key) S"
    and cap: "capacity (store db) valueTypeSet (length vs)" and room: "chan_room (store db) valueTypeSet (2 * length vs)"
    and ok: "rems_ok (sum_key sum128) key vs" and inj: "inj_on sum128 (S \<union> set vs)" and h: "written h = []"
  shows "\<exists>h' db'. SRem M A key vs h db = (Inr (), h', db') \<and> written h' = [] \<and>
    (if a_set a key = None then db' = db
     else \<exists>m'. db_rel A db' (set_upd a key m') \<and> set_rep (sum_key sum128) m' (S - set vs)) \<and>
    spends valueTypeSet (length vs) (2 * length vs) (store db) (store db')"
proof -
  show ?thesis
  proof (cases "setIndex db key")
    case None
    then have "a_set a key = None" using set_None [OF rel] by simp
    then show ?thesis using None h by (simp add: SRem_def)
  next
    case (Some t)
    obtain h' t' st' m' where "srem_all M A key vs h t (store db) = (Inr (), h', t', st')" "written h' = []"
      "store_inv st'" "store_ext valueTypeSet (store db) st'" "index_rel A st' valueTypeSet t' m'"
      "set_rep (sum_key sum128) m' (S - set vs)" "spends valueTypeSet (length vs) (2 * length vs) (store db) st'"
      using srem_all_rel [OF db_relD(1) [OF rel] set_Some [OF rel Some] S sum_key_inj [OF inj] h cap room ok]
      by blast
    then show ?thesis
      using db_rel_set [OF rel] set_None [OF rel, of key] Some by (fastforce simp: SRem_def)
  qed
qed

lemma SPop_rel:
  assumes rel: "db_rel A db a" and S: "set_rep (sum_key sum128) (set_of a key) S"
    and cap: "capacity (store db) valueTypeSet num" and room: "chan_room (store db) valueTypeSet (2 * num)"
    and ok: "\<forall>v \<in> S. roomy (srem_entry key (sum_key sum128 v))" and inj: "inj_on sum128 S" and h: "written h = []"
  shows "\<exists>vs h' db'. SPop M A now key num h db = (Inr (map Some vs), h', db') \<and> written h' = [] \<and>
    distinct vs \<and> set vs \<subseteq> S \<and> length vs = min num (card S) \<and>
    (if a_set a key = None then db' = db
     else \<exists>m'. db_rel A db' (set_upd a key m') \<and> set_rep (sum_key sum128) m' (S - set vs)) \<and>
    spends valueTypeSet num (2 * num) (store db) (store db')"
proof (cases "setIndex db key")
  case None
  then have e: "a_set a key = None" "set_of a key = Map.empty"
    using set_None [OF rel] by (simp_all add: set_of_def)
  then have "S = {}" using S by (simp add: set_rep_def)
  then show ?thesis using None e h by (simp add: SPop_def)
next
  case (Some t)
  have t: "index_rel A (store db) valueTypeSet t (set_of a key)" using set_Some [OF rel Some] .
  obtain ws where ws: "map fst (ART_Iterator A t) = map (sum_key sum128) ws" "distinct ws" "set ws = S"
    using set_list [OF t S sum_key_inj [OF inj]] by blast
  let ?vs = "take num ws"
  have sub: "set ?vs \<subseteq> S" using ws(3) by (metis set_take_subset)
  have rd: "read_nodes A now (map (sum_key sum128) ?vs) t (store db) = Inr (map Some ?vs)"
    using set_get_rel [OF db_relD(1) [OF rel] t S sub] .
  have "length ?vs \<le> num" by simp
  then have c: "capacity (store db) valueTypeSet (length ?vs)" "chan_room (store db) valueTypeSet (2 * length ?vs)"
    using capacity_le [OF cap] chan_room_le [OF room] by simp_all
  have "S \<union> set ?vs = S" using sub by auto
  then have "inj_on (sum_key sum128) (S \<union> set ?vs)" "rems_ok (sum_key sum128) key ?vs"
    using sum_key_inj [OF inj] ok sub by (auto simp: rems_ok_def)
  then obtain h' t' st' m' where r: "srem_all M A key ?vs h t (store db) = (Inr (), h', t', st')" "written h' = []"
    "store_inv st'" "store_ext valueTypeSet (store db) st'" "index_rel A st' valueTypeSet t' m'"
    "set_rep (sum_key sum128) m' (S - set ?vs)" "spends valueTypeSet (length ?vs) (2 * length ?vs) (store db) st'"
    using srem_all_rel [OF db_relD(1) [OF rel] t S _ h c] by blast
  have "spends valueTypeSet num (2 * num) (store db) st'" by (rule spends_le [OF r(7)]) simp_all
  moreover have "SPop M A now key num h db = (Inr (map Some ?vs), h', db\<lparr>store := st', setIndex := (setIndex db)(key \<mapsto> t')\<rparr>)"
    using Some rd r(1) by (simp add: SPop_def ws(1) take_map o_def bs_def)
  moreover have "length ?vs = min num (card S)" using distinct_card [OF ws(2)] ws(3) by (simp add: min.commute)
  ultimately show ?thesis
    using r(2,6) sub ws(2) db_rel_set [OF rel r(3-5)] set_None [OF rel, of key] Some
    by (auto intro!: exI [of _ ?vs])
qed

end

text \<open>
  C16. SAdd adds every non-empty member to the set of the key, creating the set when needed, and
  changes nothing else; the shared hash state is reset when it returns. SIsMember then answers, for every
  value, whether it is one of the old or the new members, and SMembers lists exactly those, each once. The
  members are assumed to have different 128-bit hashes, also the value that SIsMember is asked for.
\<close>

theorem SAdd_refines:
  assumes "art_engine A" "mur_engine M sum128 written" and "db_rel A db a" and "set_rep (sum_key sum128) (set_of a key) S"
    and "capacity (store db) valueTypeSet (length vs)" and "adds_ok key vs"
    and "inj_on sum128 (S \<union> set vs)" and "written h = []"
  shows "\<exists>h' db' m'. SAdd M A key vs h db = (Inr (), h', db') \<and> written h' = [] \<and> db_rel A db' (set_upd a key m') \<and>
    set_rep (sum_key sum128) m' (S \<union> (set vs - {[]})) \<and>
    (\<forall>m. inj_on sum128 (insert m (S \<union> set vs)) \<longrightarrow> fst (SIsMember M A key m h' db') = (m \<in> S \<union> (set vs - {[]}))) \<and>
    (\<forall>now. \<exists>ms. SMembers A now key db' = Inr (map Some ms) \<and> distinct ms \<and> set ms = S \<union> (set vs - {[]}))"
proof -
  note si = set_index.intro [OF value_index.intro [OF assms(1)] assms(2)]
  let ?S = "S \<union> (set vs - {[]})"
  obtain h' db' m' where d: "SAdd M A key vs h db = (Inr (), h', db')" "written h' = []" "db_rel A db' (set_upd a key m')"
    "set_rep (sum_key sum128) m' ?S"
    using set_index.SAdd_rel [OF si assms(3-)] by blast
  have r: "set_rep (sum_key sum128) (set_of (set_upd a key m') key) ?S" using d(4) by simp
  have "fst (SIsMember M A key m h' db') = (m \<in> ?S)" if "inj_on sum128 (insert m (S \<union> set vs))" for m
  proof -
    have "inj_on sum128 (insert m ?S)" by (rule inj_on_subset [OF that]) auto
    from set_index.SMembers_rel [OF si d(3) r this d(2)] show ?thesis by blast
  qed
  moreover have "\<exists>ms. SMembers A now key db' = Inr (map Some ms) \<and> distinct ms \<and> set ms = ?S" for now
  proof (cases "?S = {}")
    case True
    then have "inj_on sum128 (insert [] ?S)" by (simp only: inj_on_def) simp
    from set_index.SMembers_rel [OF si d(3) r this d(2)] show ?thesis by blast
  next
    case False
    then obtain m where m: "insert m ?S = ?S" by blast
    have "inj_on sum128 (insert m ?S)" unfolding m by (rule inj_on_subset [OF assms(7)]) auto
    from set_index.SMembers_rel [OF si d(3) r this d(2)] show ?thesis by blast
  qed
  ultimately show ?thesis using d by blast
qed

theorem SAdd_refines_witness:
  "\<exists>h db m. SAdd buf_mur rbt_art (replicate 20 1) [[2], [], [3]] [] sample_db = (Inr (), h, db) \<and>
     db_rel rbt_art db (set_upd empty_adb (replicate 20 1) m) \<and> set_rep (sum_key buf_sum) m {[2], [3]} \<and>
     fst (SIsMember buf_mur rbt_art (replicate 20 1) [3] h db) \<and> \<not> fst (SIsMember buf_mur rbt_art (replicate 20 1) [4] h db)"
proof -
  let ?k = "replicate 20 1 :: bytes" and ?vs = "[[2], [], [3]] :: bytes list"
  have "adds_ok ?k ?vs" using roomy_set by (simp add: adds_ok_def)
  moreover have "inj_on buf_sum ({} \<union> set ?vs)" by (simp add: buf_sum_def)
  moreover have "set_rep (sum_key buf_sum) (set_of empty_adb ?k) {}" by (simp add: set_of_def empty_adb_def)
  moreover have "capacity (store sample_db) valueTypeSet (length ?vs)"
    using sample_ready [of "length ?vs"] by (simp add: ready_def)
  ultimately obtain h db m where d: "SAdd buf_mur rbt_art ?k ?vs [] sample_db = (Inr (), h, db)"
    "db_rel rbt_art db (set_upd empty_adb ?k m)" "set_rep (sum_key buf_sum) m ({} \<union> (set ?vs - {[]}))"
    "\<forall>x. inj_on buf_sum (insert x ({} \<union> set ?vs)) \<longrightarrow> fst (SIsMember buf_mur rbt_art ?k x h db) = (x \<in> {} \<union> (set ?vs - {[]}))"
    using SAdd_refines [OF art_engine_rbt mur_engine_buf sample_db_rel, of ?k "{}" ?vs "[]"] by auto
  have "inj_on buf_sum (insert [3] ({} \<union> set ?vs))" "inj_on buf_sum (insert [4] ({} \<union> set ?vs))" by (auto simp: buf_sum_def)
  then have "fst (SIsMember buf_mur rbt_art ?k [3] h db)" "\<not> fst (SIsMember buf_mur rbt_art ?k [4] h db)" using d(4) by auto
  moreover have "{} \<union> (set ?vs - {[]}) = {[2], [3]}" by auto
  ultimately show ?thesis using d(1-3) by metis
qed

text \<open>
  SIsMember and SMembers answer for the abstract set: SIsMember tells membership, SMembers
  lists every member exactly once; a missing set is empty.
\<close>

theorem SMembers_refines:
  assumes "art_engine A" "mur_engine M sum128 written" and "db_rel A db a" and "set_rep (sum_key sum128) (set_of a key) S"
    and "inj_on sum128 (insert v S)" and "written h = []"
  shows "fst (SIsMember M A key v h db) = (v \<in> S) \<and>
    (\<exists>vs. SMembers A now key db = Inr (map Some vs) \<and> distinct vs \<and> set vs = S)"
  using set_index.SMembers_rel [OF set_index.intro [OF value_index.intro [OF assms(1)] assms(2)] assms(3-)] .

theorem SMembers_refines_witness:
  "\<exists>h db. SAdd buf_mur rbt_art (replicate 20 1) [[2]] [] sample_db = (Inr (), h, db) \<and>
     fst (SIsMember buf_mur rbt_art (replicate 20 1) [2] h db) \<and> \<not> fst (SIsMember buf_mur rbt_art (replicate 20 1) [3] h db) \<and>
     SMembers rbt_art 0 (replicate 20 1) db = Inr [Some [2]]"
proof -
  obtain h db where db: "SAdd buf_mur rbt_art (replicate 20 1) [[2]] [] sample_db = (Inr (), h, db)" "h = []"
    "db_rel rbt_art db (set_upd empty_adb (replicate 20 1) [sum_key buf_sum [2] \<mapsto> ([2], 0)])"
    using sample_set by blast
  have i: "inj_on buf_sum (insert [2] {[2]})" "inj_on buf_sum (insert [3] {[2]})" by (simp_all add: buf_sum_def)
  note m = SMembers_refines [OF art_engine_rbt mur_engine_buf db(3) sample_set_rep, of _ h 0]
  obtain vs where "SMembers rbt_art 0 (replicate 20 1) db = Inr (map Some vs)" "distinct vs" "set vs = {[2]}"
    using m [OF i(1)] db(2) by auto
  moreover from this have "vs = [[2]]" by (cases vs; cases "tl vs") auto
  ultimately show ?thesis using m [OF i(1)] m [OF i(2)] db by auto
qed

text \<open>
  C28. SRem removes the given members, whether or not they are in the set, and keeps the others;
  on a missing set it does nothing.
\<close>

theorem SRem_refines:
  assumes "art_engine A" "mur_engine M sum128 written" and "db_rel A db a" and "set_rep (sum_key sum128) (set_of a key) S"
    and "capacity (store db) valueTypeSet (length vs)" and "chan_room (store db) valueTypeSet (2 * length vs)"
    and "rems_ok (sum_key sum128) key vs" and "inj_on sum128 (S \<union> set vs)" and "written h = []"
  shows "\<exists>h' db'. SRem M A key vs h db = (Inr (), h', db') \<and> written h' = [] \<and>
    (if a_set a key = None then db' = db
     else \<exists>m'. db_rel A db' (set_upd a key m') \<and> set_rep (sum_key sum128) m' (S - set vs))"
  using set_index.SRem_rel [OF set_index.intro [OF value_index.intro [OF assms(1)] assms(2)] assms(3-)] by blast

theorem SRem_refines_witness:
  "\<exists>h db h' db' m'. SAdd buf_mur rbt_art (replicate 20 1) [[2]] [] sample_db = (Inr (), h, db) \<and>
     SRem buf_mur rbt_art (replicate 20 1) [[2]] h db = (Inr (), h', db') \<and>
     db_rel rbt_art db' (set_upd (set_upd empty_adb (replicate 20 1) [sum_key buf_sum [2] \<mapsto> ([2], 0)]) (replicate 20 1) m') \<and>
     set_rep (sum_key buf_sum) m' {}"
proof -
  obtain h db where db: "SAdd buf_mur rbt_art (replicate 20 1) [[2]] [] sample_db = (Inr (), h, db)" "h = []"
    "db_rel rbt_art db (set_upd empty_adb (replicate 20 1) [sum_key buf_sum [2] \<mapsto> ([2], 0)])"
    "capacity (store db) valueTypeSet 9" "chan_room (store db) valueTypeSet 9"
    using sample_set by blast
  have "rems_ok (sum_key buf_sum) (replicate 20 1) [[2]]" using roomy_srem by (simp add: rems_ok_def)
  then show ?thesis
    using SRem_refines [OF art_engine_rbt mur_engine_buf db(3) sample_set_rep, of "[[2]]" h] db
      capacity_le [OF db(4), of 1] chan_room_le [OF db(5), of 2] by (auto simp: set_upd_def buf_sum_def)
qed

text \<open>
  C29. SPop returns as many different members as asked for, or all of them, and removes exactly
  those.
\<close>

theorem SPop_refines:
  assumes "art_engine A" "mur_engine M sum128 written" and "db_rel A db a" and "set_rep (sum_key sum128) (set_of a key) S"
    and "capacity (store db) valueTypeSet num" and "chan_room (store db) valueTypeSet (2 * num)"
    and "\<forall>v \<in> S. roomy (srem_entry key (sum_key sum128 v))" and "inj_on sum128 S" and "written h = []"
  shows "\<exists>vs h' db'. SPop M A now key num h db = (Inr (map Some vs), h', db') \<and> written h' = [] \<and>
    distinct vs \<and> set vs \<subseteq> S \<and> length vs = min num (card S) \<and>
    (if a_set a key = None then db' = db
     else \<exists>m'. db_rel A db' (set_upd a key m') \<and> set_rep (sum_key sum128) m' (S - set vs))"
  using set_index.SPop_rel [OF set_index.intro [OF value_index.intro [OF assms(1)] assms(2)] assms(3-)] by blast

theorem SPop_refines_witness:
  "\<exists>h db h' db'. SAdd buf_mur rbt_art (replicate 20 1) [[2]] [] sample_db = (Inr (), h, db) \<and>
     SPop buf_mur rbt_art 0 (replicate 20 1) 3 h db = (Inr [Some [2]], h', db')"
proof -
  obtain h db where db: "SAdd buf_mur rbt_art (replicate 20 1) [[2]] [] sample_db = (Inr (), h, db)" "h = []"
    "db_rel rbt_art db (set_upd empty_adb (replicate 20 1) [sum_key buf_sum [2] \<mapsto> ([2], 0)])"
    "capacity (store db) valueTypeSet 9" "chan_room (store db) valueTypeSet 9"
    using sample_set by blast
  obtain vs h' db' where "SPop buf_mur rbt_art 0 (replicate 20 1) 3 h db = (Inr (map Some vs), h', db')" "distinct vs" "set vs \<subseteq> {[2]}"
    "length vs = 1"
    using SPop_refines [OF art_engine_rbt mur_engine_buf db(3) sample_set_rep, of 3 h 0] db(2) roomy_srem
      capacity_le [OF db(4), of 3] chan_room_le [OF db(5), of 6] by auto
  moreover from this have "vs = [[2]]" by (cases vs) auto
  ultimately show ?thesis using db(1) by auto
qed

end
