(* ===== verification/Float64.thy ===== *)
theory Float64
  imports Lazy_Prelude
begin

text \<open>
  \<open>float64\<close> of Go as its 64 bits (IEEE 754 binary64), with the operations the sorted sets use:
  comparison and addition, and \<open>ByteToFloat64\<close>, \<open>Float64ToByte\<close>, \<open>Min\<close> and \<open>Max\<close> of \<open>util\<close>.

  A finite number is an integer multiple of the smallest positive one, so a sum is computed
  exactly over these units and rounded once, to the nearest number and on a tie to the even
  one. The payload of a NaN result is the one that amd64 gives.

  \<open>f64_add_exact\<close> says that a sum that is a number is the result; the order of the numbers
  that are not NaN is the order of the integers \<open>f64_key\<close>.
\<close>

type_synonym f64 = u64

subsection \<open>Numbers and their order\<close>

definition f64_neg :: "f64 \<Rightarrow> bool" where
  "f64_neg x \<longleftrightarrow> 2 ^ 63 \<le> unat x"

definition f64_mag :: "f64 \<Rightarrow> nat" where
  "f64_mag x = unat x mod 2 ^ 63"

definition inf_mag :: nat where
  "inf_mag = 2047 * 2 ^ 52"

definition f64_nan :: "f64 \<Rightarrow> bool" where
  "f64_nan x \<longleftrightarrow> inf_mag < f64_mag x"

definition f64_key :: "f64 \<Rightarrow> int" where
  "f64_key x = (if f64_neg x then - int (f64_mag x) else int (f64_mag x))"

definition f64_less :: "f64 \<Rightarrow> f64 \<Rightarrow> bool" where
  "f64_less x y \<longleftrightarrow> \<not> f64_nan x \<and> \<not> f64_nan y \<and> f64_key x < f64_key y"

definition f64_eq :: "f64 \<Rightarrow> f64 \<Rightarrow> bool" where
  "f64_eq x y \<longleftrightarrow> \<not> f64_nan x \<and> \<not> f64_nan y \<and> f64_key x = f64_key y"

lemma f64_order:
  "\<not> f64_less x x" "f64_less x y \<Longrightarrow> f64_less y z \<Longrightarrow> f64_less x z" "f64_less x y \<Longrightarrow> \<not> f64_eq x y"
  "f64_eq x y \<Longrightarrow> f64_eq y x" "f64_eq x y \<Longrightarrow> f64_less y z \<Longrightarrow> f64_less x z" "f64_less x y \<Longrightarrow> f64_eq y z \<Longrightarrow> f64_less x z"
  by (auto simp: f64_less_def f64_eq_def)

lemma f64_total: "\<not> f64_nan x \<Longrightarrow> \<not> f64_nan y \<Longrightarrow> f64_less x y \<or> f64_eq x y \<or> f64_less y x"
  by (auto simp: f64_less_def f64_eq_def)

subsection \<open>Addition\<close>

text \<open>The value of a finite magnitude in units of \<open>2 ^ -1074\<close>.\<close>

definition f64_units :: "nat \<Rightarrow> nat" where
  "f64_units m = (if m < 2 ^ 52 then m else (2 ^ 52 + m mod 2 ^ 52) * 2 ^ (m div 2 ^ 52 - 1))"

fun bit_len :: "nat \<Rightarrow> nat" where
  "bit_len n = (if n = 0 then 0 else Suc (bit_len (n div 2)))"

declare bit_len.simps [simp del]

text \<open>The magnitude nearest to a number of units: 53 significant bits, ties to even.\<close>

definition f64_round :: "nat \<Rightarrow> nat" where
  "f64_round n =
     (if n < 2 ^ 53 then n
      else let s = bit_len n - 53; q = n div 2 ^ s; r = n mod 2 ^ s;
               q' = (if 2 ^ (s - 1) < r \<or> (r = 2 ^ (s - 1) \<and> odd q) then q + 1 else q)
           in min (q' + s * 2 ^ 52) inf_mag)"

definition f64_of :: "bool \<Rightarrow> nat \<Rightarrow> f64" where
  "f64_of neg m = word_of_nat (if neg then m + 2 ^ 63 else m)"

definition f64_signed :: "f64 \<Rightarrow> int" where
  "f64_signed x = (if f64_neg x then - int (f64_units (f64_mag x)) else int (f64_units (f64_mag x)))"

definition f64_add :: "f64 \<Rightarrow> f64 \<Rightarrow> f64" where
  "f64_add x y =
     (if f64_nan x then x OR 2 ^ 51
      else if f64_nan y then y OR 2 ^ 51
      else if f64_mag x = inf_mag then (if f64_mag y = inf_mag \<and> f64_neg x \<noteq> f64_neg y then 0xFFF8000000000000 else x)
      else if f64_mag y = inf_mag then y
      else let s = f64_signed x + f64_signed y
           in if s = 0 then f64_of (f64_neg x \<and> f64_neg y) 0 else f64_of (s < 0) (f64_round (nat \<bar>s\<bar>)))"

lemma bit_len_eq: "2 ^ k \<le> n \<Longrightarrow> n < 2 ^ Suc k \<Longrightarrow> bit_len n = Suc k"
proof (induction k arbitrary: n)
  case 0
  then have "n = 1" by simp
  then show ?case by (simp add: bit_len.simps)
next
  case (Suc k)
  then have "bit_len (n div 2) = Suc k" by (intro Suc.IH) auto
  moreover have "0 < (2 :: nat) ^ Suc k" by simp
  then have "n \<noteq> 0" using Suc.prems(1) by linarith
  ultimately show ?case by (simp add: bit_len.simps [of n])
qed

text \<open>Rounding keeps what needs no rounding.\<close>

lemma f64_round_units:
  assumes "m < inf_mag"
  shows "f64_round (f64_units m) = m"
proof (cases "m < 2 ^ 53")
  case True
  have "f64_units m = m"
  proof (cases "m < 2 ^ 52")
    case False
    then have "m div 2 ^ 52 = 1" "m mod 2 ^ 52 = m - 2 ^ 52" using True by (auto simp: div_nat_eqI mod_if le_mod_geq)
    then show ?thesis using False by (simp add: f64_units_def)
  qed (simp add: f64_units_def)
  then show ?thesis using True by (simp add: f64_round_def)
next
  case False
  define e where "e = m div 2 ^ 52 - 1"
  define q where "q = 2 ^ 52 + m mod 2 ^ 52"
  have "2 \<le> m div 2 ^ 52" using False by (simp add: less_eq_div_iff_mult_less_eq)
  then have e: "m div 2 ^ 52 = Suc e" "0 < e" by (simp_all add: e_def)
  have u: "f64_units m = q * 2 ^ e" using False by (simp add: f64_units_def q_def e_def)
  have q: "2 ^ 52 \<le> q" "q < 2 ^ 53" by (simp_all add: q_def)
  have le: "2 ^ (52 + e) \<le> q * 2 ^ e" using q(1) by (simp add: power_add)
  have lt: "q * 2 ^ e < 2 ^ Suc (52 + e)" using q(2) by (simp add: power_add)
  have bl: "bit_len (q * 2 ^ e) - 53 = e" using bit_len_eq [OF le lt] by simp
  have "(2 :: nat) ^ 53 \<le> 2 ^ (52 + e)" using e(2) by (intro power_increasing) auto
  then have big: "\<not> q * 2 ^ e < 2 ^ 53" using le by linarith
  have "q + e * 2 ^ 52 = Suc e * 2 ^ 52 + m mod 2 ^ 52" by (simp add: q_def)
  also have "\<dots> = m" unfolding e(1) [symmetric] by simp
  finally have "q + e * 2 ^ 52 = m" .
  moreover have "f64_round (q * 2 ^ e) = min (q + e * 2 ^ 52) inf_mag"
    unfolding f64_round_def if_not_P [OF big] Let_def bl by simp
  ultimately show ?thesis using assms by (simp add: u)
qed

lemma f64_of_parts: "f64_of (f64_neg z) (f64_mag z) = z"
proof -
  have "unat z < 2 ^ 64" using unsigned_less [of z] by simp
  then have "(if f64_neg z then f64_mag z + 2 ^ 63 else f64_mag z) = unat z"
    by (auto simp: f64_neg_def f64_mag_def mod_if le_mod_geq)
  then show ?thesis by (simp add: f64_of_def)
qed

lemma f64_units_zero: "f64_units m = 0 \<longleftrightarrow> m = 0"
  by (simp add: f64_units_def)

text \<open>If the exact sum is a number other than zero, it is the result.\<close>

lemma f64_add_exact:
  assumes "f64_mag x < inf_mag" "f64_mag y < inf_mag" "f64_mag z < inf_mag"
    and s: "f64_signed z = f64_signed x + f64_signed y" "f64_signed z \<noteq> 0"
  shows "f64_add x y = z"
proof -
  have n: "\<not> f64_nan x" "\<not> f64_nan y" "f64_mag x \<noteq> inf_mag" "f64_mag y \<noteq> inf_mag" using assms(1,2) by (simp_all add: f64_nan_def)
  have z: "(f64_signed z < 0) = f64_neg z" "nat \<bar>f64_signed z\<bar> = f64_units (f64_mag z)"
    using s(2) by (auto simp: f64_signed_def)
  have "f64_add x y = f64_of (f64_signed z < 0) (f64_round (nat \<bar>f64_signed z\<bar>))"
    unfolding f64_add_def Let_def s(1) [symmetric] using n s(2) by (simp only: if_False)
  then show ?thesis unfolding z f64_round_units [OF assms(3)] f64_of_parts .
qed

subsection \<open>Conversions and bounds of util\<close>

fun le_nat :: "bytes \<Rightarrow> nat" where
  "le_nat [] = 0"
| "le_nat (b # r) = unat b + 256 * le_nat r"

fun nat_le :: "nat \<Rightarrow> nat \<Rightarrow> bytes" where
  "nat_le 0 n = []"
| "nat_le (Suc k) n = word_of_nat (n mod 256) # nat_le k (n div 256)"

definition ByteToFloat64 :: "bytes \<Rightarrow> f64 result" where
  "ByteToFloat64 b = (if length b < 8 then Inl Panic else Inr (word_of_nat (le_nat (take 8 b))))"

definition Float64ToByte :: "f64 \<Rightarrow> bytes" where
  "Float64ToByte x = nat_le 8 (unat x)"

definition Min_int :: "int \<Rightarrow> int \<Rightarrow> int" where
  "Min_int x y = (if x < y then x else y)"

definition Max_int :: "int \<Rightarrow> int \<Rightarrow> int" where
  "Max_int x y = (if x > y then x else y)"

lemma le_nat_nat_le: "n < 256 ^ k \<Longrightarrow> le_nat (nat_le k n) = n"
proof (induction k arbitrary: n)
  case (Suc k)
  have "n div 256 < 256 ^ k" using Suc.prems by (simp add: less_mult_imp_div_less mult.commute)
  moreover have "unat (word_of_nat (n mod 256) :: byte) = n mod 256" by (simp add: unat_of_nat take_bit_eq_mod)
  ultimately show ?case using Suc.IH by simp
qed simp

lemma length_nat_le [simp]: "length (nat_le k n) = k"
  by (induction k arbitrary: n) simp_all

lemma length_Float64ToByte [simp]: "length (Float64ToByte x) = 8"
  by (simp add: Float64ToByte_def)

lemma ByteToFloat64_roundtrip [simp]: "ByteToFloat64 (Float64ToByte x) = Inr x"
proof -
  have "le_nat (nat_le 8 (unat x)) = unat x" using unsigned_less [of x] by (intro le_nat_nat_le) simp
  then show ?thesis by (simp add: ByteToFloat64_def Float64ToByte_def)
qed

end
