(* ===== verification/Skip_List.thy ===== *)
theory Skip_List
  imports Float64 "HOL-Library.Multiset"
begin

text \<open>
  The order of the members of a sorted set (\<open>Node\<close> and \<open>Less\<close> of \<open>zset.go\<close>) and the skip list
  that keeps them, a third-party package.

  The package is a record of its operations with its documented behaviour as the locale
  \<open>skl_engine\<close>: the elements stay in order, \<open>Delete\<close> removes an element that is neither less
  nor greater than its argument, ranks count from 1, and \<open>Next\<close> and \<open>Prev\<close> go to the
  neighbours. An element is known to the package only through \<open>Less\<close>. A sorted list satisfies
  the laws.
\<close>

subsection \<open>Members and their order\<close>

record Node =
  n_score :: f64
  n_member :: bytes

lemma node_eta [simp]: "\<lparr>n_score = n_score x, n_member = n_member x\<rparr> = x"
  by (rule Node.equality) simp_all

definition Less :: "Node \<Rightarrow> Node \<Rightarrow> bool" where
  "Less n other =
     (if f64_less (n_score n) (n_score other) then True
      else if f64_eq (n_score n) (n_score other) \<and> length (n_member n) < length (n_member other) then True
      else False)"

definition same_rank :: "Node \<Rightarrow> Node \<Rightarrow> bool" where
  "same_rank a b \<longleftrightarrow> \<not> Less a b \<and> \<not> Less b a"

definition numbers :: "Node set \<Rightarrow> bool" where
  "numbers X \<longleftrightarrow> (\<forall>x \<in> X. \<not> f64_nan (n_score x))"

definition ascending :: "Node list \<Rightarrow> bool" where
  "ascending xs \<longleftrightarrow> numbers (set xs) \<and> sorted_wrt (\<lambda>a b. \<not> Less b a) xs"

lemma numbers_simps [simp]:
  "numbers {}" "numbers (insert x X) \<longleftrightarrow> \<not> f64_nan (n_score x) \<and> numbers X" "numbers (X \<union> Y) \<longleftrightarrow> numbers X \<and> numbers Y"
  by (auto simp: numbers_def)

lemma Less_iff:
  "Less a b \<longleftrightarrow> \<not> f64_nan (n_score a) \<and> \<not> f64_nan (n_score b) \<and>
     (f64_key (n_score a) < f64_key (n_score b) \<or>
      f64_key (n_score a) = f64_key (n_score b) \<and> length (n_member a) < length (n_member b))"
  by (auto simp: Less_def f64_less_def f64_eq_def)

lemma Less_irrefl [simp]: "\<not> Less a a"
  by (simp add: Less_iff)

lemma Less_trans: "Less a b \<Longrightarrow> Less b c \<Longrightarrow> Less a c"
  unfolding Less_iff by linarith

lemma Less_asym: "Less a b \<Longrightarrow> \<not> Less b a"
  using Less_trans [of a b a] by auto

lemma same_rank_refl [simp]: "same_rank a a"
  by (simp add: same_rank_def)

lemma same_rank_iff:
  assumes "\<not> f64_nan (n_score a)" "\<not> f64_nan (n_score b)"
  shows "same_rank a b \<longleftrightarrow> f64_key (n_score a) = f64_key (n_score b) \<and> length (n_member a) = length (n_member b)"
  using assms unfolding same_rank_def Less_iff by linarith

lemma same_rank_sym: "same_rank a b \<longleftrightarrow> same_rank b a"
  by (auto simp: same_rank_def)

text \<open>Elements that are pairwise comparable are strictly ascending.\<close>

lemma strictly_ascending:
  assumes "ascending xs" "\<forall>i j. i < j \<longrightarrow> j < length xs \<longrightarrow> \<not> same_rank (xs ! i) (xs ! j)"
  shows "sorted_wrt Less xs"
  using assms by (auto simp: sorted_wrt_iff_nth_less ascending_def same_rank_def)

lemma strict_ascending: "sorted_wrt Less xs \<Longrightarrow> numbers (set xs) \<Longrightarrow> ascending xs"
  using Less_asym by (auto simp: ascending_def intro: sorted_wrt_mono_rel)

lemma strict_rank_unique:
  "sorted_wrt Less xs \<Longrightarrow> i < length xs \<Longrightarrow> j < length xs \<Longrightarrow> same_rank (xs ! i) (xs ! j) \<Longrightarrow> i = j"
  by (cases i j rule: linorder_cases) (auto simp: sorted_wrt_iff_nth_less same_rank_def)

lemma strict_distinct: "sorted_wrt Less xs \<Longrightarrow> distinct xs"
  by (induction xs) auto

lemma strict_same_rank: "sorted_wrt Less xs \<Longrightarrow> x \<in> set xs \<Longrightarrow> y \<in> set xs \<Longrightarrow> same_rank x y \<Longrightarrow> x = y"
  using strict_rank_unique by (metis in_set_conv_nth)

lemma strict_unique: "sorted_wrt Less xs \<Longrightarrow> sorted_wrt Less ys \<Longrightarrow> set xs = set ys \<Longrightarrow> xs = ys"
proof (induction xs arbitrary: ys)
  case (Cons x xs)
  then obtain y zs where ys: "ys = y # zs" by (cases ys) auto
  have "x = y"
  proof (rule ccontr)
    assume "x \<noteq> y"
    moreover have "x \<in> set ys" "y \<in> set (x # xs)" using Cons.prems(3) ys by auto
    ultimately have "Less y x" "Less x y" using Cons.prems(1,2) ys by auto
    then show False using Less_asym by blast
  qed
  moreover have "x \<notin> set xs" "y \<notin> set zs" using strict_distinct [OF Cons.prems(1)] strict_distinct [OF Cons.prems(2)] ys by auto
  ultimately have "set xs = set zs" using Cons.prems(3) ys by auto
  then show ?case using Cons.IH [of zs] Cons.prems(1,2) ys \<open>x = y\<close> by simp
qed simp

subsection \<open>The package\<close>

record ('s, 'e) skl =
  skl_New :: 's
  skl_Insert :: "'s \<Rightarrow> Node \<Rightarrow> 's"
  skl_Delete :: "'s \<Rightarrow> Node \<Rightarrow> 's"
  skl_Len :: "'s \<Rightarrow> nat"
  skl_GetRank :: "'s \<Rightarrow> Node \<Rightarrow> nat"
  skl_GetElementByRank :: "'s \<Rightarrow> int \<Rightarrow> 'e option"
  skl_Value :: "'s \<Rightarrow> 'e \<Rightarrow> Node"
  skl_Next :: "'s \<Rightarrow> 'e \<Rightarrow> 'e option"
  skl_Prev :: "'s \<Rightarrow> 'e \<Rightarrow> 'e option"

text \<open>\<open>elems\<close> are the elements in the order of the list, \<open>pos\<close> is the place of an element, from 0.\<close>

locale skl_engine =
  fixes S :: "('s, 'e) skl" and elems :: "'s \<Rightarrow> Node list" and pos :: "'s \<Rightarrow> 'e \<Rightarrow> nat"
  assumes elems_New: "elems (skl_New S) = []"
    and elems_Insert: "ascending (elems s) \<Longrightarrow> \<not> f64_nan (n_score v) \<Longrightarrow>
      ascending (elems (skl_Insert S s v)) \<and> mset (elems (skl_Insert S s v)) = add_mset v (mset (elems s))"
    and elems_Delete: "ascending (elems s) \<Longrightarrow> \<not> f64_nan (n_score v) \<Longrightarrow> x \<in> set (elems s) \<Longrightarrow> same_rank x v \<Longrightarrow>
      \<exists>xs y ys. elems s = xs @ y # ys \<and> same_rank y v \<and> elems (skl_Delete S s v) = xs @ ys"
    and Delete_by_order: "\<not> f64_nan (n_score v) \<Longrightarrow> \<not> f64_nan (n_score w) \<Longrightarrow> same_rank v w \<Longrightarrow>
      skl_Delete S s v = skl_Delete S s w"
    and Len_elems: "skl_Len S s = length (elems s)"
    and GetRank_elems: "ascending (elems s) \<Longrightarrow> \<not> f64_nan (n_score v) \<Longrightarrow> x \<in> set (elems s) \<Longrightarrow> same_rank x v \<Longrightarrow>
      \<exists>i < length (elems s). same_rank (elems s ! i) v \<and> skl_GetRank S s v = Suc i"
    and GetElementByRank_pos: "1 \<le> r \<Longrightarrow> r \<le> int (length (elems s)) \<Longrightarrow>
      \<exists>e. skl_GetElementByRank S s r = Some e \<and> pos s e = nat r - 1"
    and Value_pos: "pos s e < length (elems s) \<Longrightarrow> skl_Value S s e = elems s ! pos s e"
    and Next_pos: "Suc (pos s e) < length (elems s) \<Longrightarrow> \<exists>e'. skl_Next S s e = Some e' \<and> pos s e' = Suc (pos s e)"
    and Prev_pos: "pos s e < length (elems s) \<Longrightarrow> 0 < pos s e \<Longrightarrow> \<exists>e'. skl_Prev S s e = Some e' \<and> pos s e' = pos s e - 1"
begin

text \<open>With no two elements of the same rank, \<open>Delete\<close> removes the element it is given.\<close>

lemma delete_strict:
  assumes s: "sorted_wrt Less (elems s)" "numbers (set (elems s))" and v: "v \<in> set (elems s)"
  shows "sorted_wrt Less (elems (skl_Delete S s v))" "set (elems (skl_Delete S s v)) = set (elems s) - {v}"
    "length (elems s) = Suc (length (elems (skl_Delete S s v)))"
proof -
  have "\<not> f64_nan (n_score v)" using s(2) v by (auto simp: numbers_def)
  then obtain xs y ys where d: "elems s = xs @ y # ys" "same_rank y v" "elems (skl_Delete S s v) = xs @ ys"
    using elems_Delete [OF strict_ascending [OF s], of v v] v by auto
  obtain i where i: "i < length (elems s)" "elems s ! i = v" using v by (auto simp: in_set_conv_nth)
  have "length xs < length (elems s)" "elems s ! length xs = y" by (simp_all add: d(1))
  then have "y = v" using strict_rank_unique [OF s(1), of "length xs" i] i d(2) by auto
  moreover have "y \<notin> set xs" "y \<notin> set ys" using s(1) by (auto simp: d(1) sorted_wrt_append)
  ultimately show "sorted_wrt Less (elems (skl_Delete S s v))" "set (elems (skl_Delete S s v)) = set (elems s) - {v}"
    "length (elems s) = Suc (length (elems (skl_Delete S s v)))"
    using s(1) by (auto simp: d(1,3) sorted_wrt_append)
qed

lemma insert_strict:
  assumes s: "sorted_wrt Less (elems s)" "numbers (set (elems s))"
    and v: "\<not> f64_nan (n_score v)" "\<forall>x \<in> set (elems s). \<not> same_rank x v"
  shows "sorted_wrt Less (elems (skl_Insert S s v))" "set (elems (skl_Insert S s v)) = insert v (set (elems s))"
proof -
  let ?xs = "elems (skl_Insert S s v)"
  have i: "ascending ?xs" "mset ?xs = mset (v # elems s)"
    using elems_Insert [OF strict_ascending [OF s] v(1)] by simp_all
  show st: "set ?xs = insert v (set (elems s))" using mset_eq_setD [OF i(2)] by simp
  have "distinct (v # elems s)" using strict_distinct [OF s(1)] v(2) by auto
  then have d: "distinct ?xs" using mset_eq_imp_distinct_iff [OF i(2)] by simp
  have "\<not> same_rank x y" if "x \<in> set ?xs" "y \<in> set ?xs" "x \<noteq> y" for x y
    using that strict_same_rank [OF s(1)] v(2) unfolding st by (auto simp: same_rank_sym)
  then show "sorted_wrt Less ?xs"
    using d by (intro strictly_ascending [OF i(1)]) (auto simp: nth_eq_iff_index_eq)
qed

lemma rank_strict:
  assumes s: "sorted_wrt Less (elems s)" "numbers (set (elems s))" and i: "i < length (elems s)"
  shows "skl_GetRank S s (elems s ! i) = Suc i"
proof -
  have "\<not> f64_nan (n_score (elems s ! i))" using s(2) i by (auto simp: numbers_def)
  then obtain j where "j < length (elems s)" "same_rank (elems s ! j) (elems s ! i)" "skl_GetRank S s (elems s ! i) = Suc j"
    using GetRank_elems [OF strict_ascending [OF s], of "elems s ! i" "elems s ! i"] i by auto
  then show ?thesis using strict_rank_unique [OF s(1)] i by auto
qed

end

subsection \<open>A sorted list\<close>

fun ins_node :: "Node \<Rightarrow> Node list \<Rightarrow> Node list" where
  "ins_node v [] = [v]"
| "ins_node v (x # xs) = (if Less x v then x # ins_node v xs else v # x # xs)"

fun del_node :: "Node \<Rightarrow> Node list \<Rightarrow> Node list" where
  "del_node v [] = []"
| "del_node v (x # xs) = (if Less x v then x # del_node v xs else if Less v x then x # xs else xs)"

fun rank_node :: "Node \<Rightarrow> Node list \<Rightarrow> nat" where
  "rank_node v [] = 0"
| "rank_node v (x # xs) =
     (if Less x v then (case rank_node v xs of 0 \<Rightarrow> 0 | Suc i \<Rightarrow> Suc (Suc i)) else if Less v x then 0 else 1)"

definition list_skl :: "(Node list, nat) skl" where
  "list_skl = \<lparr>skl_New = [], skl_Insert = (\<lambda>s v. ins_node v s), skl_Delete = (\<lambda>s v. del_node v s), skl_Len = length,
     skl_GetRank = (\<lambda>s v. rank_node v s),
     skl_GetElementByRank = (\<lambda>s r. if 1 \<le> r \<and> r \<le> int (length s) then Some (nat r - 1) else None),
     skl_Value = (\<lambda>s e. s ! e), skl_Next = (\<lambda>s e. if Suc e < length s then Some (Suc e) else None),
     skl_Prev = (\<lambda>s e. if 0 < e then Some (e - 1) else None)\<rparr>"

lemma mset_ins_node: "mset (ins_node v xs) = add_mset v (mset xs)"
  by (induction xs) auto

lemma set_ins_node [simp]: "set (ins_node v xs) = insert v (set xs)"
  by (induction xs) auto

lemma Less_le_trans:
  assumes "numbers {a, b, c}"
  shows "\<not> Less b a \<Longrightarrow> \<not> Less c b \<Longrightarrow> \<not> Less c a" "\<not> Less b a \<Longrightarrow> Less b c \<Longrightarrow> Less a c"
  using assms unfolding Less_iff numbers_simps by linarith+

lemma ascending_ins_node: "ascending xs \<Longrightarrow> \<not> f64_nan (n_score v) \<Longrightarrow> ascending (ins_node v xs)"
proof (induction xs)
  case (Cons x xs)
  have x: "ascending xs" "\<not> f64_nan (n_score x)" "numbers (set xs)" "\<forall>y \<in> set xs. \<not> Less y x"
    using Cons.prems(1) by (simp_all add: ascending_def)
  show ?case
  proof (cases "Less x v")
    case True
    then show ?thesis using Cons.IH [OF x(1) Cons.prems(2)] x Less_asym [OF True] by (simp add: ascending_def)
  next
    case False
    have "\<not> Less y v" if y: "y \<in> set xs" for y
    proof -
      have "numbers {v, x, y}" using x(2,3) Cons.prems(2) y by (auto simp: numbers_def)
      then show ?thesis using Less_le_trans(1) [of v x y] x(4) y False by blast
    qed
    then show ?thesis using Cons.prems False by (simp add: ascending_def)
  qed
qed (simp add: ascending_def)

text \<open>The elements before the first one that is not less than \<open>v\<close>.\<close>

lemma del_node_split:
  assumes "ascending xs" "\<not> f64_nan (n_score v)" "x \<in> set xs" "same_rank x v"
  shows "\<exists>as y bs. xs = as @ y # bs \<and> same_rank y v \<and> del_node v xs = as @ bs \<and> rank_node v xs = Suc (length as)"
  using assms
proof (induction xs)
  case (Cons a xs)
  have a: "ascending xs" "\<not> f64_nan (n_score a)" "numbers (set xs)" "\<forall>y \<in> set xs. \<not> Less y a"
    using Cons.prems(1) by (simp_all add: ascending_def)
  show ?case
  proof (cases "Less a v")
    case True
    then have "x \<in> set xs" using Cons.prems(3,4) by (auto simp: same_rank_def)
    then obtain as y bs where "xs = as @ y # bs" "same_rank y v" "del_node v xs = as @ bs" "rank_node v xs = Suc (length as)"
      using Cons.IH [OF a(1) Cons.prems(2)] Cons.prems(4) by blast
    then show ?thesis using True by (intro exI [of _ "a # as"] exI [of _ y] exI [of _ bs]) simp
  next
    case False
    have "\<not> Less v a"
    proof
      assume va: "Less v a"
      then have "x \<in> set xs" using Cons.prems(3,4) by (auto simp: same_rank_def)
      then have "\<not> Less x a" "\<not> f64_nan (n_score x)" using a(3,4) by (auto simp: numbers_def)
      then have "Less v x" using va a(2) Cons.prems(2) unfolding Less_iff by linarith
      then show False using Cons.prems(4) by (simp add: same_rank_def)
    qed
    then have "same_rank a v" "del_node v (a # xs) = xs" "rank_node v (a # xs) = 1" using False by (simp_all add: same_rank_def)
    then show ?thesis by (intro exI [of _ "[]"] exI [of _ a] exI [of _ xs]) simp
  qed
qed simp

lemma del_node_by_order:
  assumes "\<not> f64_nan (n_score v)" "\<not> f64_nan (n_score w)" "same_rank v w"
  shows "del_node v xs = del_node w xs"
proof -
  have k: "f64_key (n_score v) = f64_key (n_score w)" "length (n_member v) = length (n_member w)"
    using assms same_rank_iff by blast+
  have "Less x v = Less x w" "Less v x = Less w x" for x using assms(1,2) k by (auto simp: Less_iff)
  then show ?thesis by (induction xs) auto
qed

interpretation node_list: skl_engine list_skl "\<lambda>s. s" "\<lambda>s e. e"
proof (unfold_locales, goal_cases)
  case (3 s v x)
  then show ?case using del_node_split [of s v x] by (auto simp: list_skl_def)
next
  case (6 s v x)
  then obtain as y bs where "s = as @ y # bs" "same_rank y v" "rank_node v s = Suc (length as)"
    using del_node_split by blast
  then show ?case by (auto simp: list_skl_def intro!: exI [of _ "length as"])
qed (auto simp: list_skl_def mset_ins_node ascending_ins_node intro: del_node_by_order)

end
