(* ===== verification/ZSet_Ops.thy ===== *)
theory ZSet_Ops
  imports Str_Ops Skip_List Go_Sync
begin

text \<open>
  \<open>zset.go\<close>: sorted sets. A sorted set is an index tree from encoded members to their scores
  in the log, and a skip list of the members in the order of their scores.

  Commands with a deferred \<open>Unlock\<close> are their critical sections; the ones that pop members
  take and release the mutex of the sorted sets in several places, so they carry its state.
\<close>

subsection \<open>Adding\<close>

definition z_index :: "('s, 'e) skl \<Rightarrow> ('t, Value_t) art \<Rightarrow> bytes \<Rightarrow> ('t, 's) LazyDB \<Rightarrow> ('t, 's) ZSetIndex" where
  "z_index S A key db =
     (case zSetIndex db key of None \<Rightarrow> \<lparr>z_tree = NewART A, z_skl = skl_New S\<rparr> | Some idx \<Rightarrow> idx)"

text \<open>A member that has a score already leaves its place in the skip list.\<close>

definition z_forget ::
    "('s, 'e) skl \<Rightarrow> ('t, Value_t) art \<Rightarrow> int \<Rightarrow> bytes \<Rightarrow> bytes \<Rightarrow> 't \<Rightarrow> 's \<Rightarrow> Store \<Rightarrow> 's result" where
  "z_forget S A now zsetKey member tree skl st =
     (case ART_Get A tree zsetKey of
        None \<Rightarrow> Inr skl
      | Some _ \<Rightarrow>
          (case getValue A now tree zsetKey valueTypeZSet st of
             Inl e \<Rightarrow> Inl e
           | Inr oriScore \<Rightarrow>
               (case ByteToFloat64 (bs oriScore) of
                  Inl e \<Rightarrow> Inl e
                | Inr f \<Rightarrow> Inr (skl_Delete S skl \<lparr>n_score = f, n_member = member\<rparr>))))"

fun ZAdd_loop ::
    "('s, 'e) skl \<Rightarrow> ('t, Value_t) art \<Rightarrow> int \<Rightarrow> bytes \<Rightarrow> bytes list \<Rightarrow> ('t, 's) ZSetIndex \<Rightarrow> Store
       \<Rightarrow> unit result \<times> ('t, 's) ZSetIndex \<times> Store" where
  "ZAdd_loop S A now key (score # member # args) z st =
     (case encodeKey key member of
        Inl e \<Rightarrow> (Inl e, z, st)
      | Inr zsetKey \<Rightarrow>
          (let entry = mk_entry zsetKey (Some score)
           in case writeLogEntry valueTypeZSet entry st of
                (Inl e, st1) \<Rightarrow> (Inl e, z, st1)
              | (Inr valPos, st1) \<Rightarrow>
                  (case z_forget S A now zsetKey member (z_tree z) (z_skl z) st1 of
                     Inl e \<Rightarrow> (Inl e, z, st1)
                   | Inr skl \<Rightarrow>
                       (case updateIndexTree A valueTypeZSet (z_tree z) entry valPos True st1 of
                          (Inl e, t, st2) \<Rightarrow> (Inl e, \<lparr>z_tree = t, z_skl = skl\<rparr>, st2)
                        | (Inr _, t, st2) \<Rightarrow>
                            (case ByteToFloat64 score of
                               Inl e \<Rightarrow> (Inl e, \<lparr>z_tree = t, z_skl = skl\<rparr>, st2)
                             | Inr f \<Rightarrow>
                                 ZAdd_loop S A now key args
                                   \<lparr>z_tree = t, z_skl = skl_Insert S skl \<lparr>n_score = f, n_member = member\<rparr>\<rparr> st2)))))"
| "ZAdd_loop S A now key _ z st = (Inr (), z, st)"

definition ZAdd ::
    "('s, 'e) skl \<Rightarrow> ('t, Value_t) art \<Rightarrow> int \<Rightarrow> bytes \<Rightarrow> bytes list \<Rightarrow> ('t, 's) LazyDB \<Rightarrow> unit result \<times> ('t, 's) LazyDB" where
  "ZAdd S A now key args db =
     (if odd (length args) then (Inl ErrInvalidParam, db)
      else if length args = 0 then (Inr (), db)
      else case ZAdd_loop S A now key args (z_index S A key db) (store db) of
             (r, z, st) \<Rightarrow> (r, db\<lparr>store := st, zSetIndex := (zSetIndex db)(key \<mapsto> z)\<rparr>))"

subsection \<open>Queries\<close>

definition ZScore :: "('t, Value_t) art \<Rightarrow> int \<Rightarrow> bytes \<Rightarrow> bytes \<Rightarrow> ('t, 's) LazyDB \<Rightarrow> f64 result" where
  "ZScore A now key member db =
     (case zSetIndex db key of
        None \<Rightarrow> Inl ErrZSetKeyNotExist
      | Some idx \<Rightarrow>
          (case encodeKey key member of
             Inl e \<Rightarrow> Inl e
           | Inr zsetKey \<Rightarrow>
               (case getValue A now (z_tree idx) zsetKey valueTypeZSet (store db) of
                  Inl e \<Rightarrow> Inl (if crash e then e else ErrZSetMemberNotExist)
                | Inr val \<Rightarrow> ByteToFloat64 (bs val))))"

definition ZCard :: "('t, Value_t) art \<Rightarrow> bytes \<Rightarrow> ('t, 's) LazyDB \<Rightarrow> nat" where
  "ZCard A key db = (case zSetIndex db key of None \<Rightarrow> 0 | Some idx \<Rightarrow> ART_Size A (z_tree idx))"

text \<open>The rank of a failed lookup is -1, returned with the error.\<close>

definition ZRank ::
    "('s, 'e) skl \<Rightarrow> ('t, Value_t) art \<Rightarrow> int \<Rightarrow> bytes \<Rightarrow> bytes \<Rightarrow> ('t, 's) LazyDB \<Rightarrow> int result" where
  "ZRank S A now key member db =
     (case ZScore A now key member db of
        Inl e \<Rightarrow> Inl e
      | Inr score \<Rightarrow>
          (case zSetIndex db key of
             None \<Rightarrow> Inl Panic
           | Some idx \<Rightarrow> Inr (int (skl_GetRank S (z_skl idx) \<lparr>n_score = score, n_member = member\<rparr>) - 1)))"

definition ZRevRank ::
    "('s, 'e) skl \<Rightarrow> ('t, Value_t) art \<Rightarrow> int \<Rightarrow> bytes \<Rightarrow> bytes \<Rightarrow> ('t, 's) LazyDB \<Rightarrow> int result" where
  "ZRevRank S A now key member db =
     (case ZScore A now key member db of
        Inl e \<Rightarrow> Inl e
      | Inr score \<Rightarrow>
          (case zSetIndex db key of
             None \<Rightarrow> Inl Panic
           | Some idx \<Rightarrow>
               Inr (int (skl_Len S (z_skl idx)) - int (skl_GetRank S (z_skl idx) \<lparr>n_score = score, n_member = member\<rparr>))))"

text \<open>Go's \<open>int\<close> has 64 bits.\<close>

definition wrap64 :: "int \<Rightarrow> int" where
  "wrap64 x = sint (word_of_int x :: i64)"

definition z_pos :: "int \<Rightarrow> int \<Rightarrow> int" where
  "z_pos len i = wrap64 ((if i < 0 then wrap64 (i + len) else i) + 1)"

text \<open>The loop of the range commands; \<open>step\<close> is \<open>Next\<close> or \<open>Prev\<close>.\<close>

fun z_walk :: "('s, 'e) skl \<Rightarrow> ('s \<Rightarrow> 'e \<Rightarrow> 'e option) \<Rightarrow> 's \<Rightarrow> nat \<Rightarrow> 'e option \<Rightarrow> Node list result" where
  "z_walk S step s 0 e = Inr []"
| "z_walk S step s (Suc n) None = Inl Panic"
| "z_walk S step s (Suc n) (Some e) = map_sum id (\<lambda>xs. skl_Value S s e # xs) (z_walk S step s n (step s e))"

definition z_range :: "('s, 'e) skl \<Rightarrow> 's \<Rightarrow> int \<Rightarrow> int \<Rightarrow> Node list result" where
  "z_range S s start stop =
     (let len = int (skl_Len S s); a = z_pos len start; b = Min_int (z_pos len stop) len
      in z_walk S (skl_Next S) s (nat (b - a + 1)) (skl_GetElementByRank S s a))"

definition z_rev_range :: "('s, 'e) skl \<Rightarrow> 's \<Rightarrow> int \<Rightarrow> int \<Rightarrow> Node list result" where
  "z_rev_range S s start stop =
     (let len = int (skl_Len S s); a = z_pos len start; b = Min_int (z_pos len stop) len
      in z_walk S (skl_Prev S) s (nat (b - a + 1)) (skl_GetElementByRank S s b))"

definition ZRange :: "('s, 'e) skl \<Rightarrow> bytes \<Rightarrow> int \<Rightarrow> int \<Rightarrow> ('t, 's) LazyDB \<Rightarrow> bytes list result" where
  "ZRange S key start stop db =
     (case zSetIndex db key of
        None \<Rightarrow> Inr []
      | Some idx \<Rightarrow> map_sum id (map n_member) (z_range S (z_skl idx) start stop))"

definition ZRangeWithScores ::
    "('s, 'e) skl \<Rightarrow> bytes \<Rightarrow> int \<Rightarrow> int \<Rightarrow> ('t, 's) LazyDB \<Rightarrow> (bytes list \<times> f64 list) result" where
  "ZRangeWithScores S key start stop db =
     (case zSetIndex db key of
        None \<Rightarrow> Inr ([], [])
      | Some idx \<Rightarrow> map_sum id (\<lambda>xs. (map n_member xs, map n_score xs)) (z_range S (z_skl idx) start stop))"

definition ZRevRange :: "('s, 'e) skl \<Rightarrow> bytes \<Rightarrow> int \<Rightarrow> int \<Rightarrow> ('t, 's) LazyDB \<Rightarrow> bytes list result" where
  "ZRevRange S key start stop db =
     (case zSetIndex db key of
        None \<Rightarrow> Inr []
      | Some idx \<Rightarrow> map_sum id (map n_member) (z_rev_range S (z_skl idx) start stop))"

definition ZRevRangeWithScores ::
    "('s, 'e) skl \<Rightarrow> bytes \<Rightarrow> int \<Rightarrow> int \<Rightarrow> ('t, 's) LazyDB \<Rightarrow> (bytes list \<times> f64 list) result" where
  "ZRevRangeWithScores S key start stop db =
     (case zSetIndex db key of
        None \<Rightarrow> Inr ([], [])
      | Some idx \<Rightarrow> map_sum id (\<lambda>xs. (map n_member xs, map n_score xs)) (z_rev_range S (z_skl idx) start stop))"

text \<open>The error of the lookup is dropped, the score is then 0.\<close>

definition ZIncrBy ::
    "('s, 'e) skl \<Rightarrow> ('t, Value_t) art \<Rightarrow> int \<Rightarrow> bytes \<Rightarrow> f64 \<Rightarrow> bytes \<Rightarrow> ('t, 's) LazyDB \<Rightarrow> f64 result \<times> ('t, 's) LazyDB" where
  "ZIncrBy S A now key increment member db =
     (case (case ZScore A now key member db of Inl e \<Rightarrow> if crash e then Inl e else Inr 0 | Inr score \<Rightarrow> Inr score) of
        Inl e \<Rightarrow> (Inl e, db)
      | Inr score \<Rightarrow>
          (case ZAdd S A now key [Float64ToByte (f64_add score increment), member] db of
             (Inl e, db') \<Rightarrow> (Inl e, db')
           | (Inr _, db') \<Rightarrow> (Inr (f64_add score increment), db')))"

subsection \<open>Removing\<close>

fun ZRem_loop ::
    "('s, 'e) skl \<Rightarrow> ('t, Value_t) art \<Rightarrow> int \<Rightarrow> bytes \<Rightarrow> bytes list \<Rightarrow> nat \<Rightarrow> ('t, 's) ZSetIndex \<Rightarrow> Store
       \<Rightarrow> (nat \<times> err option) \<times> ('t, 's) ZSetIndex \<times> Store" where
  "ZRem_loop S A now key [] cnt z st = ((cnt, None), z, st)"
| "ZRem_loop S A now key (member # members) cnt z st =
     (case encodeKey key member of
        Inl e \<Rightarrow> ((cnt, Some e), z, st)
      | Inr zSetKey \<Rightarrow>
          (let entry = del_entry zSetKey
           in case writeLogEntry valueTypeZSet entry st of
                (Inl e, st1) \<Rightarrow> ((cnt, Some e), z, st1)
              | (Inr pos, st1) \<Rightarrow>
                  (case getValue A now (z_tree z) zSetKey valueTypeZSet st1 of
                     Inl e \<Rightarrow>
                       if e \<noteq> ErrKeyNotFound then ((0, Some e), z, st1)
                       else ZRem_loop S A now key members cnt z st1
                   | Inr score \<Rightarrow>
                       (case ART_Delete A (z_tree z) zSetKey of
                          (t, val, updated) \<Rightarrow>
                            (case ByteToFloat64 (bs score) of
                               Inl e \<Rightarrow> ((cnt, Some e), z\<lparr>z_tree := t\<rparr>, st1)
                             | Inr f \<Rightarrow>
                                 (let z' = \<lparr>z_tree = t, z_skl = skl_Delete S (z_skl z) \<lparr>n_score = f, n_member = member\<rparr>\<rparr>
                                  in case report_deleted valueTypeZSet val updated entry pos st1 of
                                       (Inl e, st2) \<Rightarrow> ((cnt + 1, Some e), z', st2)
                                     | (Inr _, st2) \<Rightarrow> ZRem_loop S A now key members (cnt + 1) z' st2))))))"

definition ZRem ::
    "('s, 'e) skl \<Rightarrow> ('t, Value_t) art \<Rightarrow> int \<Rightarrow> bytes \<Rightarrow> bytes list \<Rightarrow> ('t, 's) LazyDB
       \<Rightarrow> (nat \<times> err option) \<times> ('t, 's) LazyDB" where
  "ZRem S A now key members db =
     (case zSetIndex db key of
        None \<Rightarrow> ((0, None), db)
      | Some idx \<Rightarrow>
          (case ZRem_loop S A now key members 0 idx (store db) of
             (r, z, st) \<Rightarrow> (r, db\<lparr>store := st, zSetIndex := (zSetIndex db)(key \<mapsto> z)\<rparr>)))"

subsection \<open>Popping\<close>

text \<open>
  \<open>ZPopMax\<close> and \<open>ZPopMin\<close> differ in the rank they ask for. \<open>None\<close> means that the goroutine
  blocks on the mutex; the early return does not release it.
\<close>

definition z_pop ::
    "('s, 'e) skl \<Rightarrow> ('t, Value_t) art \<Rightarrow> (nat \<Rightarrow> int) \<Rightarrow> int \<Rightarrow> bytes \<Rightarrow> ('t, 's) LazyDB \<Rightarrow> RWMutex
       \<Rightarrow> ((slice \<times> f64) result \<times> ('t, 's) LazyDB \<times> RWMutex) option" where
  "z_pop S A rank now key db mu =
     (case RW_Lock mu of
        None \<Rightarrow> None
      | Some mu1 \<Rightarrow>
          (case zSetIndex db key of
             None \<Rightarrow> Some (Inr (None, 0), db, mu1)
           | Some idx \<Rightarrow>
               if skl_Len S (z_skl idx) = 0 then Some (Inr (None, 0), db, mu1)
               else case skl_GetElementByRank S (z_skl idx) (rank (skl_Len S (z_skl idx))) of
                      None \<Rightarrow> Some (Inl Panic, db, mu1)
                    | Some element \<Rightarrow>
                        (let node = skl_Value S (z_skl idx) element
                         in case RW_Unlock mu1 of
                              Inl e \<Rightarrow> Some (Inl e, db, mu1)
                            | Inr mu2 \<Rightarrow>
                                (case locked (ZRem S A now key [n_member node]) db mu2 of
                                   None \<Rightarrow> None
                                 | Some ((_, Some e), db', mu') \<Rightarrow> Some (Inl e, db', mu')
                                 | Some ((_, None), db', mu') \<Rightarrow> Some (Inr (Some (n_member node), n_score node), db', mu')))))"

definition ZPopMax ::
    "('s, 'e) skl \<Rightarrow> ('t, Value_t) art \<Rightarrow> int \<Rightarrow> bytes \<Rightarrow> ('t, 's) LazyDB \<Rightarrow> RWMutex
       \<Rightarrow> ((slice \<times> f64) result \<times> ('t, 's) LazyDB \<times> RWMutex) option" where
  "ZPopMax S A now key db mu = z_pop S A int now key db mu"

definition ZPopMin ::
    "('s, 'e) skl \<Rightarrow> ('t, Value_t) art \<Rightarrow> int \<Rightarrow> bytes \<Rightarrow> ('t, 's) LazyDB \<Rightarrow> RWMutex
       \<Rightarrow> ((slice \<times> f64) result \<times> ('t, 's) LazyDB \<times> RWMutex) option" where
  "ZPopMin S A now key db mu = z_pop S A (\<lambda>_. 1) now key db mu"

fun z_pops ::
    "(('t, 's) LazyDB \<Rightarrow> RWMutex \<Rightarrow> ((slice \<times> f64) result \<times> ('t, 's) LazyDB \<times> RWMutex) option) \<Rightarrow> nat
       \<Rightarrow> ('t, 's) LazyDB \<Rightarrow> RWMutex \<Rightarrow> ((slice \<times> f64) list result \<times> ('t, 's) LazyDB \<times> RWMutex) option" where
  "z_pops pop 0 db mu = Some (Inr [], db, mu)"
| "z_pops pop (Suc n) db mu =
     (case pop db mu of
        None \<Rightarrow> None
      | Some (Inl e, db1, mu1) \<Rightarrow> Some (Inl e, db1, mu1)
      | Some (Inr x, db1, mu1) \<Rightarrow>
          (case z_pops pop n db1 mu1 of
             None \<Rightarrow> None
           | Some (r, db2, mu2) \<Rightarrow> Some (map_sum id (\<lambda>xs. x # xs) r, db2, mu2)))"

definition z_pop_count ::
    "('s, 'e) skl \<Rightarrow> (bytes \<Rightarrow> ('t, 's) LazyDB \<Rightarrow> RWMutex \<Rightarrow> ((slice \<times> f64) result \<times> ('t, 's) LazyDB \<times> RWMutex) option)
       \<Rightarrow> bytes \<Rightarrow> int \<Rightarrow> ('t, 's) LazyDB \<Rightarrow> RWMutex
       \<Rightarrow> ((slice \<times> f64) list result \<times> ('t, 's) LazyDB \<times> RWMutex) option" where
  "z_pop_count S pop key cnt db mu =
     (case RW_Lock mu of
        None \<Rightarrow> None
      | Some mu1 \<Rightarrow>
          (case zSetIndex db key of
             None \<Rightarrow> Some (Inr [], db, mu1)
           | Some idx \<Rightarrow>
               (case RW_Unlock mu1 of
                  Inl e \<Rightarrow> Some (Inl e, db, mu1)
                | Inr mu2 \<Rightarrow> z_pops (pop key) (nat (Min_int cnt (int (skl_Len S (z_skl idx))))) db mu2)))"

definition ZPopMaxWithCount ::
    "('s, 'e) skl \<Rightarrow> ('t, Value_t) art \<Rightarrow> int \<Rightarrow> bytes \<Rightarrow> int \<Rightarrow> ('t, 's) LazyDB \<Rightarrow> RWMutex
       \<Rightarrow> ((slice \<times> f64) list result \<times> ('t, 's) LazyDB \<times> RWMutex) option" where
  "ZPopMaxWithCount S A now key cnt db mu = z_pop_count S (ZPopMax S A now) key cnt db mu"

definition ZPopMinWithCount ::
    "('s, 'e) skl \<Rightarrow> ('t, Value_t) art \<Rightarrow> int \<Rightarrow> bytes \<Rightarrow> int \<Rightarrow> ('t, 's) LazyDB \<Rightarrow> RWMutex
       \<Rightarrow> ((slice \<times> f64) list result \<times> ('t, 's) LazyDB \<times> RWMutex) option" where
  "ZPopMinWithCount S A now key cnt db mu = z_pop_count S (ZPopMin S A now) key cnt db mu"

subsection \<open>What a sorted set holds\<close>

definition z_score :: "bytes \<Rightarrow> imap \<Rightarrow> bytes \<Rightarrow> f64 option" where
  "z_score key im m =
     (case im (encoded key m) of
        None \<Rightarrow> None
      | Some x \<Rightarrow> (case ByteToFloat64 (fst x) of Inl e \<Rightarrow> None | Inr f \<Rightarrow> Some f))"

text \<open>
  The skip list holds the members with their scores, no two of them of the same rank. Items are
  at least eight bytes long and do not expire.
\<close>

definition zset_rep :: "bytes \<Rightarrow> imap \<Rightarrow> Node list \<Rightarrow> bool" where
  "zset_rep key im xs \<longleftrightarrow> sorted_wrt Less xs \<and> numbers (set xs) \<and>
     (\<forall>nd. nd \<in> set xs \<longleftrightarrow> z_score key im (n_member nd) = Some (n_score nd)) \<and>
     (\<forall>k x. im k = Some x \<longrightarrow> 8 \<le> length (fst x) \<and> snd x = 0 \<and> k \<in> range (encoded key))"

text \<open>A score that no other member of the same length has.\<close>

definition z_free :: "(bytes \<Rightarrow> f64 option) \<Rightarrow> bytes \<Rightarrow> f64 \<Rightarrow> bool" where
  "z_free sc m f \<longleftrightarrow> \<not> f64_nan f \<and>
     (\<forall>m' f'. sc m' = Some f' \<longrightarrow> m' \<noteq> m \<longrightarrow>
        \<not> same_rank \<lparr>n_score = f', n_member = m'\<rparr> \<lparr>n_score = f, n_member = m\<rparr>)"

definition zrem_ok :: "bytes \<Rightarrow> bytes list \<Rightarrow> bool" where
  "zrem_ok key ms \<longleftrightarrow> (\<forall>m \<in> set ms. length m < 2 ^ 32 \<and> roomy (del_entry (encoded key m)))"

fun zadd_items :: "bytes \<Rightarrow> bytes list \<Rightarrow> imap \<Rightarrow> imap" where
  "zadd_items key (score # member # args) im = zadd_items key args (im(encoded key member \<mapsto> (score, 0)))"
| "zadd_items key _ im = im"

fun zadd_ok :: "bytes \<Rightarrow> bytes list \<Rightarrow> imap \<Rightarrow> bool" where
  "zadd_ok key (score # member # args) im \<longleftrightarrow>
     length member < 2 ^ 32 \<and> roomy (mk_entry (encoded key member) (Some score)) \<and>
     (case ByteToFloat64 score of Inl e \<Rightarrow> False | Inr f \<Rightarrow> z_free (z_score key im) member f) \<and>
     zadd_ok key args (im(encoded key member \<mapsto> (score, 0)))"
| "zadd_ok key _ im \<longleftrightarrow> True"

text \<open>The elements between two positions, negative ones counted from the end.\<close>

definition z_first :: "Node list \<Rightarrow> int \<Rightarrow> int" where
  "z_first xs i = (if i < 0 then i + int (length xs) else i)"

definition z_slice :: "Node list \<Rightarrow> int \<Rightarrow> int \<Rightarrow> Node list" where
  "z_slice xs start stop =
     take (nat (min (z_first xs stop) (int (length xs) - 1) + 1 - z_first xs start)) (drop (nat (z_first xs start)) xs)"

definition small_pos :: "int \<Rightarrow> bool" where
  "small_pos i \<longleftrightarrow> \<bar>i\<bar> < 2 ^ 62"

lemma wrap64_id: "- (2 ^ 63) \<le> x \<Longrightarrow> x < 2 ^ 63 \<Longrightarrow> wrap64 x = x"
  unfolding wrap64_def by (simp add: signed_of_int signed_take_bit_int_eq_self)

lemma z_pos_small: "small_pos i \<Longrightarrow> int (length xs) < 2 ^ 62 \<Longrightarrow> z_pos (int (length xs)) i = z_first xs i + 1"
  by (simp add: z_pos_def z_first_def small_pos_def wrap64_id)

lemma ByteToFloat64_long: "8 \<le> length b \<longleftrightarrow> (\<exists>f. ByteToFloat64 b = Inr f)"
  by (auto simp: ByteToFloat64_def)

lemma z_score_upd:
  assumes "length key < 2 ^ 32"
  shows "z_score key (im(encoded key m \<mapsto> (b, e))) =
      (z_score key im)(m := (case ByteToFloat64 b of Inl e \<Rightarrow> None | Inr f \<Rightarrow> Some f))"
    "z_score key (im(encoded key m := None)) = (z_score key im)(m := None)"
  using encoded_inj [OF assms assms] by (auto simp: z_score_def fun_eq_iff)

lemma zset_repD:
  assumes "zset_rep key im xs"
  shows "sorted_wrt Less xs" "numbers (set xs)" "nd \<in> set xs \<longleftrightarrow> z_score key im (n_member nd) = Some (n_score nd)"
    "im k = Some x \<Longrightarrow> 8 \<le> length (fst x) \<and> snd x = 0"
  using assms unfolding zset_rep_def by blast+

lemma zset_rep_empty [simp]: "zset_rep key Map.empty []"
  by (simp add: zset_rep_def z_score_def)

locale zset_index = value_index A + skl_engine S elems pos
  for A :: "('t, Value_t) art" and S :: "('s, 'e) skl" and elems :: "'s \<Rightarrow> Node list" and pos :: "'s \<Rightarrow> 'e \<Rightarrow> nat"
begin

lemma z_item_live:
  assumes "store_inv st" "index_rel A st valueTypeZSet t im" "zset_rep key im xs" "im k = Some x"
  shows "getValue A now t k valueTypeZSet st = Inr (Some (fst x))"
  using getValue_rel [OF assms(1,2)] zset_repD(4) [OF assms(3,4)] assms(4) by (simp add: lookup_item_def live_def)

text \<open>Removing the node of a member.\<close>

lemma rep_delete:
  assumes rep: "zset_rep key im (elems s)" and key: "length key < 2 ^ 32"
    and m: "z_score key im m = Some f"
  shows "zset_rep key (im(encoded key m := None)) (elems (skl_Delete S s \<lparr>n_score = f, n_member = m\<rparr>))"
    "length (elems s) = Suc (length (elems (skl_Delete S s \<lparr>n_score = f, n_member = m\<rparr>)))"
proof -
  let ?nd = "\<lparr>n_score = f, n_member = m\<rparr>"
  have "?nd \<in> set (elems s)" using zset_repD(3) [OF rep] m by simp
  note d = delete_strict [OF zset_repD(1,2) [OF rep] this]
  have "nd \<in> set (elems s) - {?nd} \<longleftrightarrow> z_score key (im(encoded key m := None)) (n_member nd) = Some (n_score nd)" for nd
    using zset_repD(3) [OF rep, of nd] m by (cases nd) (auto simp: z_score_upd(2) [OF key])
  moreover have "numbers (set (elems s) - {?nd})" using zset_repD(2) [OF rep] by (auto simp: numbers_def)
  ultimately show "zset_rep key (im(encoded key m := None)) (elems (skl_Delete S s ?nd))"
    using d(1,2) rep by (auto simp: zset_rep_def split: if_splits)
  show "length (elems s) = Suc (length (elems (skl_Delete S s ?nd)))" by (rule d(3))
qed

lemma rep_insert:
  assumes rep: "zset_rep key im (elems s)" and key: "length key < 2 ^ 32" and m: "im (encoded key m) = None"
    and b: "ByteToFloat64 b = Inr f" and free: "z_free (z_score key im) m f"
  shows "zset_rep key (im(encoded key m \<mapsto> (b, 0))) (elems (skl_Insert S s \<lparr>n_score = f, n_member = m\<rparr>))"
proof -
  let ?nd = "\<lparr>n_score = f, n_member = m\<rparr>"
  have sm: "z_score key im m = None" using m by (simp add: z_score_def)
  have "\<not> same_rank x ?nd" if "x \<in> set (elems s)" for x
  proof -
    have "z_score key im (n_member x) = Some (n_score x)" "n_member x \<noteq> m" using that zset_repD(3) [OF rep, of x] sm by auto
    then have "\<not> same_rank \<lparr>n_score = n_score x, n_member = n_member x\<rparr> ?nd" using free unfolding z_free_def by blast
    then show ?thesis by simp
  qed
  then have i: "sorted_wrt Less (elems (skl_Insert S s ?nd))" "set (elems (skl_Insert S s ?nd)) = insert ?nd (set (elems s))"
    using insert_strict [OF zset_repD(1,2) [OF rep], of ?nd] free by (auto simp: z_free_def)
  have "nd \<in> insert ?nd (set (elems s)) \<longleftrightarrow> z_score key (im(encoded key m \<mapsto> (b, 0))) (n_member nd) = Some (n_score nd)" for nd
    using zset_repD(3) [OF rep, of nd] sm b by (cases nd) (auto simp: z_score_upd(1) [OF key])
  moreover have "numbers (insert ?nd (set (elems s)))" using zset_repD(2) [OF rep] free by (simp add: z_free_def)
  moreover have "8 \<le> length b" using b ByteToFloat64_long by blast
  ultimately show ?thesis
    using i rep by (auto simp: zset_rep_def split: if_splits)
qed

text \<open>\<open>ZAdd\<close> first takes a member that has a score out of the skip list.\<close>

lemma z_forget_rep:
  assumes st: "store_inv st" "index_rel A st valueTypeZSet t im" and rep: "zset_rep key im (elems s)" and key: "length key < 2 ^ 32"
  shows "\<exists>s'. z_forget S A now (encoded key m) m t s st = Inr s' \<and> zset_rep key (im(encoded key m := None)) (elems s')"
proof (cases "im (encoded key m)")
  case None
  then have "im(encoded key m := None) = im" by auto
  then show ?thesis using None index_rel_get [OF st(2), of "encoded key m"] rep by (simp add: z_forget_def)
next
  case (Some x)
  then obtain f where f: "ByteToFloat64 (fst x) = Inr f" using zset_repD(4) [OF rep] ByteToFloat64_long by blast
  then have "z_score key im m = Some f" using Some by (simp add: z_score_def)
  then show ?thesis
    using Some index_rel_get [OF st(2), of "encoded key m"] z_item_live [OF st rep Some] f rep_delete(1) [OF rep key]
    by (auto simp: z_forget_def)
qed

lemma ZAdd_loop_rel:
  assumes "store_inv st" "index_rel A st valueTypeZSet (z_tree z) im" "zset_rep key im (elems (z_skl z))"
    "ready st valueTypeZSet (length (items_of args) + n)" "zadd_ok key args im" "length key < 2 ^ 32"
  shows "\<exists>z' st'. ZAdd_loop S A now key args z st = (Inr (), z', st') \<and> store_inv st' \<and> store_ext valueTypeZSet st st' \<and>
    index_rel A st' valueTypeZSet (z_tree z') (zadd_items key args im) \<and> zset_rep key (zadd_items key args im) (elems (z_skl z')) \<and>
    ready st' valueTypeZSet n \<and> spends valueTypeZSet (length (items_of args)) (length (items_of args)) st st'"
  using assms
proof (induction args arbitrary: z st im rule: items_of.induct)
  case (1 score m args)
  let ?k = "encoded key m" and ?e = "mk_entry (encoded key m) (Some score)" and ?n = "length (items_of args) + n"
  let ?im = "im(?k \<mapsto> (score, 0))"
  obtain f where ok: "length m < 2 ^ 32" "roomy ?e" "ByteToFloat64 score = Inr f" "z_free (z_score key im) m f" "zadd_ok key args ?im"
    using 1(6) by (auto split: sum.splits)
  have cap: "capacity st valueTypeZSet (Suc ?n)" and ch: "chan_room st valueTypeZSet (Suc ?n)" using 1(5) by (simp_all add: ready_def)
  have pk: "put_ok st valueTypeZSet ?e" using roomy_put_ok [OF cap ok(2)] .
  have old: "length (old_node A (z_tree z) ?k) + ?n \<le> Suc ?n" using length_old_node [of A "z_tree z" ?k] by simp
  obtain t st2 where p: "put_entry A valueTypeZSet (z_tree z) ?e True st = (Inr (), t, st2)" "store_inv st2" "store_ext valueTypeZSet st st2"
    "chan_upd valueTypeZSet (old_node A (z_tree z) ?k) st st2" "capacity st2 valueTypeZSet ?n" "index_rel A st2 valueTypeZSet t ?im"
    "\<And>n. capacity st valueTypeZSet (Suc n) \<Longrightarrow> capacity st2 valueTypeZSet n"
    using put_entry_rel [OF 1(2,3) pk, of True] chan_room_le [OF ch] old cap by (fastforce simp: SDelete_def bs_def)
  obtain pos st1 where w: "writeLogEntry valueTypeZSet ?e st = (Inr pos, st1)" "store_inv st1" "store_ext valueTypeZSet st st1"
    using log_write [OF 1(2) pk] by blast
  have u: "updateIndexTree A valueTypeZSet (z_tree z) ?e pos True st1 = (Inr (), t, st2)" using p(1) w(1) by (simp add: put_entry_def)
  obtain s where s: "z_forget S A now ?k m (z_tree z) (z_skl z) st1 = Inr s" "zset_rep key (im(?k := None)) (elems s)"
    using z_forget_rep [OF w(2) index_rel_ext [OF 1(3) w(3)] 1(4,7)] by blast
  have "z_free (z_score key (im(?k := None))) m f" using ok(4) by (auto simp: z_score_upd(2) [OF 1(7)] z_free_def)
  then have rep: "zset_rep key ?im (elems (skl_Insert S s \<lparr>n_score = f, n_member = m\<rparr>))"
    using rep_insert [OF s(2) 1(7) _ ok(3), of m] by simp
  have sp: "spends valueTypeZSet 1 1 st st2"
    by (rule spends_le [OF spends_write [OF p(3,4)]]) (use p(7) length_old_node [of A "z_tree z" ?k] in auto)
  have "ready st2 valueTypeZSet ?n" using p(5) chan_upd_room [OF p(4) chan_room_le [OF ch old]] by (simp add: ready_def)
  then obtain z' st' where "ZAdd_loop S A now key args \<lparr>z_tree = t, z_skl = skl_Insert S s \<lparr>n_score = f, n_member = m\<rparr>\<rparr> st2 = (Inr (), z', st')"
    "store_inv st'" "store_ext valueTypeZSet st2 st'" "index_rel A st' valueTypeZSet (z_tree z') (zadd_items key args ?im)"
    "zset_rep key (zadd_items key args ?im) (elems (z_skl z'))" "ready st' valueTypeZSet n"
    "spends valueTypeZSet (length (items_of args)) (length (items_of args)) st2 st'"
    using 1(1) [of st2 "\<lparr>z_tree = t, z_skl = skl_Insert S s \<lparr>n_score = f, n_member = m\<rparr>\<rparr>" ?im] p(2,6) rep ok(5) 1(7)
    by (auto simp del: fun_upd_apply)
  then show ?case
    using encodeKey_encoded [OF 1(7) ok(1)] w(1) s(1) u ok(3) store_ext_trans [OF p(3)] spends_trans [OF sp] by (simp add: Let_def)
qed auto

text \<open>One round of \<open>ZRem\<close>: a member that is not there only leaves a delete entry in the log.\<close>

lemma ZRem_step_rel:
  assumes st: "store_inv st" "index_rel A st valueTypeZSet (z_tree z) im" and rep: "zset_rep key im (elems (z_skl z))"
    and cap: "capacity st valueTypeZSet (Suc n)" and ch: "chan_room st valueTypeZSet (n' + 2)"
    and m: "length m < 2 ^ 32" "roomy (del_entry (encoded key m))" and key: "length key < 2 ^ 32"
  shows "\<exists>z' st'. ZRem_loop S A now key (m # ms) c z st = ZRem_loop S A now key ms (if im (encoded key m) = None then c else c + 1) z' st' \<and>
    store_inv st' \<and> store_ext valueTypeZSet st st' \<and> index_rel A st' valueTypeZSet (z_tree z') (im(encoded key m := None)) \<and>
    zset_rep key (im(encoded key m := None)) (elems (z_skl z')) \<and> capacity st' valueTypeZSet n \<and> chan_room st' valueTypeZSet n' \<and>
    spends valueTypeZSet 1 2 st st'"
proof -
  let ?k = "encoded key m" and ?t = "z_tree z"
  obtain pos st1 where w: "writeLogEntry valueTypeZSet (del_entry ?k) st = (Inr pos, st1)" "store_inv st1" "store_ext valueTypeZSet st st1"
    "chan_upd valueTypeZSet [] st st1" "capacity st1 valueTypeZSet n" "contents (files st1) valueTypeZSet (vp_fid pos) \<noteq> None"
    "\<And>n. capacity st valueTypeZSet (Suc n) \<Longrightarrow> capacity st1 valueTypeZSet n"
    using log_write [OF st(1) roomy_put_ok [OF cap m(2)]] cap by blast
  have r1: "index_rel A st1 valueTypeZSet ?t im" by (rule index_rel_ext [OF st(2) w(3)])
  have ch1: "chan_room st1 valueTypeZSet (n' + 2)" using chan_upd_room [OF w(4)] ch by simp
  note enc = encodeKey_encoded [OF key m(1)]
  have sp1: "spends valueTypeZSet 1 0 st st1" using spends_write [OF w(3,4,7)] by simp
  show ?thesis
  proof (cases "im ?k")
    case None
    then have "getValue A now ?t ?k valueTypeZSet st1 = Inl ErrKeyNotFound" "im(?k := None) = im"
      using getValue_rel [OF w(2) r1] by (auto simp: lookup_item_def)
    then show ?thesis using None enc w r1 rep chan_room_le [OF ch1] spends_le [OF sp1, of 1 2] by (intro exI [of _ z] exI [of _ st1]) (simp add: Let_def)
  next
    case (Some x)
    obtain f where f: "ByteToFloat64 (fst x) = Inr f" using zset_repD(4) [OF rep Some] ByteToFloat64_long by blast
    then have sc: "z_score key im m = Some f" using Some by (simp add: z_score_def)
    have "length (old_node A ?t ?k) \<le> 1" by (rule length_old_node)
    then obtain st2 node where r: "report_deleted valueTypeZSet (ART_Get A ?t ?k) (ART_Get A ?t ?k \<noteq> None) (del_entry ?k) pos st1 = (Inr (), st2)"
      "store_inv st2" "store_ext valueTypeZSet st1 st2" "chan_upd valueTypeZSet (old_node A ?t ?k @ [node]) st1 st2"
      "capacity st2 valueTypeZSet n" "\<And>n. capacity st1 valueTypeZSet n \<Longrightarrow> capacity st2 valueTypeZSet n"
      using report_rel [OF w(2) r1, of "del_entry ?k" ?k pos] chan_room_le [OF ch1, of "Suc (length (old_node A ?t ?k))"] m(2) w(5,6)
      by (auto simp: roomy_def)
    define t' where "t' = fst (ART_Delete A ?t ?k)"
    let ?z = "\<lparr>z_tree = t', z_skl = skl_Delete S (z_skl z) \<lparr>n_score = f, n_member = m\<rparr>\<rparr>"
    have "index_rel A st2 valueTypeZSet t' (im(?k := None))" unfolding t'_def by (rule index_rel_ext [OF del_rel [OF r1] r(3)])
    moreover have "chan_room st2 valueTypeZSet n'"
      using chan_upd_room [OF r(4), of n'] chan_room_le [OF ch1, of "length (old_node A ?t ?k @ [node]) + n'"] length_old_node [of A ?t ?k] by simp
    moreover have "spends valueTypeZSet 0 2 st1 st2"
      using r(3,4,6) length_old_node [of A ?t ?k] by (simp add: spends_def chan_upd_def chan_grows_def)
    then have "spends valueTypeZSet 1 2 st st2" using spends_trans [OF sp1] by fastforce
    moreover have "ZRem_loop S A now key (m # ms) c z st = ZRem_loop S A now key ms (c + 1) ?z st2"
      using enc w(1) z_item_live [OF w(2) r1 rep Some] f r(1) idx.del_eq [of ?t ?k, folded t'_def] by (simp add: Let_def bs_def)
    ultimately show ?thesis
      using Some r(2,5) store_ext_trans [OF w(3) r(3)] rep_delete(1) [OF rep key sc] by (intro exI [of _ ?z] exI [of _ st2]) simp
  qed
qed

lemma ZRem_loop_rel:
  assumes "store_inv st" "index_rel A st valueTypeZSet (z_tree z) im" "zset_rep key im (elems (z_skl z))"
    "capacity st valueTypeZSet (length ms + n)" "chan_room st valueTypeZSet (2 * length ms + n')" "zrem_ok key ms" "length key < 2 ^ 32"
  shows "\<exists>z' st'. ZRem_loop S A now key ms c z st = ((c + card (dom im \<inter> encoded key ` set ms), None), z', st') \<and>
    store_inv st' \<and> store_ext valueTypeZSet st st' \<and> index_rel A st' valueTypeZSet (z_tree z') (im |` (- encoded key ` set ms)) \<and>
    zset_rep key (im |` (- encoded key ` set ms)) (elems (z_skl z')) \<and> capacity st' valueTypeZSet n \<and> chan_room st' valueTypeZSet n' \<and>
    spends valueTypeZSet (length ms) (2 * length ms) st st'"
  using assms
proof (induction ms arbitrary: z st im c)
  case (Cons m ms)
  let ?k = "encoded key m" and ?S = "encoded key ` set ms"
  have m: "length m < 2 ^ 32" "roomy (del_entry ?k)" "zrem_ok key ms" using Cons.prems(6) by (auto simp: zrem_ok_def)
  have "chan_room st valueTypeZSet (2 * length ms + n' + 2)" using Cons.prems(5) by (simp add: algebra_simps)
  then obtain z1 st1 where s: "ZRem_loop S A now key (m # ms) c z st = ZRem_loop S A now key ms (if im ?k = None then c else c + 1) z1 st1"
    "store_inv st1" "store_ext valueTypeZSet st st1" "index_rel A st1 valueTypeZSet (z_tree z1) (im(?k := None))"
    "zset_rep key (im(?k := None)) (elems (z_skl z1))" "capacity st1 valueTypeZSet (length ms + n)" "chan_room st1 valueTypeZSet (2 * length ms + n')"
    "spends valueTypeZSet 1 2 st st1"
    using ZRem_step_rel [OF Cons.prems(1-3), of "length ms + n" "2 * length ms + n'" m now ms c] Cons.prems(4,7) m(1,2) by auto
  obtain z' st' where l: "ZRem_loop S A now key ms (if im ?k = None then c else c + 1) z1 st1 =
      (((if im ?k = None then c else c + 1) + card (dom (im(?k := None)) \<inter> ?S), None), z', st')"
    "store_inv st'" "store_ext valueTypeZSet st1 st'" "index_rel A st' valueTypeZSet (z_tree z') ((im(?k := None)) |` (- ?S))"
    "zset_rep key ((im(?k := None)) |` (- ?S)) (elems (z_skl z'))"
    "capacity st' valueTypeZSet n" "chan_room st' valueTypeZSet n'" "spends valueTypeZSet (length ms) (2 * length ms) st1 st'"
    using Cons.IH [OF s(2,4,5,6,7) m(3) Cons.prems(7)] by blast
  have "dom im \<inter> insert ?k ?S = (if im ?k \<noteq> None then insert ?k (dom (im(?k := None)) \<inter> ?S) else dom (im(?k := None)) \<inter> ?S)"
    by auto
  then have "card (dom im \<inter> insert ?k ?S) = (if im ?k = None then 0 else 1) + card (dom (im(?k := None)) \<inter> ?S)"
    by (auto simp: card_insert_if)
  moreover have "(im(?k := None)) |` (- ?S) = im |` (- insert ?k ?S)" by (auto simp: restrict_map_def)
  moreover have "spends valueTypeZSet (length (m # ms)) (2 * length (m # ms)) st st'" using spends_trans [OF s(8) l(8)] by simp
  ultimately show ?case using l store_ext_trans [OF s(3) l(3)] unfolding s(1) by auto
qed (auto simp: restrict_map_def)

subsection \<open>Ranges\<close>

lemma walk_next:
  "pos s e + n \<le> length (elems s) \<Longrightarrow> z_walk S (skl_Next S) s n (Some e) = Inr (take n (drop (pos s e) (elems s)))"
proof (induction n arbitrary: e)
  case (Suc n)
  have i: "pos s e < length (elems s)" using Suc.prems by simp
  then have d: "drop (pos s e) (elems s) = skl_Value S s e # drop (Suc (pos s e)) (elems s)"
    using Value_pos by (simp add: Cons_nth_drop_Suc)
  have "z_walk S (skl_Next S) s n (skl_Next S s e) = Inr (take n (drop (Suc (pos s e)) (elems s)))"
  proof (cases n)
    case (Suc n')
    then obtain e' where "skl_Next S s e = Some e'" "pos s e' = Suc (pos s e)" using Next_pos [of s e] Suc.prems by auto
    then show ?thesis using Suc.IH [of e'] Suc.prems by simp
  qed simp
  then show ?case by (simp add: d)
qed simp

lemma walk_prev:
  "pos s e < length (elems s) \<Longrightarrow> n \<le> Suc (pos s e) \<Longrightarrow>
     z_walk S (skl_Prev S) s n (Some e) = Inr (take n (rev (take (Suc (pos s e)) (elems s))))"
proof (induction n arbitrary: e)
  case (Suc n)
  have d: "rev (take (Suc (pos s e)) (elems s)) = skl_Value S s e # rev (take (pos s e) (elems s))"
    using Value_pos Suc.prems(1) by (simp add: take_Suc_conv_app_nth)
  have "z_walk S (skl_Prev S) s n (skl_Prev S s e) = Inr (take n (rev (take (pos s e) (elems s))))"
  proof (cases n)
    case (Suc n')
    then have "0 < pos s e" using Suc.prems(2) by simp
    then obtain e' where "skl_Prev S s e = Some e'" "pos s e' = pos s e - 1" using Prev_pos [of s e] Suc.prems(1) by auto
    then show ?thesis using Suc.IH [of e'] Suc.prems \<open>0 < pos s e\<close> by simp
  qed simp
  then show ?case by (simp add: d)
qed simp

lemma z_range_slice:
  assumes "small_pos start" "small_pos stop" "int (length (elems s)) < 2 ^ 62" "0 \<le> z_first (elems s) start"
  shows "z_range S s start stop = Inr (z_slice (elems s) start stop)"
    "z_rev_range S s start stop = Inr (rev (z_slice (elems s) start stop))"
proof -
  let ?xs = "elems s" and ?len = "int (length (elems s))"
  define a where "a = z_first ?xs start"
  define b where "b = min (z_first ?xs stop) (?len - 1)"
  have pa: "z_pos ?len start = a + 1" and pb: "Min_int (z_pos ?len stop) ?len = b + 1"
    using z_pos_small [OF assms(1,3)] z_pos_small [OF assms(2,3)] by (auto simp: a_def b_def Min_int_def)
  have sl: "z_slice ?xs start stop = take (nat (b + 1 - a)) (drop (nat a) ?xs)" by (simp add: z_slice_def a_def b_def)
  have e: "z_range S s start stop = z_walk S (skl_Next S) s (nat (b + 1 - a)) (skl_GetElementByRank S s (a + 1))"
    "z_rev_range S s start stop = z_walk S (skl_Prev S) s (nat (b + 1 - a)) (skl_GetElementByRank S s (b + 1))"
    unfolding z_range_def z_rev_range_def Let_def Len_elems pa pb by (simp_all add: algebra_simps)
  have "z_range S s start stop = Inr (z_slice ?xs start stop) \<and> z_rev_range S s start stop = Inr (rev (z_slice ?xs start stop))"
  proof (cases "b + 1 - a \<le> 0")
    case True
    then have "nat (b + 1 - a) = 0" by simp
    then show ?thesis by (simp add: e sl)
  next
    case False
    have ab: "0 \<le> a" "a \<le> b" "b < ?len" using False assms(4) by (auto simp: a_def b_def)
    obtain x where x: "skl_GetElementByRank S s (a + 1) = Some x" "pos s x = nat a"
      using GetElementByRank_pos [of "a + 1" s] ab by (auto simp: nat_add_distrib)
    obtain y where y: "skl_GetElementByRank S s (b + 1) = Some y" "pos s y = nat b"
      using GetElementByRank_pos [of "b + 1" s] ab by (auto simp: nat_add_distrib)
    have n: "nat (b + 1 - a) = Suc (nat b) - nat a" using ab by auto
    have "z_range S s start stop = Inr (z_slice ?xs start stop)"
      using walk_next [of s x "nat (b + 1 - a)"] x ab by (simp add: e sl)
    moreover have "take (Suc (nat b) - nat a) (rev (take (Suc (nat b)) ?xs)) = rev (take (Suc (nat b) - nat a) (drop (nat a) ?xs))"
      using ab by (simp add: take_rev drop_take Suc_diff_le)
    then have "z_rev_range S s start stop = Inr (rev (z_slice ?xs start stop))"
      using walk_prev [of s y "nat (b + 1 - a)"] y ab n by (simp add: e sl)
    ultimately show ?thesis by simp
  qed
  then show "z_range S s start stop = Inr (z_slice ?xs start stop)" "z_rev_range S s start stop = Inr (rev (z_slice ?xs start stop))"
    by simp_all
qed

end

subsection \<open>Refinement\<close>

definition zset_of :: "adb \<Rightarrow> bytes \<Rightarrow> imap" where
  "zset_of a key = (case a_zset a key of None \<Rightarrow> Map.empty | Some m \<Rightarrow> m)"

definition zset_upd :: "adb \<Rightarrow> bytes \<Rightarrow> imap \<Rightarrow> adb" where
  "zset_upd a key m = a\<lparr>a_zset := (a_zset a)(key \<mapsto> m)\<rparr>"

definition zset_nodes :: "('s \<Rightarrow> Node list) \<Rightarrow> bytes \<Rightarrow> ('t, 's) LazyDB \<Rightarrow> Node list" where
  "zset_nodes elems key db = (case zSetIndex db key of None \<Rightarrow> [] | Some z \<Rightarrow> elems (z_skl z))"

definition zset_ok :: "('s \<Rightarrow> Node list) \<Rightarrow> bytes \<Rightarrow> ('t, 's) LazyDB \<Rightarrow> adb \<Rightarrow> bool" where
  "zset_ok elems key db a \<longleftrightarrow> length key < 2 ^ 32 \<and> zset_rep key (zset_of a key) (zset_nodes elems key db)"

lemma zset_upd_simps [simp]:
  "zset_of (zset_upd a key m) k = (if k = key then m else zset_of a k)" "a_zset (zset_upd a key m) = (a_zset a)(key \<mapsto> m)"
  by (simp_all add: zset_of_def zset_upd_def)

lemma zset_upd_upd [simp]: "zset_upd (zset_upd a key m) key m' = zset_upd a key m'"
  by (simp add: zset_upd_def)

text \<open>Taking elements one by one, and what is left.\<close>

fun picks :: "(Node list \<Rightarrow> Node) \<Rightarrow> (Node list \<Rightarrow> Node list) \<Rightarrow> nat \<Rightarrow> Node list \<Rightarrow> Node list" where
  "picks pick rest 0 xs = []"
| "picks pick rest (Suc n) xs = pick xs # picks pick rest n (rest xs)"

lemma picks_min: "n \<le> length xs \<Longrightarrow> picks hd tl n xs = take n xs \<and> (tl ^^ n) xs = drop n xs"
proof (induction n arbitrary: xs)
  case (Suc n)
  then show ?case by (cases xs) (simp_all add: funpow_Suc_right del: funpow.simps(2))
qed simp

lemma picks_max: "n \<le> length xs \<Longrightarrow> picks last butlast n xs = take n (rev xs) \<and> (butlast ^^ n) xs = take (length xs - n) xs"
proof (induction n arbitrary: xs)
  case (Suc n)
  then show ?case by (cases xs rule: rev_cases) (simp_all add: funpow_Suc_right del: funpow.simps(2))
qed simp

definition pop_result :: "Node \<Rightarrow> slice \<times> f64" where
  "pop_result nd = (Some (n_member nd), n_score nd)"

definition zset_without :: "adb \<Rightarrow> bytes \<Rightarrow> Node set \<Rightarrow> adb" where
  "zset_without a key X = zset_upd a key (zset_of a key |` (- (\<lambda>nd. encoded key (n_member nd)) ` X))"

lemma zset_without_insert:
  "zset_without (zset_upd a key ((zset_of a key)(encoded key (n_member nd) := None))) key X = zset_without a key (insert nd X)"
  by (auto simp: zset_without_def zset_upd_def restrict_map_def fun_eq_iff zset_of_def)

lemma zset_nodes_upd [simp]:
  "zset_nodes elems k (db\<lparr>store := st, zSetIndex := (zSetIndex db)(key \<mapsto> z)\<rparr>) =
     (if k = key then elems (z_skl z) else zset_nodes elems k db)"
  by (simp add: zset_nodes_def)

lemma zset_card:
  assumes rep: "zset_rep key im xs" and key: "length key < 2 ^ 32"
  shows "card (dom im) = length xs"
proof -
  have "dom im = (\<lambda>nd. encoded key (n_member nd)) ` set xs"
  proof (intro equalityI subsetI)
    fix k
    assume "k \<in> dom im"
    then obtain x where x: "im k = Some x" by blast
    then obtain m f where "k = encoded key m" "ByteToFloat64 (fst x) = Inr f"
      using rep ByteToFloat64_long unfolding zset_rep_def by blast
    then have "\<lparr>n_score = f, n_member = m\<rparr> \<in> set xs" using x zset_repD(3) [OF rep] by (simp add: z_score_def)
    then show "k \<in> (\<lambda>nd. encoded key (n_member nd)) ` set xs" using \<open>k = encoded key m\<close> by force
  next
    fix k
    assume "k \<in> (\<lambda>nd. encoded key (n_member nd)) ` set xs"
    then show "k \<in> dom im" using zset_repD(3) [OF rep] by (auto simp: z_score_def split: option.splits)
  qed
  moreover have "inj_on (\<lambda>nd. encoded key (n_member nd)) (set xs)"
  proof (rule inj_onI)
    fix x y
    assume "x \<in> set xs" "y \<in> set xs" "encoded key (n_member x) = encoded key (n_member y)"
    then have "n_member x = n_member y" "Some (n_score x) = Some (n_score y)"
      using zset_repD(3) [OF rep] encoded_inj [OF key key] by metis+
    then show "x = y" by (intro Node.equality) simp_all
  qed
  ultimately show ?thesis
    using strict_distinct [OF zset_repD(1) [OF rep]] by (simp add: card_image distinct_card)
qed

context zset_index
begin

lemma z_index_rel:
  assumes rel: "db_rel A db a" and ok: "zset_ok elems key db a"
  shows "index_rel A (store db) valueTypeZSet (z_tree (z_index S A key db)) (zset_of a key)"
    "zset_rep key (zset_of a key) (elems (z_skl (z_index S A key db)))"
proof -
  have r: "rel_option (\<lambda>z. index_rel A (store db) valueTypeZSet (z_tree z)) (zSetIndex db key) (a_zset a key)"
    using rel by (simp add: db_rel_def)
  then show "index_rel A (store db) valueTypeZSet (z_tree (z_index S A key db)) (zset_of a key)"
    using new_rel by (cases "zSetIndex db key"; cases "a_zset a key") (simp_all add: z_index_def zset_of_def)
  show "zset_rep key (zset_of a key) (elems (z_skl (z_index S A key db)))"
    using ok elems_New by (cases "zSetIndex db key") (simp_all add: z_index_def zset_ok_def zset_nodes_def)
qed

lemma zset_Some:
  assumes "db_rel A db a" "zset_ok elems key db a" "zSetIndex db key = Some z"
  shows "index_rel A (store db) valueTypeZSet (z_tree z) (zset_of a key)" "zset_rep key (zset_of a key) (elems (z_skl z))"
  using z_index_rel [OF assms(1,2)] assms(3) by (simp_all add: z_index_def)

lemma ZAdd_rel:
  assumes rel: "db_rel A db a" and ok: "zset_ok elems key db a" and args: "even (length args)" "args \<noteq> []"
    and room: "ready (store db) valueTypeZSet (length (items_of args) + n)" "zadd_ok key args (zset_of a key)"
  shows "\<exists>db'. ZAdd S A now key args db = (Inr (), db') \<and> db_rel A db' (zset_upd a key (zadd_items key args (zset_of a key))) \<and>
    zset_ok elems key db' (zset_upd a key (zadd_items key args (zset_of a key))) \<and> ready (store db') valueTypeZSet n \<and>
    spends valueTypeZSet (length (items_of args)) (length (items_of args)) (store db) (store db')"
proof -
  have key: "length key < 2 ^ 32" using ok by (simp add: zset_ok_def)
  obtain z st where l: "ZAdd_loop S A now key args (z_index S A key db) (store db) = (Inr (), z, st)" "store_inv st"
    "store_ext valueTypeZSet (store db) st" "index_rel A st valueTypeZSet (z_tree z) (zadd_items key args (zset_of a key))"
    "zset_rep key (zadd_items key args (zset_of a key)) (elems (z_skl z))" "ready st valueTypeZSet n"
    "spends valueTypeZSet (length (items_of args)) (length (items_of args)) (store db) st"
    using ZAdd_loop_rel [OF db_relD(1) [OF rel] z_index_rel [OF rel ok] room key] by blast
  then show ?thesis
    using db_rel_zset [OF rel l(2-4), of key] args key by (simp add: ZAdd_def zset_upd_def zset_ok_def zset_of_def)
qed

lemma ZScore_rel:
  assumes rel: "db_rel A db a" and ok: "zset_ok elems key db a" and z: "zSetIndex db key = Some z" and m: "length m < 2 ^ 32"
  shows "ZScore A now key m db = (case z_score key (zset_of a key) m of None \<Rightarrow> Inl ErrZSetMemberNotExist | Some f \<Rightarrow> Inr f)"
proof -
  note zs = zset_Some [OF rel ok z]
  have enc: "encodeKey key m = Inr (encoded key m)" using encodeKey_encoded ok m by (simp add: zset_ok_def)
  show ?thesis
  proof (cases "zset_of a key (encoded key m)")
    case None
    then have "getValue A now (z_tree z) (encoded key m) valueTypeZSet (store db) = Inl ErrKeyNotFound"
      using getValue_rel [OF db_relD(1) [OF rel] zs(1)] by (simp add: lookup_item_def)
    then show ?thesis using None z enc by (simp add: ZScore_def z_score_def crash_def)
  next
    case (Some x)
    obtain f where "ByteToFloat64 (fst x) = Inr f" using zset_repD(4) [OF zs(2) Some] ByteToFloat64_long by blast
    then show ?thesis using Some z enc z_item_live [OF db_relD(1) [OF rel] zs Some] by (simp add: ZScore_def z_score_def bs_def)
  qed
qed

lemma zset_at:
  assumes rel: "db_rel A db a" and ok: "zset_ok elems key db a" and i: "i < length (zset_nodes elems key db)"
    and m: "length (n_member (zset_nodes elems key db ! i)) < 2 ^ 32"
  defines "nd \<equiv> zset_nodes elems key db ! i"
  shows "ZScore A now key (n_member nd) db = Inr (n_score nd)" "ZRank S A now key (n_member nd) db = Inr (int i)"
    "ZRevRank S A now key (n_member nd) db = Inr (int (length (zset_nodes elems key db)) - 1 - int i)"
    "ZCard A key db = length (zset_nodes elems key db)"
proof -
  obtain z where z: "zSetIndex db key = Some z" "zset_nodes elems key db = elems (z_skl z)"
    using i by (auto simp: zset_nodes_def split: option.splits)
  note zs = zset_Some [OF rel ok z(1)]
  have "nd \<in> set (elems (z_skl z))" using i by (simp add: nd_def z(2))
  then have sc: "z_score key (zset_of a key) (n_member nd) = Some (n_score nd)" using zset_repD(3) [OF zs(2)] by blast
  show s: "ZScore A now key (n_member nd) db = Inr (n_score nd)" using ZScore_rel [OF rel ok z(1)] m sc by (simp add: nd_def)
  have "skl_GetRank S (z_skl z) nd = Suc i"
    unfolding nd_def z(2) using rank_strict [OF zset_repD(1,2) [OF zs(2)]] i by (simp add: z(2))
  then show "ZRank S A now key (n_member nd) db = Inr (int i)"
    "ZRevRank S A now key (n_member nd) db = Inr (int (length (zset_nodes elems key db)) - 1 - int i)"
    using s z Len_elems by (simp_all add: ZRank_def ZRevRank_def)
  have "card (dom (zset_of a key)) = length (elems (z_skl z))" using zset_card [OF zs(2)] ok by (simp add: zset_ok_def)
  then show "ZCard A key db = length (zset_nodes elems key db)"
    using z idx.siz_ok index_rel_dom [OF zs(1)] by (simp add: ZCard_def)
qed

lemma ZRem_rel:
  assumes rel: "db_rel A db a" and ok: "zset_ok elems key db a" and z: "zSetIndex db key = Some z"
    and room: "capacity (store db) valueTypeZSet (length ms + n)" "chan_room (store db) valueTypeZSet (2 * length ms + n')" "zrem_ok key ms"
  shows "\<exists>db'. ZRem S A now key ms db = ((card (dom (zset_of a key) \<inter> encoded key ` set ms), None), db') \<and>
    db_rel A db' (zset_upd a key (zset_of a key |` (- encoded key ` set ms))) \<and>
    zset_ok elems key db' (zset_upd a key (zset_of a key |` (- encoded key ` set ms))) \<and> zSetIndex db' key \<noteq> None \<and>
    capacity (store db') valueTypeZSet n \<and> chan_room (store db') valueTypeZSet n' \<and>
    spends valueTypeZSet (length ms) (2 * length ms) (store db) (store db')"
proof -
  have key: "length key < 2 ^ 32" using ok by (simp add: zset_ok_def)
  obtain z' st where l: "ZRem_loop S A now key ms 0 z (store db) = ((card (dom (zset_of a key) \<inter> encoded key ` set ms), None), z', st)"
    "store_inv st" "store_ext valueTypeZSet (store db) st" "index_rel A st valueTypeZSet (z_tree z') (zset_of a key |` (- encoded key ` set ms))"
    "zset_rep key (zset_of a key |` (- encoded key ` set ms)) (elems (z_skl z'))"
    "capacity st valueTypeZSet n" "chan_room st valueTypeZSet n'" "spends valueTypeZSet (length ms) (2 * length ms) (store db) st"
    using ZRem_loop_rel [OF db_relD(1) [OF rel] zset_Some [OF rel ok z] room key, of now 0] by auto
  then show ?thesis
    using db_rel_zset [OF rel l(2-4), of key] z key by (simp add: ZRem_def zset_upd_def zset_ok_def zset_of_def)
qed

text \<open>Popping the element at a rank.\<close>

lemma z_pop_rel:
  assumes rel: "db_rel A db a" and ok: "zset_ok elems key db a" and xs: "zset_nodes elems key db = xs1 @ nd # xs2"
    and r: "rank (length (xs1 @ nd # xs2)) = int (Suc (length xs1))" and mu: "RW_Lock mu \<noteq> None"
    and room: "capacity (store db) valueTypeZSet (Suc n)" "chan_room (store db) valueTypeZSet (2 + n')" "zrem_ok key [n_member nd]"
  shows "\<exists>db' a'. z_pop S A rank now key db mu = Some (Inr (Some (n_member nd), n_score nd), db', mu) \<and>
    a' = zset_upd a key ((zset_of a key)(encoded key (n_member nd) := None)) \<and> db_rel A db' a' \<and> zset_ok elems key db' a' \<and>
    zset_nodes elems key db' = xs1 @ xs2 \<and> capacity (store db') valueTypeZSet n \<and> chan_room (store db') valueTypeZSet n'"
proof -
  let ?im = "zset_of a key" and ?k = "encoded key (n_member nd)"
  obtain z where z: "zSetIndex db key = Some z" "elems (z_skl z) = xs1 @ nd # xs2"
    using xs by (auto simp: zset_nodes_def split: option.splits)
  note rep = zset_Some(2) [OF rel ok z(1)]
  have sc: "z_score key ?im (n_member nd) = Some (n_score nd)" using zset_repD(3) [OF rep, of nd] by (simp add: z(2))
  obtain e where e: "skl_GetElementByRank S (z_skl z) (int (Suc (length xs1))) = Some e" "pos (z_skl z) e = length xs1"
    using GetElementByRank_pos [of "int (Suc (length xs1))" "z_skl z"] z(2) by auto
  have v: "skl_Value S (z_skl z) e = nd" using Value_pos [of "z_skl z" e] e(2) by (simp add: z(2))
  have upd: "?im |` (- encoded key ` set [n_member nd]) = ?im(?k := None)" by (auto simp: restrict_map_def)
  obtain c db' where d: "ZRem S A now key [n_member nd] db = ((c, None), db')" "db_rel A db' (zset_upd a key (?im(?k := None)))"
    "zset_ok elems key db' (zset_upd a key (?im(?k := None)))" "capacity (store db') valueTypeZSet n" "chan_room (store db') valueTypeZSet n'"
    using ZRem_rel [OF rel ok z(1), of "[n_member nd]" n n' now] room unfolding upd by auto
  obtain mu1 where m: "RW_Lock mu = Some mu1" "RW_Unlock mu1 = Inr mu" using mu lock_unlock by blast
  have "skl_Len S (z_skl z) = length (xs1 @ nd # xs2)" using Len_elems z(2) by simp
  then have "z_pop S A rank now key db mu = Some (Inr (Some (n_member nd), n_score nd), db', mu)"
    using z(1) m e(1) v r locked_free [OF mu, of "ZRem S A now key [n_member nd]" db] d(1) by (simp add: z_pop_def Let_def)
  moreover have "zset_nodes elems key db' = xs1 @ xs2"
  proof (rule strict_unique)
    have rep': "zset_rep key (?im(?k := None)) (zset_nodes elems key db')" using d(3) by (simp add: zset_ok_def)
    have key: "length key < 2 ^ 32" using ok by (simp add: zset_ok_def)
    show "sorted_wrt Less (zset_nodes elems key db')" using zset_repD(1) [OF rep'] .
    have st: "sorted_wrt Less (xs1 @ nd # xs2)" using zset_repD(1) [OF rep] z(2) by simp
    then show "sorted_wrt Less (xs1 @ xs2)" by (auto simp: sorted_wrt_append)
    have "x \<in> set (zset_nodes elems key db') \<longleftrightarrow> x \<in> set (xs1 @ nd # xs2) \<and> x \<noteq> nd" for x
      using zset_repD(3) [OF rep', of x] zset_repD(3) [OF rep, of x] sc z(2) z_score_upd(2) [OF key]
      by (metis fun_upd_apply node_eta option.inject option.distinct(1))
    then show "set (zset_nodes elems key db') = set (xs1 @ xs2)" using strict_distinct [OF st] by auto
  qed
  ultimately show ?thesis using d(2-5) by blast
qed

lemma zset_None:
  assumes "db_rel A db a"
  shows "zSetIndex db key = None \<longleftrightarrow> a_zset a key = None"
proof -
  have "rel_option (\<lambda>z. index_rel A (store db) valueTypeZSet (z_tree z)) (zSetIndex db key) (a_zset a key)"
    using assms by (simp add: db_rel_def)
  then show ?thesis by (cases "zSetIndex db key"; cases "a_zset a key") auto
qed

lemma zset_without_none:
  assumes "db_rel A db a" "zSetIndex db key \<noteq> None"
  shows "zset_without a key {} = a"
proof -
  obtain m where m: "a_zset a key = Some m" using assms(2) zset_None [OF assms(1), of key] by auto
  then have "(a_zset a)(key \<mapsto> m) = a_zset a" "m |` UNIV = m" by (auto simp: restrict_map_def)
  then show ?thesis using m by (simp add: zset_without_def zset_upd_def zset_of_def)
qed

lemma z_pops_rel:
  assumes pop: "\<And>xs. xs \<noteq> [] \<Longrightarrow> \<exists>xs1 xs2. xs = xs1 @ pick xs # xs2 \<and> rest xs = xs1 @ xs2 \<and> rank (length xs) = int (Suc (length xs1))"
    and mu: "RW_Lock mu \<noteq> None"
  shows "db_rel A db a \<Longrightarrow> zset_ok elems key db a \<Longrightarrow> zSetIndex db key \<noteq> None \<Longrightarrow> n \<le> length (zset_nodes elems key db) \<Longrightarrow>
    capacity (store db) valueTypeZSet n \<Longrightarrow> chan_room (store db) valueTypeZSet (2 * n) \<Longrightarrow>
    \<forall>nd \<in> set (zset_nodes elems key db). zrem_ok key [n_member nd] \<Longrightarrow>
    \<exists>db'. z_pops (z_pop S A rank now key) n db mu =
        Some (Inr (map pop_result (picks pick rest n (zset_nodes elems key db))), db', mu) \<and>
      db_rel A db' (zset_without a key (set (picks pick rest n (zset_nodes elems key db)))) \<and>
      zset_nodes elems key db' = (rest ^^ n) (zset_nodes elems key db)"
proof (induction n arbitrary: db a)
  case 0
  then show ?case using zset_without_none [OF 0(1)] by simp
next
  case (Suc n)
  let ?xs = "zset_nodes elems key db"
  have "?xs \<noteq> []" using Suc.prems(4) by auto
  then obtain xs1 xs2 where x: "?xs = xs1 @ pick ?xs # xs2" "rest ?xs = xs1 @ xs2" "rank (length ?xs) = int (Suc (length xs1))"
    using pop by blast
  have "pick ?xs \<in> set ?xs" using x(1) by (metis in_set_conv_decomp)
  then have zr: "zrem_ok key [n_member (pick ?xs)]" using Suc.prems(7) by blast
  have ch: "chan_room (store db) valueTypeZSet (2 + 2 * n)" using Suc.prems(6) by simp
  obtain db1 a1 where d: "z_pop S A rank now key db mu = Some (Inr (pop_result (pick ?xs)), db1, mu)"
    "a1 = zset_upd a key ((zset_of a key)(encoded key (n_member (pick ?xs)) := None))" "db_rel A db1 a1" "zset_ok elems key db1 a1"
    "zset_nodes elems key db1 = rest ?xs" "capacity (store db1) valueTypeZSet n" "chan_room (store db1) valueTypeZSet (2 * n)"
    using z_pop_rel [OF Suc.prems(1,2) x(1) _ mu Suc.prems(5) ch zr, of rank now] x by (auto simp: pop_result_def)
  have z1: "zSetIndex db1 key \<noteq> None" using zset_None [OF d(3), of key] by (simp add: d(2))
  have len: "n \<le> length (zset_nodes elems key db1)" using arg_cong [OF x(1), of length] Suc.prems(4) by (simp add: d(5) x(2))
  have "set (xs1 @ xs2) \<subseteq> set ?xs" by (subst x(1)) auto
  then have ok1: "\<forall>nd \<in> set (zset_nodes elems key db1). zrem_ok key [n_member nd]" using Suc.prems(7) by (auto simp: d(5) x(2))
  obtain db' where l: "z_pops (z_pop S A rank now key) n db1 mu = Some (Inr (map pop_result (picks pick rest n (rest ?xs))), db', mu)"
    "db_rel A db' (zset_without a1 key (set (picks pick rest n (rest ?xs))))" "zset_nodes elems key db' = (rest ^^ n) (rest ?xs)"
    using Suc.IH [OF d(3,4) z1 len d(6,7) ok1] unfolding d(5) by blast
  then show ?case
    using d(1) zset_without_insert [of a key "pick ?xs"] by (simp add: d(2) funpow_swap1)
qed

lemma pops_both:
  assumes rel: "db_rel A db a" and ok: "zset_ok elems key db a" and z: "zSetIndex db key \<noteq> None" and mu: "RW_Lock mu \<noteq> None"
    and n: "n \<le> length (zset_nodes elems key db)"
    and room: "capacity (store db) valueTypeZSet n" "chan_room (store db) valueTypeZSet (2 * n)"
      "\<forall>nd \<in> set (zset_nodes elems key db). zrem_ok key [n_member nd]"
  defines "xs \<equiv> zset_nodes elems key db"
  shows "\<exists>db'. z_pops (ZPopMin S A now key) n db mu = Some (Inr (map pop_result (take n xs)), db', mu) \<and>
      db_rel A db' (zset_without a key (set (take n xs))) \<and> zset_nodes elems key db' = drop n xs"
    "\<exists>db'. z_pops (ZPopMax S A now key) n db mu = Some (Inr (map pop_result (take n (rev xs))), db', mu) \<and>
      db_rel A db' (zset_without a key (set (take n (rev xs)))) \<and> zset_nodes elems key db' = take (length xs - n) xs"
proof -
  have "\<exists>xs1 xs2. xs = xs1 @ hd xs # xs2 \<and> tl xs = xs1 @ xs2 \<and> 1 = int (Suc (length xs1))" if "xs \<noteq> []" for xs :: "Node list"
    using that by (intro exI [of _ "[]"] exI [of _ "tl xs"]) simp
  moreover have "ZPopMin S A now key = z_pop S A (\<lambda>_. 1) now key" "ZPopMax S A now key = z_pop S A int now key"
    by (intro ext; simp add: ZPopMin_def ZPopMax_def)+
  moreover have "\<exists>xs1 xs2. xs = xs1 @ last xs # xs2 \<and> butlast xs = xs1 @ xs2 \<and> int (length xs) = int (Suc (length xs1))"
    if "xs \<noteq> []" for xs :: "Node list"
    using that by (intro exI [of _ "butlast xs"] exI [of _ "[]"]) simp
  ultimately show "\<exists>db'. z_pops (ZPopMin S A now key) n db mu = Some (Inr (map pop_result (take n xs)), db', mu) \<and>
      db_rel A db' (zset_without a key (set (take n xs))) \<and> zset_nodes elems key db' = drop n xs"
    "\<exists>db'. z_pops (ZPopMax S A now key) n db mu = Some (Inr (map pop_result (take n (rev xs))), db', mu) \<and>
      db_rel A db' (zset_without a key (set (take n (rev xs)))) \<and> zset_nodes elems key db' = take (length xs - n) xs"
    using z_pops_rel [of hd tl "\<lambda>_. 1", OF _ mu rel ok z n room, of now] z_pops_rel [of last butlast int, OF _ mu rel ok z n room, of now]
      picks_min [OF n] picks_max [OF n]
    unfolding xs_def by simp_all
qed

end

interpretation sample_zsets: zset_index rbt_art list_skl "\<lambda>s. s" "\<lambda>s e. e"
  by (intro zset_index.intro rbt_values.value_index_axioms node_list.skl_engine_axioms)

subsection \<open>A sample\<close>

definition sample_zdb :: "((bytes, Value_t) rbt, Node list) LazyDB" where
  "sample_zdb = new_db rbt_art (DefaultDBConfig []) (\<lambda>_. fresh_discard (8 * 2 ^ 20)) Map.empty"

text \<open>The number 1 and a member that has it as its score.\<close>

definition one_score :: f64 where
  "one_score = 0x3FF0000000000000"

definition one_node :: Node where
  "one_node = \<lparr>n_score = one_score, n_member = replicate 20 2\<rparr>"

lemma one_score_number: "\<not> f64_nan one_score"
  by (simp add: f64_nan_def f64_mag_def inf_mag_def one_score_def)

lemma sample_zdb_rel: "db_rel rbt_art sample_zdb empty_adb"
  unfolding sample_zdb_def by (rule rbt_values.new_db_rel) (simp_all add: DefaultDBConfig_def contents_def)

lemma sample_zdb_ready: "n \<le> 600 \<Longrightarrow> ready (store sample_zdb) vt n"
  by (simp add: ready_def capacity_def chan_room_def sample_zdb_def new_db_def active_def)

lemma sample_zdb_ok: "zset_ok (\<lambda>s. s) [1] sample_zdb empty_adb"
  by (simp add: zset_ok_def zset_of_def zset_nodes_def empty_adb_def sample_zdb_def new_db_def)

lemma sample_member:
  "length (encoded [1] (replicate 20 2)) < 2 ^ 32" "15 \<le> length (encoded [1] (replicate 20 2))" "encoded [1] (replicate 20 2) \<noteq> []"
proof -
  have "length (encoded [1] (replicate 20 2)) = length (PutVarint (word_of_nat 1)) + length (PutVarint (word_of_nat 20)) + 21"
    by (simp add: encoded_def)
  moreover have "length (PutVarint (word_of_nat 1)) \<le> 10" "length (PutVarint (word_of_nat 20)) \<le> 10"
    by (rule length_PutVarint_10)+
  ultimately show "length (encoded [1] (replicate 20 2)) < 2 ^ 32" "15 \<le> length (encoded [1] (replicate 20 2))"
    "encoded [1] (replicate 20 2) \<noteq> []"
    by (simp_all add: encoded_not_Nil)
qed

lemma sample_zadd_ok: "zadd_ok [1] [Float64ToByte one_score, replicate 20 2] (zset_of empty_adb [1])"
proof -
  have "roomy (mk_entry (encoded [1] (replicate 20 2)) (Some (Float64ToByte one_score)))"
    using sample_member by (intro roomy_mk) (simp_all add: bs_def)
  moreover have "z_free (z_score [1] Map.empty) (replicate 20 2) one_score"
    using one_score_number by (simp add: z_free_def z_score_def)
  ultimately show ?thesis by (simp add: zset_of_def empty_adb_def)
qed

lemma sample_zrem_ok: "zrem_ok [1] [replicate 20 2]"
  using roomy_del sample_member by (simp add: zrem_ok_def)

lemma sample_zset:
  "\<exists>db'. ZAdd list_skl rbt_art 0 [1] [Float64ToByte one_score, replicate 20 2] sample_zdb = (Inr (), db') \<and>
     (\<exists>a. db_rel rbt_art db' a \<and> zset_ok (\<lambda>s. s) [1] db' a \<and> dom (zset_of a [1]) = {encoded [1] (replicate 20 2)}) \<and>
     zset_nodes (\<lambda>s. s) [1] db' = [one_node] \<and> ready (store db') valueTypeZSet 9"
proof -
  let ?args = "[Float64ToByte one_score, replicate 20 2]" and ?k = "encoded [1] (replicate 20 2)"
  let ?im = "[?k \<mapsto> (Float64ToByte one_score, 0)] :: imap"
  have im: "zadd_items [1] ?args (zset_of empty_adb [1]) = ?im" by (simp add: zset_of_def empty_adb_def)
  obtain db' where d: "ZAdd list_skl rbt_art 0 [1] ?args sample_zdb = (Inr (), db')" "db_rel rbt_art db' (zset_upd empty_adb [1] ?im)"
    "zset_ok (\<lambda>s. s) [1] db' (zset_upd empty_adb [1] ?im)" "ready (store db') valueTypeZSet 9"
    using sample_zsets.ZAdd_rel [OF sample_zdb_rel sample_zdb_ok, of ?args 9 0] sample_zadd_ok sample_zdb_ready [of 10] unfolding im by auto
  have rep: "zset_rep [1] ?im (zset_nodes (\<lambda>s. s) [1] db')" using d(3) by (simp add: zset_ok_def)
  have "z_score [1] ?im = [replicate 20 2 \<mapsto> one_score]"
    using z_score_upd(1) [of "[1]" Map.empty "replicate 20 2" "Float64ToByte one_score" 0] by (simp add: z_score_def fun_eq_iff)
  then have "nd \<in> set (zset_nodes (\<lambda>s. s) [1] db') \<longleftrightarrow> nd = one_node" for nd
    using zset_repD(3) [OF rep, of nd] by (auto simp: one_node_def split: if_splits)
  then have "set (zset_nodes (\<lambda>s. s) [1] db') = set [one_node]" by auto
  then have "zset_nodes (\<lambda>s. s) [1] db' = [one_node]" by (rule strict_unique [OF zset_repD(1) [OF rep], rotated]) simp
  moreover have "dom (zset_of (zset_upd empty_adb [1] ?im) [1]) = {?k}" by simp
  ultimately show ?thesis using d by blast
qed

subsection \<open>Properties\<close>

text \<open>
  C13. ZAdd gives every listed member its score, the last one of a repeated member, and keeps
  the skip list in step with the index tree. Afterwards ZScore finds exactly the members of
  the set with their scores. No member may get the score of another member of the same length, whose
  node the skip list would confuse with its own, and the scores are numbers (not NaN).
\<close>

theorem ZAdd_refines:
  fixes db :: "('t, 's) LazyDB"
  assumes "art_engine A" "skl_engine S elems pos" and rel: "db_rel A db a" and ok: "zset_ok elems key db a"
    and args: "even (length args)" "args \<noteq> []" and room: "ready (store db) valueTypeZSet (length (items_of args))"
      "zadd_ok key args (zset_of a key)"
  shows "\<exists>db'. ZAdd S A now key args db = (Inr (), db') \<and> db_rel A db' (zset_upd a key (zadd_items key args (zset_of a key))) \<and>
    zset_ok elems key db' (zset_upd a key (zadd_items key args (zset_of a key))) \<and>
    (\<forall>m. length m < 2 ^ 32 \<longrightarrow> ZScore A now key m db' =
       (case z_score key (zadd_items key args (zset_of a key)) m of None \<Rightarrow> Inl ErrZSetMemberNotExist | Some f \<Rightarrow> Inr f))"
proof -
  note zi = zset_index.intro [OF value_index.intro [OF assms(1)] assms(2)]
  obtain db' where d: "ZAdd S A now key args db = (Inr (), db')" "db_rel A db' (zset_upd a key (zadd_items key args (zset_of a key)))"
    "zset_ok elems key db' (zset_upd a key (zadd_items key args (zset_of a key)))"
    using zset_index.ZAdd_rel [OF zi rel ok args, of 0] room by auto
  have "zSetIndex db' key \<noteq> None" using zset_index.zset_None [OF zi d(2), of key] by simp
  then obtain z where "zSetIndex db' key = Some z" by blast
  then show ?thesis using d zset_index.ZScore_rel [OF zi d(2,3)] by simp
qed

theorem ZAdd_refines_witness:
  "\<exists>db'. ZAdd list_skl rbt_art 0 [1] [Float64ToByte one_score, replicate 20 2] sample_zdb = (Inr (), db') \<and>
     ZScore rbt_art 0 [1] (replicate 20 2) db' = Inr one_score"
proof -
  let ?args = "[Float64ToByte one_score, replicate 20 2]"
  obtain db' where d: "ZAdd list_skl rbt_art 0 [1] ?args sample_zdb = (Inr (), db')"
    "\<forall>m. length m < 2 ^ 32 \<longrightarrow> ZScore rbt_art 0 [1] m db' =
       (case z_score [1] (zadd_items [1] ?args (zset_of empty_adb [1])) m of None \<Rightarrow> Inl ErrZSetMemberNotExist | Some f \<Rightarrow> Inr f)"
    using ZAdd_refines [OF art_engine_rbt node_list.skl_engine_axioms sample_zdb_rel sample_zdb_ok, of ?args 0]
      sample_zadd_ok sample_zdb_ready [of 1] by auto
  have "z_score [1] (zadd_items [1] ?args (zset_of empty_adb [1])) (replicate 20 2) = Some one_score"
    by (simp add: zset_of_def empty_adb_def z_score_def)
  then show ?thesis using d by simp
qed

text \<open>
  C24. The queries of a sorted set follow one order, by score and then by the length of the
  member: ZRank is the position of a member in it, ZRevRank its position from the end, ZCard
  its length; ZRange returns the members between two positions, ZRevRange and ZRevRangeWithScores the same members in
  reverse order: they take the positions from the lowest score, and not, as their comments say, from the
  highest, so \<open>ZRevRange 0 0\<close> is the member with the lowest score. The order is strict by
  assumption (\<open>zset_ok\<close>): no two members of the set have the same score and the same length, a case that the comments order
  lexicographically and the code does not order at all. The start position is not before the first member.
\<close>

theorem zset_order:
  fixes db :: "('t, 's) LazyDB"
  assumes "art_engine A" "skl_engine S elems pos" and rel: "db_rel A db a" and ok: "zset_ok elems key db a"
    and xs: "zset_nodes elems key db = xs" and small: "small_pos start" "small_pos stop" "int (length xs) < 2 ^ 62" "0 \<le> z_first xs start"
  shows "sorted_wrt Less xs \<and>
    (\<forall>i < length xs. length (n_member (xs ! i)) < 2 ^ 32 \<longrightarrow>
       ZScore A now key (n_member (xs ! i)) db = Inr (n_score (xs ! i)) \<and>
       ZRank S A now key (n_member (xs ! i)) db = Inr (int i) \<and>
       ZRevRank S A now key (n_member (xs ! i)) db = Inr (int (length xs) - 1 - int i) \<and> ZCard A key db = length xs) \<and>
    ZRange S key start stop db = Inr (map n_member (z_slice xs start stop)) \<and>
    ZRevRange S key start stop db = Inr (map n_member (rev (z_slice xs start stop))) \<and>
    ZRangeWithScores S key start stop db = Inr (map n_member (z_slice xs start stop), map n_score (z_slice xs start stop)) \<and>
    ZRevRangeWithScores S key start stop db =
      Inr (map n_member (rev (z_slice xs start stop)), map n_score (rev (z_slice xs start stop)))"
proof -
  note zi = zset_index.intro [OF value_index.intro [OF assms(1)] assms(2)]
  have st: "sorted_wrt Less xs" using ok zset_repD(1) unfolding zset_ok_def xs by blast
  have q: "ZRange S key start stop db = Inr (map n_member (z_slice xs start stop)) \<and>
      ZRevRange S key start stop db = Inr (map n_member (rev (z_slice xs start stop))) \<and>
      ZRangeWithScores S key start stop db = Inr (map n_member (z_slice xs start stop), map n_score (z_slice xs start stop)) \<and>
      ZRevRangeWithScores S key start stop db =
        Inr (map n_member (rev (z_slice xs start stop)), map n_score (rev (z_slice xs start stop)))"
  proof (cases "zSetIndex db key")
    case None
    then have "xs = []" using xs by (simp add: zset_nodes_def)
    then show ?thesis
      using None by (simp add: ZRange_def ZRevRange_def ZRangeWithScores_def ZRevRangeWithScores_def z_slice_def)
  next
    case (Some z)
    then have "xs = elems (z_skl z)" using xs by (simp add: zset_nodes_def)
    then show ?thesis
      using Some zset_index.z_range_slice [OF zi small(1,2), of "z_skl z"] small(3,4)
      by (simp add: ZRange_def ZRevRange_def ZRangeWithScores_def ZRevRangeWithScores_def rev_map)
  qed
  show ?thesis using st q zset_index.zset_at [OF zi rel ok] unfolding xs by blast
qed

theorem zset_order_witness:
  "\<exists>db'. ZAdd list_skl rbt_art 0 [1] [Float64ToByte one_score, replicate 20 2] sample_zdb = (Inr (), db') \<and>
     ZRange list_skl [1] 0 (- 1) db' = Inr [replicate 20 2] \<and> ZRank list_skl rbt_art 0 [1] (replicate 20 2) db' = Inr 0"
proof -
  obtain db' a where d: "ZAdd list_skl rbt_art 0 [1] [Float64ToByte one_score, replicate 20 2] sample_zdb = (Inr (), db')"
    "db_rel rbt_art db' a" "zset_ok (\<lambda>s. s) [1] db' a" "zset_nodes (\<lambda>s. s) [1] db' = [one_node]"
    using sample_zset by blast
  note o = zset_order [OF art_engine_rbt node_list.skl_engine_axioms d(2-4), of 0 "- 1" 0]
  have "z_slice [one_node] 0 (- 1) = [one_node]" by (simp add: z_slice_def z_first_def)
  then show ?thesis using o d(1) by (auto simp: small_pos_def z_first_def one_node_def)
qed

text \<open>
  C25. ZRem removes exactly the listed members from the sorted set and from its order, counts
  those that were there, and changes nothing else. The set may not have two members of the same length
  with the same score (\<open>zset_ok\<close>): the removal of one of those can take the other one out of the skip list.
\<close>

theorem ZRem_refines:
  fixes db :: "('t, 's) LazyDB"
  assumes "art_engine A" "skl_engine S elems pos" and rel: "db_rel A db a" and ok: "zset_ok elems key db a"
    and room: "capacity (store db) valueTypeZSet (length ms)" "chan_room (store db) valueTypeZSet (2 * length ms)" "zrem_ok key ms"
  shows "\<exists>db' im'. im' = zset_of a key |` (- encoded key ` set ms) \<and>
    ZRem S A now key ms db = ((card (dom (zset_of a key) \<inter> encoded key ` set ms), None), db') \<and>
    db_rel A db' (if a_zset a key = None then a else zset_upd a key im') \<and>
    zset_ok elems key db' (if a_zset a key = None then a else zset_upd a key im')"
proof -
  note zi = zset_index.intro [OF value_index.intro [OF assms(1)] assms(2)]
  show ?thesis
  proof (cases "zSetIndex db key")
    case None
    then have "a_zset a key = None" using zset_index.zset_None [OF zi rel] by blast
    then show ?thesis using None rel ok by (simp add: ZRem_def zset_of_def)
  next
    case (Some z)
    then have "a_zset a key \<noteq> None" using zset_index.zset_None [OF zi rel, of key] by simp
    then show ?thesis using zset_index.ZRem_rel [OF zi rel ok Some, of ms 0 0 now] room by auto
  qed
qed

theorem ZRem_refines_witness:
  "\<exists>db db'. ZAdd list_skl rbt_art 0 [1] [Float64ToByte one_score, replicate 20 2] sample_zdb = (Inr (), db) \<and>
     ZRem list_skl rbt_art 0 [1] [replicate 20 2] db = ((1, None), db')"
proof -
  obtain db a where d: "ZAdd list_skl rbt_art 0 [1] [Float64ToByte one_score, replicate 20 2] sample_zdb = (Inr (), db)"
    "db_rel rbt_art db a" "zset_ok (\<lambda>s. s) [1] db a" "dom (zset_of a [1]) = {encoded [1] (replicate 20 2)}" "ready (store db) valueTypeZSet 9"
    using sample_zset by blast
  have "capacity (store db) valueTypeZSet (length [replicate 20 2 :: bytes])" "chan_room (store db) valueTypeZSet (2 * length [replicate 20 2 :: bytes])"
    using d(5) capacity_le [of "store db" valueTypeZSet 9 1] chan_room_le [of "store db" valueTypeZSet 9 2] by (simp_all add: ready_def)
  from ZRem_refines [OF art_engine_rbt node_list.skl_engine_axioms d(2,3) this sample_zrem_ok, of 0]
  show ?thesis using d(1,4) by auto
qed

text \<open>
  C26. ZPopMinWithCount and ZPopMaxWithCount return and remove the members with the lowest and
  with the highest scores, as many as asked for or all of them, in this order; they release
  the mutex of the sorted sets that they find free. As for ZRem, through which they remove, the set may not have two
  members of the same length with the same score (\<open>zset_ok\<close>).
\<close>

theorem ZPop_refines:
  fixes db :: "('t, 's) LazyDB"
  assumes "art_engine A" "skl_engine S elems pos" and rel: "db_rel A db a" and ok: "zset_ok elems key db a"
    and z: "a_zset a key \<noteq> None" and mu: "RW_Lock mu \<noteq> None" and xs: "zset_nodes elems key db = xs"
    and n: "n = nat (min k (int (length xs)))"
    and room: "capacity (store db) valueTypeZSet n" "chan_room (store db) valueTypeZSet (2 * n)" "\<forall>nd \<in> set xs. zrem_ok key [n_member nd]"
  shows "\<exists>db1 db2. ZPopMinWithCount S A now key k db mu = Some (Inr (map pop_result (take n xs)), db1, mu) \<and>
    db_rel A db1 (zset_without a key (set (take n xs))) \<and> zset_nodes elems key db1 = drop n xs \<and>
    ZPopMaxWithCount S A now key k db mu = Some (Inr (map pop_result (take n (rev xs))), db2, mu) \<and>
    db_rel A db2 (zset_without a key (set (take n (rev xs)))) \<and> zset_nodes elems key db2 = take (length xs - n) xs"
proof -
  note zi = zset_index.intro [OF value_index.intro [OF assms(1)] assms(2)]
  have z': "zSetIndex db key \<noteq> None" using zset_index.zset_None [OF zi rel, of key] z by simp
  then obtain idx where idx: "zSetIndex db key = Some idx" "elems (z_skl idx) = xs" using xs by (auto simp: zset_nodes_def)
  have len: "nat (Min_int k (int (skl_Len S (z_skl idx)))) = n"
    using skl_engine.Len_elems [OF assms(2)] idx(2) n by (simp add: Min_int_def min_def)
  obtain mu1 where m: "RW_Lock mu = Some mu1" "RW_Unlock mu1 = Inr mu" using mu lock_unlock by blast
  have "ZPopMinWithCount S A now key k db mu = z_pops (ZPopMin S A now key) n db mu"
    "ZPopMaxWithCount S A now key k db mu = z_pops (ZPopMax S A now key) n db mu"
    using idx(1) m len by (simp_all add: ZPopMinWithCount_def ZPopMaxWithCount_def z_pop_count_def)
  moreover have "n \<le> length (zset_nodes elems key db)" using n xs by simp
  ultimately show ?thesis
    using zset_index.pops_both [OF zi rel ok z' mu, of n now] room unfolding xs by metis
qed

theorem ZPop_refines_witness:
  "\<exists>db db'. ZAdd list_skl rbt_art 0 [1] [Float64ToByte one_score, replicate 20 2] sample_zdb = (Inr (), db) \<and>
     ZPopMinWithCount list_skl rbt_art 0 [1] 5 db \<lparr>writer = False, readers = 0\<rparr> =
       Some (Inr [(Some (replicate 20 2), one_score)], db', \<lparr>writer = False, readers = 0\<rparr>) \<and>
     zset_nodes (\<lambda>s. s) [1] db' = []"
proof -
  let ?mu = "\<lparr>writer = False, readers = 0\<rparr>"
  obtain db a where d: "ZAdd list_skl rbt_art 0 [1] [Float64ToByte one_score, replicate 20 2] sample_zdb = (Inr (), db)"
    "db_rel rbt_art db a" "zset_ok (\<lambda>s. s) [1] db a" "dom (zset_of a [1]) = {encoded [1] (replicate 20 2)}" "ready (store db) valueTypeZSet 9"
    "zset_nodes (\<lambda>s. s) [1] db = [one_node]"
    using sample_zset by blast
  have "a_zset a [1] \<noteq> None" using d(4) by (cases "a_zset a [1]") (simp_all add: zset_of_def)
  moreover have "RW_Lock ?mu \<noteq> None" by (simp add: RW_Lock_def)
  moreover have "capacity (store db) valueTypeZSet 1" "chan_room (store db) valueTypeZSet (2 * 1)"
    using d(5) capacity_le [of "store db" valueTypeZSet 9 1] chan_room_le [of "store db" valueTypeZSet 9 2] by (simp_all add: ready_def)
  moreover have "\<forall>nd \<in> set [one_node]. zrem_ok [1] [n_member nd]" using sample_zrem_ok by (simp add: one_node_def)
  ultimately show ?thesis
    using ZPop_refines [OF art_engine_rbt node_list.skl_engine_axioms d(2,3) _ _ d(6), of ?mu 1 5 0] d(1)
    by (auto simp: pop_result_def one_node_def)
qed

text \<open>
  C33. Popping from a set that does not exist or is empty leaves the mutex of the sorted sets
  locked: every later command that takes it, on any sorted set, blocks forever.
\<close>

theorem ZPop_locks:
  assumes "RW_Lock mu = Some mu1" "zSetIndex db key = None \<or> zSetIndex db key = Some idx \<and> skl_Len S (z_skl idx) = 0"
  shows "ZPopMax S A now key db mu = Some (Inr (None, 0), db, mu1) \<and> ZPopMin S A now key db mu = Some (Inr (None, 0), db, mu1) \<and>
    locked (ZAdd S A now' key' args) db' mu1 = None \<and> locked (ZRem S A now' key' ms) db' mu1 = None \<and>
    ZPopMax S A now' key' db' mu1 = None"
proof -
  have "writer mu1" using assms(1) by (auto simp: RW_Lock_def split: if_splits)
  then have "RW_Lock mu1 = None" by (simp add: RW_Lock_def)
  then show ?thesis using assms by (auto simp: ZPopMax_def ZPopMin_def z_pop_def locked_def)
qed

theorem ZPop_locks_witness:
  "\<exists>mu1. ZPopMax list_skl rbt_art 0 [7] sample_zdb \<lparr>writer = False, readers = 0\<rparr> = Some (Inr (None, 0), sample_zdb, mu1) \<and>
     locked (ZAdd list_skl rbt_art 0 [1] [Float64ToByte one_score, [2]]) sample_zdb mu1 = None"
proof -
  have "RW_Lock \<lparr>writer = False, readers = 0\<rparr> = Some \<lparr>writer = True, readers = 0\<rparr>" by (simp add: RW_Lock_def)
  moreover have "zSetIndex sample_zdb [7] = None" by (simp add: sample_zdb_def new_db_def)
  ultimately show ?thesis using ZPop_locks [where db' = sample_zdb and key' = "[1]" and now' = 0] by blast
qed

text \<open>
  C36. Less does not tell apart two members with the same score and the same length, so the skip
  list cannot: of two such members there is one whose removal leaves it in the list and takes
  the other one out.
\<close>

theorem ties_confused:
  assumes eng: "skl_engine S elems pos" and s: "ascending (elems s)" "distinct (elems s)"
    and xy: "x \<in> set (elems s)" "y \<in> set (elems s)" "x \<noteq> y"
    and tie: "n_score x = n_score y" "length (n_member x) = length (n_member y)"
  shows "\<exists>v \<in> {x, y}. v \<in> set (elems (skl_Delete S s v)) \<and> length (elems s) = Suc (length (elems (skl_Delete S s v)))"
proof -
  have num: "\<not> f64_nan (n_score x)" "\<not> f64_nan (n_score y)" using s(1) xy by (auto simp: ascending_def numbers_def)
  have "same_rank x y" using same_rank_iff [OF num] tie by simp
  then have same: "skl_Delete S s x = skl_Delete S s y" using skl_engine.Delete_by_order [OF eng num] by blast
  obtain xs z ys where d: "elems s = xs @ z # ys" "elems (skl_Delete S s x) = xs @ ys"
    using skl_engine.elems_Delete [OF eng s(1) num(1) xy(1)] by auto
  then consider "x \<in> set (xs @ ys)" | "y \<in> set (xs @ ys)" using xy by auto
  then show ?thesis using d same by cases auto
qed

theorem ties_confused_witness:
  "\<exists>v \<in> {\<lparr>n_score = one_score, n_member = [1]\<rparr>, \<lparr>n_score = one_score, n_member = [2]\<rparr>}.
     v \<in> set (skl_Delete list_skl [\<lparr>n_score = one_score, n_member = [1]\<rparr>, \<lparr>n_score = one_score, n_member = [2]\<rparr>] v)"
proof -
  let ?x = "\<lparr>n_score = one_score, n_member = [1]\<rparr>" and ?y = "\<lparr>n_score = one_score, n_member = [2]\<rparr>"
  have "ascending [?x, ?y]" using one_score_number by (simp add: ascending_def Less_iff)
  from ties_confused [OF node_list.skl_engine_axioms this, of ?x ?y] show ?thesis by auto
qed

end
