(* ===== verification/Commands.thy ===== *)
theory Commands
  imports Hash_Ops List_Ops Set_Ops ZSet_Ops Discard_Spec
begin

text \<open>
  The commands of the five data types as one interface. \<open>exec\<close> runs a command on the database;
  \<open>spec_step\<close> says what the command means on plain values: strings with their expiry time, maps,
  lists, sets and scores, with no log, no index and no hash. Where the answer of the database
  depends on the hash of the members, any order is allowed. The simulation: the answers of the
  database to a sequence of commands are answers that the specification allows.
\<close>

subsection \<open>Commands and answers\<close>

datatype (plugins only: code size) command =
    CSet bytes slice | CSetEX bytes slice int | CSetNX bytes slice | CMSet "bytes list"
  | CDelete bytes | CGetDel bytes | CGet bytes
  | CAppend bytes slice | CIncrBy bytes i64 | CExpire bytes int int | CPersist bytes
  | CTTL bytes | CStrLen bytes | CMGet "bytes list" | CGetRange bytes int int | CStrsKeys | CCount
  | CHSet bytes "bytes list" | CHDel bytes "bytes list" | CHGet bytes bytes
  | CHSetNX bytes bytes slice | CHExists bytes bytes | CHMGet bytes "bytes list"
  | CHLen bytes | CHKeys bytes | CHVals bytes | CHGetAll bytes
  | CLPush bytes "bytes list" | CRPush bytes "bytes list" | CLPop bytes | CRPop bytes
  | CLLen bytes | CLRange bytes int int
  | CLPushX bytes "bytes list" | CRPushX bytes "bytes list" | CLSet bytes int slice | CLIndex bytes int
  | CLMove bytes bytes bool bool
  | CSAdd bytes "bytes list" | CSRem bytes "bytes list" | CSPop bytes nat | CSIsMember bytes bytes | CSMembers bytes
  | CZAdd bytes "bytes list" | CZRem bytes "bytes list" | CZScore bytes bytes | CZRange bytes int int
  | CZCard bytes | CZRank bytes bytes | CZRevRank bytes bytes
  | Listen valueType

datatype reply =
    RUnit "unit result" | RSlice "slice result" | RSlices "slice list result" | RNum "nat \<times> err option"
  | RLen "nat result" | RBool bool | RScore "f64 result" | RMembers "bytes list result"
  | RInt "i64 result" | RPos "int result" | RFlag "bool result"

text \<open>One value taken from the channel of a discard table.\<close>

definition listen :: "valueType \<Rightarrow> Store \<Rightarrow> unit result \<times> Store" where
  "listen vt st =
     (case listenUpdate_step (discardsMap st vt) of
        None \<Rightarrow> (Inr (), st)
      | Some (r, d) \<Rightarrow> (r, st\<lparr>discardsMap := (discardsMap st)(vt := d)\<rparr>))"

fun exec ::
    "('s, 'e) skl \<Rightarrow> 'h mur3 \<Rightarrow> ('t, Value_t) art \<Rightarrow> int \<Rightarrow> command \<Rightarrow> ('t, 's) LazyDB \<times> 'h
       \<Rightarrow> reply \<times> ('t, 's) LazyDB \<times> 'h" where
  "exec S M A now (CSet k x) (db, h) = (case Set A k x db of (r, db') \<Rightarrow> (RUnit r, db', h))"
| "exec S M A now (CSetEX k x d) (db, h) = (case SetEX A now k x d db of (r, db') \<Rightarrow> (RUnit r, db', h))"
| "exec S M A now (CSetNX k x) (db, h) = (case SetNX A now k x db of (r, db') \<Rightarrow> (RUnit r, db', h))"
| "exec S M A now (CMSet args) (db, h) = (case MSet A args db of (r, db') \<Rightarrow> (RUnit r, db', h))"
| "exec S M A now (CDelete k) (db, h) = (case Delete A k db of (r, db') \<Rightarrow> (RUnit r, db', h))"
| "exec S M A now (CGetDel k) (db, h) = (case GetDel A now k db of (r, db') \<Rightarrow> (RSlice r, db', h))"
| "exec S M A now (CGet k) (db, h) = (RSlice (Get A now k db), db, h)"
| "exec S M A now (CAppend k x) (db, h) = (case Append A now k x db of (r, db') \<Rightarrow> (RUnit r, db', h))"
| "exec S M A now (CIncrBy k n) (db, h) = (case IncrBy A now k n db of (r, db') \<Rightarrow> (RInt r, db', h))"
| "exec S M A now (CExpire k d now') (db, h) = (case Expire A now now' k d db of (r, db') \<Rightarrow> (RUnit r, db', h))"
| "exec S M A now (CPersist k) (db, h) = (case Persist A now k db of (r, db') \<Rightarrow> (RUnit r, db', h))"
| "exec S M A now (CTTL k) (db, h) = (RInt (TTL A now k db), db, h)"
| "exec S M A now (CStrLen k) (db, h) = (RLen (StrLen A now k db), db, h)"
| "exec S M A now (CMGet ks) (db, h) = (RSlices (MGet A now ks db), db, h)"
| "exec S M A now (CGetRange k i j) (db, h) = (RSlice (GetRange A now k i j db), db, h)"
| "exec S M A now CStrsKeys (db, h) = (RMembers (GetStrsKeys A now db), db, h)"
| "exec S M A now CCount (db, h) = (RLen (Inr (Count A db)), db, h)"
| "exec S M A now (CHSetNX key f x) (db, h) = (case HSetNX A now key f x db of (r, db') \<Rightarrow> (RUnit r, db', h))"
| "exec S M A now (CHExists key f) (db, h) = (RFlag (HExists A now key f db), db, h)"
| "exec S M A now (CHMGet key fs) (db, h) = (RSlices (HMGet A now key fs db), db, h)"
| "exec S M A now (CHLen key) (db, h) = (RLen (Inr (HLen A key db)), db, h)"
| "exec S M A now (CHKeys key) (db, h) = (RMembers (HKeys A key db), db, h)"
| "exec S M A now (CHVals key) (db, h) = (RSlices (HVals A now key db), db, h)"
| "exec S M A now (CHGetAll key) (db, h) = (RSlices (HGetAll A now key db), db, h)"
| "exec S M A now (CLPushX key args) (db, h) = (case LPushX A now key args db of (r, db') \<Rightarrow> (RUnit r, db', h))"
| "exec S M A now (CRPushX key args) (db, h) = (case RPushX A now key args db of (r, db') \<Rightarrow> (RUnit r, db', h))"
| "exec S M A now (CLSet key i x) (db, h) = (case LSet A now key i x db of (r, db') \<Rightarrow> (RUnit r, db', h))"
| "exec S M A now (CLIndex key i) (db, h) = (RSlice (LIndex A now key i db), db, h)"
| "exec S M A now (CLMove src dst sl dl) (db, h) = (case LMove A now src dst sl dl db of (r, db') \<Rightarrow> (RSlice r, db', h))"
| "exec S M A now (CZCard key) (db, h) = (RLen (Inr (ZCard A key db)), db, h)"
| "exec S M A now (CZRank key m) (db, h) = (RPos (ZRank S A now key m db), db, h)"
| "exec S M A now (CZRevRank key m) (db, h) = (RPos (ZRevRank S A now key m db), db, h)"
| "exec S M A now (CHSet key args) (db, h) = (case HSet A key args db of (r, db') \<Rightarrow> (RUnit r, db', h))"
| "exec S M A now (CHDel key fs) (db, h) = (case HDel A key fs db of (r, db') \<Rightarrow> (RNum r, db', h))"
| "exec S M A now (CHGet key f) (db, h) = (RSlice (HGet A now key f db), db, h)"
| "exec S M A now (CLPush key args) (db, h) = (case LPush A now key args db of (r, db') \<Rightarrow> (RUnit r, db', h))"
| "exec S M A now (CRPush key args) (db, h) = (case RPush A now key args db of (r, db') \<Rightarrow> (RUnit r, db', h))"
| "exec S M A now (CLPop key) (db, h) = (case LPop A now key db of (r, db') \<Rightarrow> (RSlice r, db', h))"
| "exec S M A now (CRPop key) (db, h) = (case RPop A now key db of (r, db') \<Rightarrow> (RSlice r, db', h))"
| "exec S M A now (CLLen key) (db, h) = (RLen (LLen A now key db), db, h)"
| "exec S M A now (CLRange key i j) (db, h) = (RSlices (LRange A now key i j db), db, h)"
| "exec S M A now (CSAdd key ms) (db, h) = (case SAdd M A key ms h db of (r, h', db') \<Rightarrow> (RUnit r, db', h'))"
| "exec S M A now (CSRem key ms) (db, h) = (case SRem M A key ms h db of (r, h', db') \<Rightarrow> (RUnit r, db', h'))"
| "exec S M A now (CSPop key n) (db, h) = (case SPop M A now key n h db of (r, h', db') \<Rightarrow> (RSlices r, db', h'))"
| "exec S M A now (CSIsMember key m) (db, h) = (case SIsMember M A key m h db of (r, h') \<Rightarrow> (RBool r, db, h'))"
| "exec S M A now (CSMembers key) (db, h) = (RSlices (SMembers A now key db), db, h)"
| "exec S M A now (CZAdd key args) (db, h) = (case ZAdd S A now key args db of (r, db') \<Rightarrow> (RUnit r, db', h))"
| "exec S M A now (CZRem key ms) (db, h) = (case ZRem S A now key ms db of (r, db') \<Rightarrow> (RNum r, db', h))"
| "exec S M A now (CZScore key m) (db, h) = (RScore (ZScore A now key m db), db, h)"
| "exec S M A now (CZRange key i j) (db, h) = (RMembers (ZRange S key i j db), db, h)"
| "exec S M A now (Listen vt) (db, h) = (case listen vt (store db) of (r, st) \<Rightarrow> (RUnit r, db\<lparr>store := st\<rparr>, h))"

fun exec_all ::
    "('s, 'e) skl \<Rightarrow> 'h mur3 \<Rightarrow> ('t, Value_t) art \<Rightarrow> (int \<times> command) list \<Rightarrow> ('t, 's) LazyDB \<times> 'h
       \<Rightarrow> reply list \<times> ('t, 's) LazyDB \<times> 'h" where
  "exec_all S M A [] s = ([], s)"
| "exec_all S M A ((now, c) # cs) s =
     (case exec S M A now c s of (r, s1) \<Rightarrow> (case exec_all S M A cs s1 of (rs, s2) \<Rightarrow> (r # rs, s2)))"

subsection \<open>What the commands mean\<close>

text \<open>
  \<open>l_head\<close> is the place of a list in the space of its \<open>2 ^ 32\<close> sequence numbers, which bounds how
  far it can grow to the left and to the right. A list without elements does not exist, while a sorted set
  stays when its last member is removed: \<open>z_keys\<close> has the keys of the sorted sets that exist, which \<open>ZScore\<close>, \<open>ZRank\<close>
  and \<open>ZRevRank\<close> tell apart.
\<close>

record vdb =
  strs :: imap
  hashes :: "bytes \<Rightarrow> bytes \<Rightarrow> bytes option"
  l_head :: "bytes \<Rightarrow> u32"
  l_items :: "bytes \<Rightarrow> bytes list"
  members :: "bytes \<Rightarrow> bytes set"
  scores :: "bytes \<Rightarrow> bytes \<Rightarrow> f64 option"
  z_keys :: "bytes set"

definition empty_vdb :: vdb where
  "empty_vdb = \<lparr>strs = Map.empty, hashes = (\<lambda>_. Map.empty), l_head = (\<lambda>_. initialListSeq), l_items = (\<lambda>_. []),
     members = (\<lambda>_. {}), scores = (\<lambda>_. Map.empty), z_keys = {}\<rparr>"

definition pairs :: "bytes list \<Rightarrow> (bytes \<times> bytes) list" where
  "pairs args = map (\<lambda>x. (fst x, fst (snd x))) (items_of args)"

fun zadd_scores :: "bytes list \<Rightarrow> (bytes \<Rightarrow> f64 option) \<Rightarrow> bytes \<Rightarrow> f64 option" where
  "zadd_scores (score # member # args) sc =
     zadd_scores args (sc(member := (case ByteToFloat64 score of Inl e \<Rightarrow> None | Inr f \<Rightarrow> Some f)))"
| "zadd_scores _ sc = sc"

text \<open>The members of a sorted set in their order.\<close>

definition ranking :: "(bytes \<Rightarrow> f64 option) \<Rightarrow> Node list \<Rightarrow> bool" where
  "ranking sc xs \<longleftrightarrow> sorted_wrt Less xs \<and> (\<forall>nd. nd \<in> set xs \<longleftrightarrow> sc (n_member nd) = Some (n_score nd))"

definition set_strs :: "imap \<Rightarrow> vdb \<Rightarrow> vdb" where "set_strs m v = v\<lparr>strs := m\<rparr>"
definition set_hash :: "bytes \<Rightarrow> (bytes \<Rightarrow> bytes option) \<Rightarrow> vdb \<Rightarrow> vdb" where
  "set_hash key m v = v\<lparr>hashes := (hashes v)(key := m)\<rparr>"
definition set_items :: "bytes \<Rightarrow> u32 \<Rightarrow> bytes list \<Rightarrow> vdb \<Rightarrow> vdb" where
  "set_items key sq xs v = v\<lparr>l_head := (l_head v)(key := sq), l_items := (l_items v)(key := xs)\<rparr>"
definition set_members :: "bytes \<Rightarrow> bytes set \<Rightarrow> vdb \<Rightarrow> vdb" where
  "set_members key X v = v\<lparr>members := (members v)(key := X)\<rparr>"
definition set_scores :: "bytes \<Rightarrow> (bytes \<Rightarrow> f64 option) \<Rightarrow> vdb \<Rightarrow> vdb" where
  "set_scores key m v = v\<lparr>scores := (scores v)(key := m), z_keys := insert key (z_keys v)\<rparr>"

lemmas vdb_upd_defs = set_strs_def set_hash_def set_items_def set_members_def set_scores_def

text \<open>The text that \<open>IncrBy\<close> parses, and the value that \<open>Append\<close> writes.\<close>

definition counter :: "i64 \<Rightarrow> imap \<Rightarrow> bytes \<Rightarrow> bytes" where
  "counter ts m k = (let w = bs (found ts m k) in if w = [] then str ''0'' else w)"

definition in_int64 :: "int \<Rightarrow> bool" where
  "in_int64 i \<longleftrightarrow> - (2 ^ 63) \<le> i \<and> i < 2 ^ 63"

definition appended :: "slice \<Rightarrow> slice \<Rightarrow> slice" where
  "appended old x = (case old of None \<Rightarrow> x | Some w \<Rightarrow> Some (w @ bs x))"

text \<open>Adding an element at an end of a list.\<close>

definition push_items :: "bytes \<Rightarrow> bytes \<Rightarrow> bool \<Rightarrow> vdb \<Rightarrow> vdb" where
  "push_items key x isLeft v =
     (if isLeft then set_items key (l_head v key - 1) (x # l_items v key) v
      else set_items key (l_head v key) (l_items v key @ [x]) v)"

inductive spec_step :: "int \<Rightarrow> command \<Rightarrow> vdb \<Rightarrow> reply \<Rightarrow> vdb \<Rightarrow> bool" for now where
  set: "spec_step now (CSet k x) v (RUnit (Inr ())) (set_strs ((strs v)(k \<mapsto> (bs x, 0))) v)"
| setEX: "spec_step now (CSetEX k x d) v (RUnit (Inr ())) (set_strs ((strs v)(k \<mapsto> (bs x, Unix (now + d)))) v)"
| setNX: "spec_step now (CSetNX k x) v (RUnit (Inr ()))
    (if found (Unix now) (strs v) k = None then set_strs ((strs v)(k \<mapsto> (bs x, 0))) v else v)"
| mset: "spec_step now (CMSet args) v (RUnit (Inr ())) (set_strs (strs v ++ map_of (rev (items_of args))) v)"
    if "args \<noteq> []" "even (length args)"
| mset_bad: "spec_step now (CMSet args) v (RUnit (Inl ErrInvalidParam)) v" if "args = [] \<or> odd (length args)"
| delete: "spec_step now (CDelete k) v (RUnit (Inr ())) (set_strs ((strs v)(k := None)) v)"
| getDel: "spec_step now (CGetDel k) v (RSlice (Inr (found (Unix now) (strs v) k)))
    (if found (Unix now) (strs v) k = None then v else set_strs ((strs v)(k := None)) v)"
| get: "spec_step now (CGet k) v (RSlice (lookup_item (Unix now) (strs v) k)) v"
| append: "spec_step now (CAppend k x) v (RUnit (Inr ()))
    (set_strs ((strs v)(k \<mapsto> (bs (found (Unix now) (strs v) k) @ bs x, 0))) v)"
| incrBy: "spec_step now (CIncrBy k n) v (RInt (Inr (y + n))) (set_strs ((strs v)(k \<mapsto> (FormatInt (y + n), 0))) v)"
    if "ParseInt (counter (Unix now) (strs v) k) = Some y" "in_int64 (sint y + sint n)"
| incrBy_over: "spec_step now (CIncrBy k n) v (RInt (Inl ErrIntegerOverFlow)) v"
    if "ParseInt (counter (Unix now) (strs v) k) = Some y" "\<not> in_int64 (sint y + sint n)"
| incrBy_bad: "spec_step now (CIncrBy k n) v (RInt (Inl ErrWrongValueType)) v" if "ParseInt (counter (Unix now) (strs v) k) = None"
| expire: "spec_step now (CExpire k d now') v (RUnit (Inr ())) (set_strs ((strs v)(k \<mapsto> (w, Unix (now' + d)))) v)"
    if "0 < d" "found (Unix now) (strs v) k = Some w"
| expire_none: "spec_step now (CExpire k d now') v (RUnit (Inl ErrKeyNotFound)) v" if "0 < d" "found (Unix now) (strs v) k = None"
| expire_zero: "spec_step now (CExpire k d now') v (RUnit (Inr ())) v" if "d \<le> 0"
| persist: "spec_step now (CPersist k) v (RUnit (Inr ())) (set_strs ((strs v)(k \<mapsto> (w, 0))) v)" if "found (Unix now) (strs v) k = Some w"
| persist_none: "spec_step now (CPersist k) v (RUnit (Inl ErrKeyNotFound)) v" if "found (Unix now) (strs v) k = None"
| ttl: "spec_step now (CTTL k) v (RInt (Inr (if e \<noteq> 0 then e - Unix now else 0))) v" if "strs v k = Some (w, e)"
| ttl_none: "spec_step now (CTTL k) v (RInt (Inl ErrKeyNotFound)) v" if "strs v k = None"
| strLen: "spec_step now (CStrLen k) v (RLen (Inr (length (bs (found (Unix now) (strs v) k))))) v"
| mget: "spec_step now (CMGet ks) v (RSlices (Inr (map (found (Unix now) (strs v)) ks))) v" if "ks \<noteq> []"
| mget_bad: "spec_step now (CMGet []) v (RSlices (Inl ErrInvalidParam)) v"
| getRange: "spec_step now (CGetRange k i j) v (RSlice (Inr (Some (map ((!) w) [nat s..<nat (e + 1)])))) v"
    if "found (Unix now) (strs v) k = Some w" "s = max 0 (pos_of (length w) i)" "e = min (int (length w) - 1) (max 0 (pos_of (length w) j))"
| getRange_none: "spec_step now (CGetRange k i j) v (RSlice (Inl ErrKeyNotFound)) v" if "found (Unix now) (strs v) k = None"
| strsKeys: "spec_step now CStrsKeys v (RMembers (Inr ks)) v"
    if "sorted ks" "distinct ks" "set ks = {k. \<exists>w e. strs v k = Some (w, e) \<and> (e = 0 \<or> sint (Unix now) < sint e)}"
| count: "spec_step now CCount v (RLen (Inr (card (dom (strs v))))) v"
| hset: "spec_step now (CHSet key args) v (RUnit (Inr ())) (set_hash key (hashes v key ++ map_of (rev (pairs args))) v)"
    if "args \<noteq> []" "even (length args)"
| hset_none: "spec_step now (CHSet key []) v (RUnit (Inr ())) v"
| hset_bad: "spec_step now (CHSet key args) v (RUnit (Inl ErrInvalidParam)) v" if "odd (length args)"
| hdel: "spec_step now (CHDel key fs) v (RNum (card {f \<in> set fs. hashes v key f \<noteq> None}, None))
    (set_hash key (hashes v key |` (- set fs)) v)"
| hget: "spec_step now (CHGet key f) v (RSlice (Inr (hashes v key f))) v"
| hsetNX: "spec_step now (CHSetNX key f x) v (RUnit (Inr ()))
    (if hashes v key f = None then set_hash key ((hashes v key)(f \<mapsto> bs x)) v else v)"
| hexists: "spec_step now (CHExists key f) v (RFlag (Inr (hashes v key f \<noteq> None))) v"
| hmget: "spec_step now (CHMGet key fs) v (RSlices (Inr (filter (\<lambda>x. x \<noteq> None) (map (hashes v key) fs)))) v"
| hlen: "spec_step now (CHLen key) v (RLen (Inr (card (dom (hashes v key))))) v"
| hkeys: "spec_step now (CHKeys key) v (RMembers (Inr fs)) v" if "distinct fs" "set fs = dom (hashes v key)"
| hvals: "spec_step now (CHVals key) v (RSlices (Inr (map (hashes v key) fs))) v" if "distinct fs" "set fs = dom (hashes v key)"
| hgetAll: "spec_step now (CHGetAll key) v (RSlices (Inr (concat (map (\<lambda>f. [Some f, hashes v key f]) fs)))) v"
    if "distinct fs" "set fs = dom (hashes v key)"
| lpush: "spec_step now (CLPush key args) v (RUnit (Inr ()))
    (set_items key (l_head v key - word_of_nat (length args)) (rev args @ l_items v key) v)"
| rpush: "spec_step now (CRPush key args) v (RUnit (Inr ())) (set_items key (l_head v key) (l_items v key @ args) v)"
| lpop_none: "spec_step now (CLPop key) v (RSlice (Inr None)) v" if "l_items v key = []"
| lpop: "spec_step now (CLPop key) v (RSlice (Inr (Some x)))
    (set_items key (if xs = [] then initialListSeq else l_head v key + 1) xs v)" if "l_items v key = x # xs"
| rpop_none: "spec_step now (CRPop key) v (RSlice (Inr None)) v" if "l_items v key = []"
| rpop: "spec_step now (CRPop key) v (RSlice (Inr (Some x)))
    (set_items key (if xs = [] then initialListSeq else l_head v key) xs v)" if "l_items v key = xs @ [x]"
| llen: "spec_step now (CLLen key) v (RLen (Inr (length (l_items v key)))) v"
| lrange: "spec_step now (CLRange key i j) v (RSlices (Inr (map (\<lambda>i. Some (xs ! i)) [nat (max 0 s)..<nat (min (int (length xs) - 1) e + 1)]))) v"
    if "l_items v key = xs" "s = pos_of (length xs) i" "e = pos_of (length xs) j" "s \<le> e" "s < int (length xs)" "0 \<le> e"
| lrange_bad: "spec_step now (CLRange key i j) v (RSlices (Inl ErrWrongIndex)) v"
    if "l_items v key \<noteq> []" "s = pos_of (length (l_items v key)) i" "e = pos_of (length (l_items v key)) j" "e < s \<or> int (length (l_items v key)) \<le> s \<or> e < 0"
| lrange_none: "spec_step now (CLRange key i j) v (RSlices (Inl ErrKeyNotFound)) v" if "l_items v key = []"
| lpushX: "spec_step now (CLPushX key args) v (RUnit (Inr ()))
    (set_items key (l_head v key - word_of_nat (length args)) (rev args @ l_items v key) v)" if "args = [] \<or> l_items v key \<noteq> []"
| lpushX_none: "spec_step now (CLPushX key args) v (RUnit (Inl ErrKeyNotFound)) v" if "args \<noteq> []" "l_items v key = []"
| rpushX: "spec_step now (CRPushX key args) v (RUnit (Inr ())) (set_items key (l_head v key) (l_items v key @ args) v)"
    if "args = [] \<or> l_items v key \<noteq> []"
| rpushX_none: "spec_step now (CRPushX key args) v (RUnit (Inl ErrKeyNotFound)) v" if "args \<noteq> []" "l_items v key = []"
| lset: "spec_step now (CLSet key i x) v (RUnit (Inr ())) (set_items key (l_head v key) ((l_items v key)[nat p := bs x]) v)"
    if "p = pos_of (length (l_items v key)) i" "0 \<le> p" "p < int (length (l_items v key))"
| lset_bad: "spec_step now (CLSet key i x) v (RUnit (Inl ErrWrongIndex)) v"
    if "l_items v key \<noteq> []" "p = pos_of (length (l_items v key)) i" "p < 0 \<or> int (length (l_items v key)) \<le> p"
| lset_none: "spec_step now (CLSet key i x) v (RUnit (Inl ErrKeyNotFound)) v" if "l_items v key = []"
| lindex: "spec_step now (CLIndex key i) v (RSlice (Inr (Some (l_items v key ! nat p)))) v"
    if "p = pos_of (length (l_items v key)) i" "0 \<le> p" "p < int (length (l_items v key))"
| lindex_bad: "spec_step now (CLIndex key i) v (RSlice (Inl ErrWrongIndex)) v"
    if "l_items v key \<noteq> []" "p = pos_of (length (l_items v key)) i" "p < 0 \<or> int (length (l_items v key)) \<le> p"
| lindex_none: "spec_step now (CLIndex key i) v (RSlice (Inl ErrKeyNotFound)) v" if "l_items v key = []"
| lmove: "spec_step now (CLMove src dst sl dl) v (RSlice (Inr (Some x))) (push_items dst x dl v')"
    if "spec_step now (if sl then CLPop src else CRPop src) v (RSlice (Inr (Some x))) v'"
| lmove_none: "spec_step now (CLMove src dst sl dl) v (RSlice (Inr None)) v" if "l_items v src = []"
| sadd: "spec_step now (CSAdd key ms) v (RUnit (Inr ())) (set_members key (members v key \<union> (set ms - {[]})) v)"
| srem: "spec_step now (CSRem key ms) v (RUnit (Inr ())) (set_members key (members v key - set ms) v)"
| spop: "spec_step now (CSPop key n) v (RSlices (Inr (map Some xs))) (set_members key (members v key - set xs) v)"
    if "distinct xs" "set xs \<subseteq> members v key" "length xs = min n (card (members v key))"
| sismember: "spec_step now (CSIsMember key m) v (RBool (m \<in> members v key)) v"
| smembers: "spec_step now (CSMembers key) v (RSlices (Inr (map Some xs))) v" if "distinct xs" "set xs = members v key"
| zadd: "spec_step now (CZAdd key args) v (RUnit (Inr ())) (set_scores key (zadd_scores args (scores v key)) v)"
    if "args \<noteq> []" "even (length args)"
| zadd_none: "spec_step now (CZAdd key []) v (RUnit (Inr ())) v"
| zadd_bad: "spec_step now (CZAdd key args) v (RUnit (Inl ErrInvalidParam)) v" if "odd (length args)"
| zrem: "spec_step now (CZRem key ms) v (RNum (card {m \<in> set ms. scores v key m \<noteq> None}, None))
    (if key \<in> z_keys v then set_scores key (scores v key |` (- set ms)) v else v)"
| zscore: "spec_step now (CZScore key m) v (RScore (Inr f)) v" if "scores v key m = Some f"
| zscore_none: "spec_step now (CZScore key m) v (RScore (Inl ErrZSetMemberNotExist)) v" if "key \<in> z_keys v" "scores v key m = None"
| zscore_nokey: "spec_step now (CZScore key m) v (RScore (Inl ErrZSetKeyNotExist)) v" if "key \<notin> z_keys v"
| zrange: "spec_step now (CZRange key i j) v (RMembers (Inr (map n_member (z_slice xs i j)))) v" if "ranking (scores v key) xs"
| zcard: "spec_step now (CZCard key) v (RLen (Inr (card (dom (scores v key))))) v"
| zrank: "spec_step now (CZRank key (n_member (xs ! i))) v (RPos (Inr (int i))) v" if "ranking (scores v key) xs" "i < length xs"
| zrevrank: "spec_step now (CZRevRank key (n_member (xs ! i))) v (RPos (Inr (int (length xs) - 1 - int i))) v"
    if "ranking (scores v key) xs" "i < length xs"
| zrank_none: "spec_step now c v (RPos (Inl ErrZSetMemberNotExist)) v"
    if "c \<in> {CZRank key m, CZRevRank key m}" "key \<in> z_keys v" "scores v key m = None"
| zrank_nokey: "spec_step now c v (RPos (Inl ErrZSetKeyNotExist)) v" if "c \<in> {CZRank key m, CZRevRank key m}" "key \<notin> z_keys v"
| listen: "spec_step now (Listen vt) v (RUnit (Inr ())) v"

inductive spec_run :: "(int \<times> command) list \<Rightarrow> vdb \<Rightarrow> reply list \<Rightarrow> vdb \<Rightarrow> bool" where
  nil: "spec_run [] v [] v"
| cons: "spec_step now c v r v1 \<Longrightarrow> spec_run cs v1 rs v2 \<Longrightarrow> spec_run ((now, c) # cs) v (r # rs) v2"

subsection \<open>When a command finds room\<close>

fun zargs_ok :: "bytes \<Rightarrow> bytes list \<Rightarrow> (bytes \<Rightarrow> f64 option) \<Rightarrow> bool" where
  "zargs_ok key (score # member # args) sc \<longleftrightarrow>
     length member < 2 ^ 32 \<and> roomy (mk_entry (encoded key member) (Some score)) \<and>
     (case ByteToFloat64 score of Inl e \<Rightarrow> False | Inr f \<Rightarrow> z_free sc member f \<and> zargs_ok key args (sc(member \<mapsto> f)))"
| "zargs_ok key _ sc \<longleftrightarrow> True"

text \<open>
  The conditions under which a command does not fail for lack of space: the entries fit into a
  log file, the log and the channel have room, sequence numbers do not run out; and those under which the code
  does what the command means: the hash separates the members of a set, and scores and lengths
  separate the members of a sorted set.
\<close>

fun admissible :: "(bytes \<Rightarrow> u64 \<times> u64) \<Rightarrow> int \<Rightarrow> command \<Rightarrow> vdb \<Rightarrow> ('t, 's) LazyDB \<Rightarrow> bool" where
  "admissible h now (CSet k x) v db \<longleftrightarrow>
     put_ok (store db) valueTypeString (mk_entry k x) \<and> chan_room (store db) valueTypeString 1"
| "admissible h now (CSetEX k x d) v db \<longleftrightarrow>
     put_ok (store db) valueTypeString ((mk_entry k x)\<lparr>ExpiredAt := Unix (now + d)\<rparr>) \<and> chan_room (store db) valueTypeString 1"
| "admissible h now (CSetNX k x) v db \<longleftrightarrow>
     put_ok (store db) valueTypeString (mk_entry k x) \<and> chan_room (store db) valueTypeString 1"
| "admissible h now (CMSet args) v db \<longleftrightarrow>
     roomy_args args \<and> ready (store db) valueTypeString (length (items_of args))"
| "admissible h now (CDelete k) v db \<longleftrightarrow>
     put_ok (store db) valueTypeString (del_entry k) \<and> chan_room (store db) valueTypeString 2"
| "admissible h now (CGetDel k) v db \<longleftrightarrow>
     put_ok (store db) valueTypeString (del_entry k) \<and> chan_room (store db) valueTypeString 2"
| "admissible h now (CAppend k x) v db \<longleftrightarrow>
     put_ok (store db) valueTypeString (mk_entry k (appended (found (Unix now) (strs v) k) x)) \<and> chan_room (store db) valueTypeString 1"
| "admissible h now (CIncrBy k n) v db \<longleftrightarrow>
     (\<forall>y. ParseInt (counter (Unix now) (strs v) k) = Some y \<longrightarrow> put_ok (store db) valueTypeString (mk_entry k (Some (FormatInt (y + n))))) \<and>
     chan_room (store db) valueTypeString 1"
| "admissible h now (CExpire k d now') v db \<longleftrightarrow>
     (\<forall>w. found (Unix now) (strs v) k = Some w \<longrightarrow>
        put_ok (store db) valueTypeString ((mk_entry k (Some w))\<lparr>ExpiredAt := Unix (now' + d)\<rparr>)) \<and>
     chan_room (store db) valueTypeString 1"
| "admissible h now (CPersist k) v db \<longleftrightarrow>
     (\<forall>w. found (Unix now) (strs v) k = Some w \<longrightarrow> put_ok (store db) valueTypeString (mk_entry k (Some w))) \<and>
     chan_room (store db) valueTypeString 1"
| "admissible h now (CHSetNX key f x) v db \<longleftrightarrow>
     length key < 2 ^ 32 \<and> length f < 2 ^ 32 \<and> roomy (mk_entry (encoded key f) x) \<and> capacity (store db) valueTypeHash 1"
| "admissible h now (CHExists key f) v db \<longleftrightarrow> length key < 2 ^ 32 \<and> length f < 2 ^ 32"
| "admissible h now (CHMGet key fs) v db \<longleftrightarrow> length key < 2 ^ 32 \<and> (\<forall>f \<in> set fs. length f < 2 ^ 32)"
| "admissible h now (CHLen key) v db \<longleftrightarrow> length key < 2 ^ 32"
| "admissible h now (CHKeys key) v db \<longleftrightarrow> length key < 2 ^ 32"
| "admissible h now (CHVals key) v db \<longleftrightarrow> length key < 2 ^ 32"
| "admissible h now (CHGetAll key) v db \<longleftrightarrow> length key < 2 ^ 32"
| "admissible h now (CLPushX key args) v db \<longleftrightarrow>
     list_key_ok key \<and> (\<forall>x \<in> set args. length x < 2 ^ 32) \<and> length args \<le> unat (l_head v key) \<and>
     capacity (store db) valueTypeList (2 * length args)"
| "admissible h now (CRPushX key args) v db \<longleftrightarrow>
     list_key_ok key \<and> (\<forall>x \<in> set args. length x < 2 ^ 32) \<and>
     unat (l_head v key) + length (l_items v key) + length args + 1 < 2 ^ 32 \<and> capacity (store db) valueTypeList (2 * length args)"
| "admissible h now (CLSet key i x) v db \<longleftrightarrow>
     list_key_ok key \<and> length (bs x) < 2 ^ 32 \<and> seq_ok (l_head v key) (length (l_items v key)) i \<and> capacity (store db) valueTypeList 1"
| "admissible h now (CLIndex key i) v db \<longleftrightarrow> seq_ok (l_head v key) (length (l_items v key)) i"
| "admissible h now (CLMove src dst sl dl) v db \<longleftrightarrow>
     list_key_ok src \<and> list_key_ok dst \<and> (\<forall>x \<in> set (l_items v src). length x < 2 ^ 32) \<and>
     0 < unat (l_head v dst) \<and> unat (l_head v dst) + length (l_items v dst) + 2 < 2 ^ 32 \<and>
     capacity (store db) valueTypeList 5"
| "admissible h now (CZCard key) v db \<longleftrightarrow> length key < 2 ^ 32"
| "admissible h now (CZRank key m) v db \<longleftrightarrow> length key < 2 ^ 32 \<and> length m < 2 ^ 32"
| "admissible h now (CZRevRank key m) v db \<longleftrightarrow> length key < 2 ^ 32 \<and> length m < 2 ^ 32"
| "admissible h now (CHSet key args) v db \<longleftrightarrow>
     hset_ok key args \<and> capacity (store db) valueTypeHash (length (items_of args))"
| "admissible h now (CHDel key fs) v db \<longleftrightarrow>
     hfields_ok key fs \<and> capacity (store db) valueTypeHash (length fs) \<and> chan_room (store db) valueTypeHash (2 * length fs)"
| "admissible h now (CHGet key f) v db \<longleftrightarrow> length key < 2 ^ 32 \<and> length f < 2 ^ 32"
| "admissible h now (CLPush key args) v db \<longleftrightarrow>
     list_key_ok key \<and> (\<forall>x \<in> set args. length x < 2 ^ 32) \<and> length args \<le> unat (l_head v key) \<and>
     capacity (store db) valueTypeList (2 * length args)"
| "admissible h now (CRPush key args) v db \<longleftrightarrow>
     list_key_ok key \<and> (\<forall>x \<in> set args. length x < 2 ^ 32) \<and>
     unat (l_head v key) + length (l_items v key) + length args + 1 < 2 ^ 32 \<and> capacity (store db) valueTypeList (2 * length args)"
| "admissible h now (CLPop key) v db \<longleftrightarrow> list_key_ok key \<and> capacity (store db) valueTypeList 3"
| "admissible h now (CRPop key) v db \<longleftrightarrow> list_key_ok key \<and> capacity (store db) valueTypeList 3"
| "admissible h now (CLRange key i j) v db \<longleftrightarrow>
     seq_ok (l_head v key) (length (l_items v key)) i \<and> seq_ok (l_head v key) (length (l_items v key)) j"
| "admissible h now (CSAdd key ms) v db \<longleftrightarrow>
     adds_ok key ms \<and> inj_on h (members v key \<union> set ms) \<and> capacity (store db) valueTypeSet (length ms)"
| "admissible h now (CSRem key ms) v db \<longleftrightarrow>
     rems_ok (sum_key h) key ms \<and> inj_on h (members v key \<union> set ms) \<and> capacity (store db) valueTypeSet (length ms) \<and>
     chan_room (store db) valueTypeSet (2 * length ms)"
| "admissible h now (CSPop key n) v db \<longleftrightarrow>
     (\<forall>m \<in> members v key. roomy (srem_entry key (sum_key h m))) \<and> inj_on h (members v key) \<and>
     capacity (store db) valueTypeSet n \<and> chan_room (store db) valueTypeSet (2 * n)"
| "admissible h now (CSIsMember key m) v db \<longleftrightarrow> inj_on h (insert m (members v key))"
| "admissible h now (CSMembers key) v db \<longleftrightarrow> inj_on h (members v key)"
| "admissible h now (CZAdd key args) v db \<longleftrightarrow>
     length key < 2 ^ 32 \<and> zargs_ok key args (scores v key) \<and> ready (store db) valueTypeZSet (length (items_of args))"
| "admissible h now (CZRem key ms) v db \<longleftrightarrow>
     length key < 2 ^ 32 \<and> zrem_ok key ms \<and> capacity (store db) valueTypeZSet (length ms) \<and>
     chan_room (store db) valueTypeZSet (2 * length ms)"
| "admissible h now (CZScore key m) v db \<longleftrightarrow> length key < 2 ^ 32 \<and> length m < 2 ^ 32"
| "admissible h now (CZRange key i j) v db \<longleftrightarrow>
     length key < 2 ^ 32 \<and> small_pos i \<and> small_pos j \<and>
     (let n = int (card (dom (scores v key))) in n < 2 ^ 62 \<and> - n \<le> i)"
| "admissible h now (Listen vt) v db \<longleftrightarrow>
     (case valChan (discardsMap (store db) vt) of [] \<Rightarrow> True | x # _ \<Rightarrow> location (discardsMap (store db) vt) (v_fid x) \<noteq> None)"
| "admissible h now _ v db \<longleftrightarrow> True"

text \<open>
  What a command costs: the type on which it works, the entries that it may write and the messages that it may
  send.
\<close>

fun cost :: "command \<Rightarrow> valueType \<times> nat \<times> nat" where
  "cost (CSet k x) = (valueTypeString, 1, 1)"
| "cost (CSetEX k x d) = (valueTypeString, 1, 1)"
| "cost (CSetNX k x) = (valueTypeString, 1, 1)"
| "cost (CMSet args) = (valueTypeString, length (items_of args), length (items_of args))"
| "cost (CDelete k) = (valueTypeString, 1, 2)"
| "cost (CGetDel k) = (valueTypeString, 1, 2)"
| "cost (CAppend k x) = (valueTypeString, 1, 1)"
| "cost (CIncrBy k n) = (valueTypeString, 1, 1)"
| "cost (CExpire k d now') = (valueTypeString, 1, 1)"
| "cost (CPersist k) = (valueTypeString, 1, 1)"
| "cost (CHSetNX key f x) = (valueTypeHash, 1, 0)"
| "cost (CLPushX key args) = (valueTypeList, 2 * length args, 0)"
| "cost (CRPushX key args) = (valueTypeList, 2 * length args, 0)"
| "cost (CLSet key i x) = (valueTypeList, 1, 0)"
| "cost (CLMove src dst sl dl) = (valueTypeList, 5, 0)"
| "cost (CHSet key args) = (valueTypeHash, length (items_of args), 0)"
| "cost (CHDel key fs) = (valueTypeHash, length fs, 2 * length fs)"
| "cost (CLPush key args) = (valueTypeList, 2 * length args, 0)"
| "cost (CRPush key args) = (valueTypeList, 2 * length args, 0)"
| "cost (CLPop key) = (valueTypeList, 3, 0)"
| "cost (CRPop key) = (valueTypeList, 3, 0)"
| "cost (CSAdd key ms) = (valueTypeSet, length ms, 0)"
| "cost (CSRem key ms) = (valueTypeSet, length ms, 2 * length ms)"
| "cost (CSPop key n) = (valueTypeSet, n, 2 * n)"
| "cost (CZAdd key args) = (valueTypeZSet, length (items_of args), length (items_of args))"
| "cost (CZRem key ms) = (valueTypeZSet, length ms, 2 * length ms)"
| "cost (Listen vt) = (vt, 0, 0)"
| "cost _ = (valueTypeString, 0, 0)"

definition paid :: "command \<Rightarrow> Store \<Rightarrow> Store \<Rightarrow> bool" where
  "paid c st st' \<longleftrightarrow> (case cost c of (vt, n, m) \<Rightarrow> spends vt n m st st')"

lemma paid_same [simp]: "paid c st st"
  by (simp add: paid_def split: prod.split)

lemma paidI: "cost c = (vt, n, m) \<Longrightarrow> spends vt n m st st' \<Longrightarrow> paid c st st'"
  by (simp add: paid_def)

text \<open>Each command of a sequence finds room, whatever the specification has answered before.\<close>

fun admitted ::
    "('s, 'e) skl \<Rightarrow> 'h mur3 \<Rightarrow> ('t, Value_t) art \<Rightarrow> (bytes \<Rightarrow> u64 \<times> u64) \<Rightarrow> (int \<times> command) list \<Rightarrow> vdb
       \<Rightarrow> ('t, 's) LazyDB \<times> 'h \<Rightarrow> bool" where
  "admitted S M A h [] v s \<longleftrightarrow> True"
| "admitted S M A h ((now, c) # cs) v s \<longleftrightarrow> admissible h now c v (fst s) \<and>
     (\<forall>v'. spec_step now c v (fst (exec S M A now c s)) v' \<longrightarrow> admitted S M A h cs v' (snd (exec S M A now c s)))"

subsection \<open>The relation\<close>

definition views :: "(bytes \<Rightarrow> bytes) \<Rightarrow> ('s \<Rightarrow> Node list) \<Rightarrow> ('t, 's) LazyDB \<Rightarrow> adb \<Rightarrow> vdb \<Rightarrow> bool" where
  "views K elems db a v \<longleftrightarrow> a_str a = strs v \<and>
     (\<forall>key f. hash_of a key (encoded key f) = map_option (\<lambda>x. (x, 0)) (hashes v key f)) \<and>
     (\<forall>key. dom (hash_of a key) \<subseteq> range (encoded key)) \<and>
     (\<forall>key. list_live key (a_list a key) (l_head v key) (l_items v key)) \<and> z_keys v = dom (a_zset a) \<and>
     (\<forall>key. set_rep K (set_of a key) (members v key)) \<and>
     (\<forall>key. length key < 2 ^ 32 \<longrightarrow> zset_ok elems key db a \<and> z_score key (zset_of a key) = scores v key)"

lemma viewsD:
  assumes "views K elems db a v"
  shows "a_str a = strs v" "hash_of a key (encoded key f) = map_option (\<lambda>x. (x, 0)) (hashes v key f)"
    "list_rep key (a_list a key) (l_head v key) (l_items v key)" "set_rep K (set_of a key) (members v key)"
    "length key < 2 ^ 32 \<Longrightarrow> zset_ok elems key db a" "length key < 2 ^ 32 \<Longrightarrow> z_score key (zset_of a key) = scores v key"
    "dom (hash_of a key) \<subseteq> range (encoded key)" "a_list a key = None \<longleftrightarrow> l_items v key = []" "z_keys v = dom (a_zset a)"
  using assms by (auto simp: views_def list_live_def)

lemma zset_ok_frame: "zSetIndex db' key = zSetIndex db key \<Longrightarrow> a_zset a' key = a_zset a key \<Longrightarrow> zset_ok elems key db' a' = zset_ok elems key db a"
  by (simp add: zset_ok_def zset_nodes_def zset_of_def)

lemma views_same: "views K elems db a v \<Longrightarrow> zSetIndex db' = zSetIndex db \<Longrightarrow> views K elems db' a v"
  using zset_ok_frame [of db' _ db a a elems] by (simp add: views_def)

lemma views_strs:
  assumes "views K elems db a v" "zSetIndex db' = zSetIndex db" "a' = a\<lparr>a_str := m\<rparr>"
  shows "views K elems db' a' (set_strs m v)"
  using assms zset_ok_frame [of db' _ db a' a elems] by (simp add: views_def set_strs_def hash_of_def set_of_def zset_of_def)

lemma views_hash:
  assumes "views K elems db a v" "zSetIndex db' = zSetIndex db" "\<And>f. im (encoded key f) = map_option (\<lambda>x. (x, 0)) (m f)" "dom im \<subseteq> range (encoded key)"
  shows "views K elems db' (hash_upd a key im) (set_hash key m v)"
  using assms zset_ok_frame [of db' _ db "hash_upd a key im" a elems]
  by (simp add: views_def set_hash_def hash_of_def set_of_def zset_of_def hash_upd_def)

lemma views_list:
  assumes "views K elems db a v" "zSetIndex db' = zSetIndex db" "list_live key mo sq xs"
  shows "views K elems db' (list_upd a key mo) (set_items key sq xs v)"
  using assms zset_ok_frame [of db' _ db "list_upd a key mo" a elems]
  by (simp add: views_def set_items_def hash_of_def set_of_def zset_of_def list_upd_def)

lemma views_set:
  assumes "views K elems db a v" "zSetIndex db' = zSetIndex db" "set_rep K im X"
  shows "views K elems db' (set_upd a key im) (set_members key X v)"
  using assms zset_ok_frame [of db' _ db "set_upd a key im" a elems]
  by (simp add: views_def set_members_def hash_of_def set_of_def zset_of_def set_upd_def)

lemma views_zset:
  assumes "views K elems db a v" "\<And>k. k \<noteq> key \<Longrightarrow> zSetIndex db' k = zSetIndex db k"
    "zset_ok elems key db' (zset_upd a key im)" "z_score key im = sc"
  shows "views K elems db' (zset_upd a key im) (set_scores key sc v)"
proof -
  have "zset_ok elems k db' (zset_upd a key im) = zset_ok elems k db a" if "k \<noteq> key" for k
    using that assms(2) by (intro zset_ok_frame) simp_all
  moreover have "hash_of (zset_upd a key im) = hash_of a" "set_of (zset_upd a key im) = set_of a"
    "a_list (zset_upd a key im) = a_list a" "a_str (zset_upd a key im) = a_str a" "dom (a_zset (zset_upd a key im)) = insert key (dom (a_zset a))"
    by (simp_all add: zset_upd_def hash_of_def set_of_def fun_eq_iff)
  ultimately show ?thesis using assms(1,3,4) by (auto simp: views_def set_scores_def)
qed

text \<open>Updates that change nothing.\<close>

lemma vdb_upd_id:
  "strs v = m \<Longrightarrow> set_strs m v = v" "hashes v key = hm \<Longrightarrow> set_hash key hm v = v" "members v key = X \<Longrightarrow> set_members key X v = v"
  "l_head v key = sq \<Longrightarrow> l_items v key = xs \<Longrightarrow> set_items key sq xs v = v" "scores v key = sc \<Longrightarrow> key \<in> z_keys v \<Longrightarrow> set_scores key sc v = v"
  by (auto simp: vdb_upd_defs insert_absorb)

subsection \<open>Commands change only their own index\<close>

lemma str_frame:
  "str_put A e db = (r, db') \<Longrightarrow> zSetIndex db' = zSetIndex db" "str_del A k db = (r', db') \<Longrightarrow> zSetIndex db' = zSetIndex db"
  by (auto simp: str_put_def str_del_def split: prod.splits)

lemma MSet_frame: "MSet_loop A args db = (r, db') \<Longrightarrow> zSetIndex db' = zSetIndex db"
  by (induction A args db arbitrary: r db' rule: MSet_loop.induct) (auto split: prod.splits sum.splits dest: str_frame)

lemma hash_frame:
  "HSet A key args db = (r, db') \<Longrightarrow> zSetIndex db' = zSetIndex db" "HDel A key fs db = (r', db') \<Longrightarrow> zSetIndex db' = zSetIndex db"
  by (auto simp: HSet_def HDel_def split: prod.splits if_splits option.splits)

lemma push_frame: "push A now key x l db = (r, db') \<Longrightarrow> zSetIndex db' = zSetIndex db"
  by (auto simp: push_def set_list_def Let_def split: prod.splits if_splits option.splits sum.splits)

lemma push_all_frame: "push_all A now key args l db = (r, db') \<Longrightarrow> zSetIndex db' = zSetIndex db"
  by (induction args arbitrary: db) (auto split: prod.splits sum.splits dest: push_frame)

lemma list_make_frame [simp]: "zSetIndex (list_make A key db) = zSetIndex db"
  by (simp add: list_make_def)

lemma set_frame:
  "SAdd M A key ms h db = (r, h', db') \<Longrightarrow> zSetIndex db' = zSetIndex db" "SRem M A key ms h db = (r, h', db') \<Longrightarrow> zSetIndex db' = zSetIndex db"
  "SPop M A now key n h db = (r', h', db') \<Longrightarrow> zSetIndex db' = zSetIndex db"
  by (auto simp: SAdd_def SRem_def SPop_def split: prod.splits if_splits option.splits sum.splits)

lemma zset_frame:
  "ZAdd S A now key args db = (r, db') \<Longrightarrow> k \<noteq> key \<Longrightarrow> zSetIndex db' k = zSetIndex db k"
  "ZRem S A now key ms db = (r', db') \<Longrightarrow> k \<noteq> key \<Longrightarrow> zSetIndex db' k = zSetIndex db k"
  by (auto simp: ZAdd_def ZRem_def split: prod.splits if_splits option.splits)

lemma pop_frame: "pop A now key l db = (r, db') \<Longrightarrow> zSetIndex db' = zSetIndex db"
  by (auto simp: pop_def set_list_def Let_def split: prod.splits if_splits option.splits sum.splits)

subsection \<open>Facts about the values\<close>

lemma card_encoded:
  assumes "length key < 2 ^ 32" "\<And>f. P f \<longleftrightarrow> encoded key f \<in> dom m"
  shows "card (dom m \<inter> encoded key ` X) = card {f \<in> X. P f}"
proof -
  have "dom m \<inter> encoded key ` X = encoded key ` {f \<in> X. P f}" using assms(2) by auto
  moreover have "inj_on (encoded key) X'" for X' using encoded_inj [OF assms(1,1)] by (auto simp: inj_on_def)
  ultimately show ?thesis by (simp add: card_image)
qed

lemma restrict_encoded:
  assumes "length key < 2 ^ 32"
  shows "(m |` (- encoded key ` X)) (encoded key f) = (if f \<in> X then None else m (encoded key f))"
  using encoded_inj [OF assms assms] by (auto simp: restrict_map_def)

lemma z_score_restrict:
  assumes "length key < 2 ^ 32"
  shows "z_score key (im |` (- encoded key ` X)) = z_score key im |` (- X)"
proof (rule ext)
  fix m show "z_score key (im |` (- encoded key ` X)) m = (z_score key im |` (- X)) m"
    by (cases "m \<in> X") (simp_all add: z_score_def restrict_encoded [OF assms])
qed

lemma hset_view:
  assumes "length key < 2 ^ 32" "\<And>f. im (encoded key f) = map_option (\<lambda>x. (x, 0)) (m f)"
  shows "(im ++ map_of (rev (hitems key args))) (encoded key f) = map_option (\<lambda>x. (x, 0)) ((m ++ map_of (rev (pairs args))) f)"
proof -
  have item: "snd (snd x) = 0" if "x \<in> set (items_of args)" for x
    using that by (induction args rule: items_of.induct) auto
  have e: "map_of (map (\<lambda>(f, x). (encoded key f, x)) xs) (encoded key f) =
      map_option (\<lambda>x. (x, 0)) (map_of (map (\<lambda>x. (fst x, fst (snd x))) xs) f)" if "\<forall>x \<in> set xs. snd (snd x) = 0" for xs
    using that encoded_inj [OF assms(1,1)] by (induction xs) auto
  have "map_of (rev (hitems key args)) (encoded key f) = map_option (\<lambda>x. (x, 0)) (map_of (rev (pairs args)) f)"
    using e [of "rev (items_of args)"] item by (simp add: hitems_def pairs_def rev_map)
  then show ?thesis using assms(2) [of f] by (simp add: map_add_def split: option.split)
qed

lemma zadd_view:
  assumes "length key < 2 ^ 32"
  shows "z_score key (zadd_items key args im) = zadd_scores args (z_score key im)"
    "zargs_ok key args (z_score key im) \<Longrightarrow> zadd_ok key args im"
  using assms by (induction key args im rule: zadd_items.induct) (auto simp: z_score_upd split: sum.splits)

lemma ranking_card:
  assumes "ranking sc xs"
  shows "length xs = card (dom sc)"
proof -
  have nd: "x \<in> set xs \<longleftrightarrow> sc (n_member x) = Some (n_score x)" for x using assms by (simp add: ranking_def)
  have "n_member ` set xs = dom sc"
  proof (intro set_eqI iffI)
    fix m assume "m \<in> dom sc"
    then obtain f where "sc m = Some f" by blast
    then show "m \<in> n_member ` set xs" using nd [of "\<lparr>n_score = f, n_member = m\<rparr>"] by force
  qed (use nd in auto)
  moreover have "inj_on n_member (set xs)"
    using nd by (intro inj_onI) (metis Node.equality old.unit.exhaust option.inject)
  moreover have "distinct xs" using assms strict_distinct by (auto simp: ranking_def)
  ultimately show ?thesis by (metis card_image distinct_card)
qed

subsection \<open>Emptying a channel\<close>

lemma incrDiscard_known:
  assumes ok: "discard_ok d" and loc: "fid \<in> dom (location d)"
  shows "\<exists>d'. incrDiscard d fid delta = (Inr (), d') \<and> discard_ok d' \<and> same_chan d d' \<and>
    dom (location d') = dom (location d) \<and> length (freeList d') = length (freeList d)"
proof (cases "0 < delta")
  case True
  obtain d' where d: "incrDiscard d fid delta = (Inr (), d')" "discard_wf d'" "same_chan d d'" "recorded d'"
    "dom (disc_tab d') = insert fid (dom (disc_tab d))"
    using incrDiscard_tab [OF _ _ True, of d fid] ok loc by (auto simp: discard_ok_def)
  have e: "dom (disc_tab x) = dom (location x)" for x by (auto simp: disc_tab_def)
  then have "dom (disc_tab d') = dom (disc_tab d)" using d(5) loc by auto
  then show ?thesis using d wf_room [OF d(2)] wf_room [of d] ok e by (auto simp: discard_ok_def)
next
  case False
  then show ?thesis using ok by (simp add: incrDiscard_def)
qed

lemma listen_ok:
  assumes ok: "discard_ok (discardsMap st vt)"
    and loc: "valChan (discardsMap st vt) \<noteq> [] \<longrightarrow> v_fid (hd (valChan (discardsMap st vt))) \<in> dom (location (discardsMap st vt))"
  shows "\<exists>d. listen vt st = (Inr (), st\<lparr>discardsMap := (discardsMap st)(vt := d)\<rparr>) \<and> discard_ok d \<and>
    valChan d = tl (valChan (discardsMap st vt)) \<and> spends vt 0 0 st (st\<lparr>discardsMap := (discardsMap st)(vt := d)\<rparr>)"
proof (cases "valChan (discardsMap st vt)")
  case Nil
  have "(discardsMap st)(vt := discardsMap st vt) = discardsMap st" by simp
  then have "st\<lparr>discardsMap := (discardsMap st)(vt := discardsMap st vt)\<rparr> = st" by simp
  then show ?thesis using Nil ok by (intro exI [of _ "discardsMap st vt"]) (simp add: listen_def listenUpdate_step_def)
next
  case (Cons x xs)
  let ?d0 = "discardsMap st vt\<lparr>valChan := xs\<rparr>"
  obtain d where d: "incrDiscard ?d0 (v_fid x) (v_entrySize x) = (Inr (), d)" "discard_ok d" "same_chan ?d0 d"
    "dom (location d) = dom (location (discardsMap st vt))" "length (freeList d) = length (freeList (discardsMap st vt))"
    using incrDiscard_known [of ?d0 "v_fid x" "v_entrySize x"] ok loc Cons by auto
  let ?st = "st\<lparr>discardsMap := (discardsMap st)(vt := d)\<rparr>"
  have "tracked ?st vt" if "tracked st vt" using that d(3,4) Cons by (auto simp: tracked_def same_chan_def)
  then have "store_ext vt st ?st" by (auto simp: store_ext_def intro: exI [of _ "[]"])
  then have "spends vt 0 0 st ?st"
    using d(3,5) Cons by (auto simp: spends_def chan_grows_def same_chan_def capacity_def split: option.splits)
  then show ?thesis using d Cons by (auto simp: listen_def listenUpdate_step_def same_chan_def)
qed

subsection \<open>The simulation\<close>

definition sim ::
    "('t, Value_t) art \<Rightarrow> (bytes \<Rightarrow> u64 \<times> u64) \<Rightarrow> ('h \<Rightarrow> bytes) \<Rightarrow> ('s \<Rightarrow> Node list) \<Rightarrow> vdb \<Rightarrow> ('t, 's) LazyDB \<times> 'h \<Rightarrow> bool" where
  "sim A sum128 written elems v s \<longleftrightarrow>
     (\<exists>a. db_rel A (fst s) a \<and> views (sum_key sum128) elems (fst s) a v) \<and> written (snd s) = []"

end
