(* ===== verification/Command_Sim.thy ===== *)
theory Command_Sim
  imports Commands
begin

text \<open>
  The simulation of \<open>spec_step\<close> by \<open>exec\<close>, in the locale \<open>db_session\<close>: one lemma per group of commands
  says that the answer is allowed, that the relation is kept and that the command has taken no more of
  the log and of the channel than its \<open>cost\<close>. \<open>commands_refine\<close> puts them together.
\<close>

subsection \<open>The commands\<close>

locale db_session = set_index A M sum128 written + skl_engine S elems pos
  for A :: "('t, Value_t) art" and M :: "'h mur3" and sum128 written
    and S :: "('s, 'e) skl" and elems :: "'s \<Rightarrow> Node list" and pos :: "'s \<Rightarrow> 'e \<Rightarrow> nat"

sublocale db_session \<subseteq> zset_index A S elems pos
  by unfold_locales

context db_session
begin

text \<open>The answer of \<open>exec\<close> is allowed and the relation is kept.\<close>

definition good :: "int \<Rightarrow> command \<Rightarrow> vdb \<Rightarrow> ('t, 's) LazyDB \<times> 'h \<Rightarrow> bool" where
  "good now c v s \<longleftrightarrow> (\<exists>r s' v'. exec S M A now c s = (r, s') \<and> spec_step now c v r v' \<and> sim A sum128 written elems v' s' \<and>
     paid c (store (fst s)) (store (fst s')))"

lemma goodI:
  assumes "exec S M A now c (db, h) = (r, db', h')" "spec_step now c v r v'" "db_rel A db' a'" "views K elems db' a' v'" "written h' = []"
    "paid c (store db) (store db')"
  shows "good now c v (db, h)"
  using assms unfolding good_def sim_def by fastforce

lemma str_put_good:
  assumes rel: "db_rel A db a" and v: "views K elems db a v" and ok: "put_ok (store db) valueTypeString le" "Stat le \<noteq> SDelete"
    and room: "chan_room (store db) valueTypeString 1"
  obtains db' a' where "str_put A le db = (Inr (), db')" "db_rel A db' a'"
    "views K elems db' a' (set_strs ((strs v)(Key le \<mapsto> (bs (Value le), ExpiredAt le))) v)"
    "spends valueTypeString 1 1 (store db) (store db')"
proof -
  obtain db' where d: "str_put A le db = (Inr (), db')" "db_rel A db' (str_upd a (Key le) (Some (bs (Value le), ExpiredAt le)))"
    "spends valueTypeString 1 1 (store db) (store db')"
    using str_put_rel [OF rel ok room] by blast
  moreover have "views K elems db' (str_upd a (Key le) (Some (bs (Value le), ExpiredAt le)))
      (set_strs ((strs v)(Key le \<mapsto> (bs (Value le), ExpiredAt le))) v)"
    using views_strs [OF v str_frame(1) [OF d(1)]] viewsD(1) [OF v] by (simp add: str_upd_def)
  ultimately show thesis using that by blast
qed

lemma str_del_good:
  assumes rel: "db_rel A db a" and v: "views K elems db a v" and ok: "put_ok (store db) valueTypeString (del_entry k)"
    and room: "chan_room (store db) valueTypeString 2"
  obtains db' a' b where "str_del A k db = (Inr b, db')" "db_rel A db' a'" "views K elems db' a' (set_strs ((strs v)(k := None)) v)"
    "spends valueTypeString 1 2 (store db) (store db')"
proof -
  obtain db' b where d: "str_del A k db = (Inr b, db')" "db_rel A db' (str_upd a k None)"
    "spends valueTypeString 1 2 (store db) (store db')"
    using str_del_rel [OF rel ok room] by blast
  moreover have "views K elems db' (str_upd a k None) (set_strs ((strs v)(k := None)) v)"
    using views_strs [OF v str_frame(2) [OF d(1)]] viewsD(1) [OF v] by (simp add: str_upd_def)
  ultimately show thesis using that by blast
qed

lemma str_good:
  assumes rel: "db_rel A db a" and v: "views K elems db a v" and h: "written h = []" and ok: "admissible sum128 now c v db"
    and c: "c \<in> {CSet k x, CSetEX k x d, CSetNX k x, CDelete k, CGetDel k, CGet k}"
  shows "good now c v (db, h)"
proof -
  note s = viewsD(1) [OF v] and g = str_get_rel [OF rel]
  consider "c = CSet k x" | "c = CSetEX k x d" | "c = CSetNX k x" | "c = CDelete k" | "c = CGetDel k" | "c = CGet k" using c by blast
  then show ?thesis
  proof cases
    case 1
    obtain db' a' where "str_put A (mk_entry k x) db = (Inr (), db')" "db_rel A db' a'" "views K elems db' a' (set_strs ((strs v)(k \<mapsto> (bs x, 0))) v)"
      "spends valueTypeString 1 1 (store db) (store db')"
      using str_put_good [OF rel v, of "mk_entry k x"] ok 1 by (auto simp: SDelete_def)
    then show ?thesis unfolding 1 by (intro goodI [OF _ spec_step.set _ _ h]) (auto simp: Set_def paid_def)
  next
    case 2
    obtain db' a' where "str_put A ((mk_entry k x)\<lparr>ExpiredAt := Unix (now + d)\<rparr>) db = (Inr (), db')" "db_rel A db' a'"
      "views K elems db' a' (set_strs ((strs v)(k \<mapsto> (bs x, Unix (now + d)))) v)" "spends valueTypeString 1 1 (store db) (store db')"
      using str_put_good [OF rel v, of "(mk_entry k x)\<lparr>ExpiredAt := Unix (now + d)\<rparr>"] ok 2 by (auto simp: SDelete_def)
    then show ?thesis unfolding 2 by (intro goodI [OF _ spec_step.setEX _ _ h]) (auto simp: SetEX_def paid_def)
  next
    case 3
    obtain db' a' where p: "str_put A (mk_entry k x) db = (Inr (), db')" "db_rel A db' a'" "views K elems db' a' (set_strs ((strs v)(k \<mapsto> (bs x, 0))) v)"
      "spends valueTypeString 1 1 (store db) (store db')"
      using str_put_good [OF rel v, of "mk_entry k x"] ok 3 by (auto simp: SDelete_def)
    show ?thesis
    proof (cases "found (Unix now) (strs v) k")
      case None
      then show ?thesis unfolding 3 using p g s by (intro goodI [OF _ spec_step.setNX _ _ h]) (auto simp: SetNX_def paid_def)
    next
      case (Some y)
      then show ?thesis unfolding 3 using rel v g s by (intro goodI [OF _ spec_step.setNX _ _ h]) (auto simp: SetNX_def paid_def)
    qed
  next
    case 4
    obtain db' a' b where "str_del A k db = (Inr b, db')" "db_rel A db' a'" "views K elems db' a' (set_strs ((strs v)(k := None)) v)"
      "spends valueTypeString 1 2 (store db) (store db')"
      using ok 4 by (auto intro: str_del_good [OF rel v])
    then show ?thesis unfolding 4 by (intro goodI [OF _ spec_step.delete _ _ h]) (auto simp: Delete_def paid_def)
  next
    case 5
    obtain db' a' b where p: "str_del A k db = (Inr b, db')" "db_rel A db' a'" "views K elems db' a' (set_strs ((strs v)(k := None)) v)"
      "spends valueTypeString 1 2 (store db) (store db')"
      using ok 5 by (auto intro: str_del_good [OF rel v])
    show ?thesis
    proof (cases "found (Unix now) (strs v) k")
      case None
      then show ?thesis unfolding 5 using rel v g s by (intro goodI [OF _ spec_step.getDel _ _ h]) (auto simp: GetDel_def paid_def)
    next
      case (Some y)
      then show ?thesis unfolding 5 using p g s by (intro goodI [OF _ spec_step.getDel _ _ h]) (auto simp: GetDel_def paid_def)
    qed
  next
    case 6
    then show ?thesis unfolding 6 using rel v g s by (intro goodI [OF _ spec_step.get _ _ h]) (auto simp: Get_def)
  qed
qed

lemma mset_good:
  assumes rel: "db_rel A db a" and v: "views K elems db a v" and h: "written h = []" and ok: "admissible sum128 now (CMSet args) v db"
  shows "good now (CMSet args) v (db, h)"
proof (cases "args = [] \<or> odd (length args)")
  case True
  then show ?thesis using rel v by (intro goodI [OF _ spec_step.mset_bad _ _ h]) (auto simp: MSet_def paid_def)
next
  case False
  obtain db' where d: "MSet_loop A args db = (Inr (), db')" "db_rel A db' (a\<lparr>a_str := a_str a ++ map_of (rev (items_of args))\<rparr>)"
    "spends valueTypeString (length (items_of args)) (length (items_of args)) (store db) (store db')"
    using MSet_loop_rel [OF rel] ok by auto
  have "views K elems db' (a\<lparr>a_str := a_str a ++ map_of (rev (items_of args))\<rparr>) (set_strs (strs v ++ map_of (rev (items_of args))) v)"
    using views_strs [OF v MSet_frame [OF d(1)]] viewsD(1) [OF v] by simp
  then show ?thesis using False d by (intro goodI [OF _ spec_step.mset _ _ h]) (auto simp: MSet_def paid_def)
qed

lemma hash_good:
  assumes rel: "db_rel A db a" and v: "views K elems db a v" and h: "written h = []" and ok: "admissible sum128 now c v db"
    and c: "c \<in> {CHSet key args, CHDel key fs, CHGet key f}"
  shows "good now c v (db, h)"
proof -
  note vh = viewsD(2) [OF v]
  consider "c = CHSet key args" | "c = CHDel key fs" | "c = CHGet key f" using c by blast
  then show ?thesis
  proof cases
    case 1
    have len: "length key < 2 ^ 32" using ok 1 by (simp add: hset_ok_def)
    show ?thesis
    proof (cases "args = [] \<or> odd (length args)")
      case True
      then show ?thesis
        using rel v goodI [OF _ spec_step.hset_none _ _ h, where db = db and h = h] goodI [OF _ spec_step.hset_bad _ _ h, where db = db and h = h]
        unfolding 1 by (auto simp: HSet_def)
    next
      case False
      then obtain db' where d: "HSet A key args db = (Inr (), db')"
        "db_rel A db' (hash_upd a key (hash_of a key ++ map_of (rev (hitems key args))))"
        "spends valueTypeHash (length (items_of args)) 0 (store db) (store db')"
        "dom (hash_of a key ++ map_of (rev (hitems key args))) \<subseteq> range (encoded key)"
        using HSet_rel [OF rel, of key args] ok 1 viewsD(7) [OF v, of key] by (auto simp del: dom_map_add)
      have "views K elems db' (hash_upd a key (hash_of a key ++ map_of (rev (hitems key args))))
          (set_hash key (hashes v key ++ map_of (rev (pairs args))) v)"
        by (intro views_hash [OF v hash_frame(1) [OF d(1)]] hset_view len vh d(4))
      then show ?thesis unfolding 1 using False d by (intro goodI [OF _ spec_step.hset _ _ h]) (auto simp: paid_def)
    qed
  next
    case 2
    have len: "length key < 2 ^ 32" using ok 2 by (simp add: hfields_ok_def)
    have cnt: "card (dom (hash_of a key) \<inter> encoded key ` set fs) = card {f \<in> set fs. hashes v key f \<noteq> None}"
      by (rule card_encoded [OF len]) (simp add: domIff vh)
    show ?thesis
    proof (cases "a_hash a key")
      case None
      then have e: "hashes v key = Map.empty" using vh [of key] by (auto simp: hash_of_def)
      have "HDel A key fs db = ((0, None), db)" using HDel_rel [OF rel, of key fs] ok 2 None by simp
      moreover have "set_hash key (hashes v key |` (- set fs)) v = v" by (rule vdb_upd_id(2)) (simp add: e)
      ultimately show ?thesis unfolding 2 using rel v e goodI [OF _ spec_step.hdel _ _ h, where db = db and h = h] by simp
    next
      case (Some m)
      then have m: "hash_of a key = m" by (simp add: hash_of_def)
      obtain db' where d: "HDel A key fs db = ((card (dom m \<inter> encoded key ` set fs), None), db')"
        "db_rel A db' (hash_upd a key (m |` (- encoded key ` set fs)))" "spends valueTypeHash (length fs) (2 * length fs) (store db) (store db')"
        using HDel_rel [OF rel, of key fs] ok 2 Some by auto
      have "(m |` (- encoded key ` set fs)) (encoded key f) = map_option (\<lambda>x. (x, 0)) ((hashes v key |` (- set fs)) f)" for f
        by (cases "f \<in> set fs") (simp_all add: restrict_encoded [OF len] m [symmetric] vh)
      moreover have "dom (m |` (- encoded key ` set fs)) \<subseteq> range (encoded key)" using viewsD(7) [OF v, of key] m by auto
      ultimately have "views K elems db' (hash_upd a key (m |` (- encoded key ` set fs))) (set_hash key (hashes v key |` (- set fs)) v)"
        by (rule views_hash [OF v hash_frame(2) [OF d(1)]])
      then show ?thesis unfolding 2 using d cnt m by (intro goodI [OF _ spec_step.hdel _ _ h]) (auto simp: paid_def)
    qed
  next
    case 3
    have "HGet A now key f db = Inr (hashes v key f)"
      using HGet_rel [OF rel, of key f "[]" now] ok 3 vh [of key f] by (simp add: found_def live_def split: option.splits)
    then show ?thesis unfolding 3 using rel v by (intro goodI [OF _ spec_step.hget _ _ h]) auto
  qed
qed

lemma push_good:
  assumes rel: "db_rel A db a" and v: "views K elems db a v" and h: "written h = []" and ok: "admissible sum128 now c v db"
    and c: "c \<in> {CLPush key args, CRPush key args}"
  shows "good now c v (db, h)"
proof (cases "args = []")
  case True
  have "set_items key (l_head v key) (l_items v key) v = v" by (rule vdb_upd_id(4)) simp_all
  then have "spec_step now c v (RUnit (Inr ())) v"
    using c True spec_step.lpush [of now key "[]" v] spec_step.rpush [of now key "[]" v] by auto
  then show ?thesis using c True rel v by (intro goodI [OF _ _ _ _ h]) (auto simp: LPush_def RPush_def)
next
  case False
  note r = viewsD(3) [OF v, of key]
  consider "c = CLPush key args" | "c = CRPush key args" using c by blast
  then show ?thesis
  proof cases
    case 1
    obtain db' m where d: "LPush A now key args db = (Inr (), db')" "db_rel A db' (list_upd a key (Some m))"
      "lrep key m (l_head v key - word_of_nat (length args)) (rev args @ l_items v key)"
      "spends valueTypeList (2 * length args) 0 (store db) (store db')"
      using LPush_rel [OF rel r, of args now] False ok 1 by auto
    have "zSetIndex db' = zSetIndex db" using d(1) False push_all_frame by (fastforce simp: LPush_def)
    from views_list [OF v this, of key "Some m" "l_head v key - word_of_nat (length args)" "rev args @ l_items v key"] d(3)
    show ?thesis unfolding 1 using d(1,2,4) by (intro goodI [OF _ spec_step.lpush _ _ h]) (auto simp: list_live_def list_rep_def paid_def False)
  next
    case 2
    obtain db' m where d: "RPush A now key args db = (Inr (), db')" "db_rel A db' (list_upd a key (Some m))"
      "lrep key m (l_head v key) (l_items v key @ args)" "spends valueTypeList (2 * length args) 0 (store db) (store db')"
      using RPush_rel [OF rel r, of args now] False ok 2 by auto
    have "zSetIndex db' = zSetIndex db" using d(1) False push_all_frame by (fastforce simp: RPush_def)
    from views_list [OF v this, of key "Some m" "l_head v key" "l_items v key @ args"] d(3)
    show ?thesis unfolding 2 using d(1,2,4) by (intro goodI [OF _ spec_step.rpush _ _ h]) (auto simp: list_live_def list_rep_def paid_def False)
  qed
qed

lemma pop_good:
  assumes rel: "db_rel A db a" and v: "views K elems db a v" and h: "written h = []" and ok: "admissible sum128 now c v db"
    and c: "c = (if isLeft then CLPop key else CRPop key)"
  shows "good now c v (db, h)"
proof -
  have "list_key_ok key" "capacity (store db) valueTypeList 3" using ok c by (auto split: if_splits)
  note p = pop_any [OF rel viewsD(3) [OF v] this, of now isLeft]
  have ex: "exec S M A now c (db, h) = (case pop A now key isLeft db of (r, db') \<Rightarrow> (RSlice r, db', h))"
    using c by (cases isLeft) (simp_all add: LPop_def RPop_def)
  show ?thesis
  proof (cases "l_items v key = []")
    case True
    then have "spec_step now c v (RSlice (Inr None)) v" using c spec_step.lpop_none spec_step.rpop_none by (cases isLeft) auto
    then show ?thesis using True p rel v ex by (intro goodI [OF _ _ _ _ h]) auto
  next
    case False
    define x where "x = (if isLeft then hd (l_items v key) else last (l_items v key))"
    define ys where "ys = (if isLeft then tl (l_items v key) else butlast (l_items v key))"
    define sq where "sq = (if ys = [] then initialListSeq else if isLeft then l_head v key + 1 else l_head v key)"
    obtain db' mo where d: "pop A now key isLeft db = (Inr (Some x), db')" "db_rel A db' (list_upd a key mo)" "list_live key mo sq ys"
      "spends valueTypeList 3 0 (store db) (store db')"
      using p False by (auto simp: Let_def x_def ys_def sq_def)
    have "l_items v key = (if isLeft then x # ys else ys @ [x])" using False by (simp add: x_def ys_def)
    then have "spec_step now c v (RSlice (Inr (Some x))) (set_items key sq ys v)"
      using c spec_step.lpop [of v key x ys now] spec_step.rpop [of v key ys x now] by (cases isLeft; cases "ys = []") (simp_all add: sq_def)
    then show ?thesis using d ex views_list [OF v pop_frame [OF d(1)] d(3)] c by (intro goodI [OF _ _ _ _ h]) (auto simp: paid_def)
  qed
qed

lemma list_read_good:
  assumes rel: "db_rel A db a" and v: "views K elems db a v" and h: "written h = []" and ok: "admissible sum128 now c v db"
    and c: "c \<in> {CLLen key, CLRange key i j}"
  shows "good now c v (db, h)"
proof -
  let ?xs = "l_items v key"
  have "spec_step now c v (fst (exec S M A now c (db, h))) v"
  proof (cases "a_list a key")
    case None
    then have "listIndex db key = None" "?xs = []"
      using list_None [OF rel] viewsD(3) [OF v, of key] by (simp_all add: list_rep_def)
    then show ?thesis using c spec_step.llen [of now key v] spec_step.lrange_none [of v key now i j] by (auto simp: LLen_def LRange_def)
  next
    case (Some m)
    then have r: "lrep key m (l_head v key) ?xs" using viewsD(3) [OF v, of key] by (simp add: list_rep_def)
    have "unat (l_head v key) + 0 + 1 < 2 ^ 32" using lrepD(1) [OF r] by simp
    then have "int (unat (l_head v key) + 0 + 1) < int (2 ^ 32)" by (simp only: of_nat_less_iff)
    then have "seq_ok (l_head v key) (length ?xs) 0"
      by (simp only: seq_ok_def order_refl if_True of_nat_add of_nat_0 of_nat_1 of_nat_power of_nat_numeral)
    then have len: "LLen A now key db = Inr (length ?xs)" using LIndex_LLen_rel [OF rel Some r] by blast
    show ?thesis
    proof (cases "c = CLLen key")
      case True
      then show ?thesis using len spec_step.llen by simp
    next
      case False
      then have c': "c = CLRange key i j" using c by blast
      note lr = LRange_rel [OF rel Some r, of i j now]
      have "?xs \<noteq> []" using viewsD(8) [OF v, of key] Some by simp
      then show ?thesis unfolding c'
        using lr ok c' spec_step.lrange [of v key ?xs _ i _ j now] spec_step.lrange_bad [of v key _ i _ j now]
        by (auto simp: Let_def)
    qed
  qed
  then show ?thesis using c rel v by (intro goodI [OF _ _ _ _ h]) auto
qed

lemma SIsMember_hash: "written h = [] \<Longrightarrow> SIsMember M A key m h db = (b, h') \<Longrightarrow> written h' = []"
  using member_key_ok [of h m] by (auto simp: SIsMember_def split: option.splits)

lemma set_good:
  assumes rel: "db_rel A db a" and v: "views K elems db a v" and h: "written h = []" and ok: "admissible sum128 now c v db"
    and c: "c \<in> {CSAdd key ms, CSRem key ms, CSPop key n}"
  shows "good now c v (db, h)"
proof -
  note r = viewsD(4) [OF v, of key]
  have none: "members v key = {}" if "a_set a key = None" using r that by (simp add: set_of_def set_rep_def)
  have id: "set_members key {} v = v" if "a_set a key = None" by (rule vdb_upd_id(3)) (simp add: none [OF that])
  consider "c = CSAdd key ms" | "c = CSRem key ms" | "c = CSPop key n" using c by blast
  then show ?thesis
  proof cases
    case 1
    obtain h' db' m' where d: "SAdd M A key ms h db = (Inr (), h', db')" "written h' = []" "db_rel A db' (set_upd a key m')"
      "set_rep K m' (members v key \<union> (set ms - {[]}))" "spends valueTypeSet (length ms) 0 (store db) (store db')"
      using SAdd_rel [OF rel r, of ms h] ok h 1 by auto
    then show ?thesis unfolding 1 using views_set [OF v set_frame(1) [OF d(1)] d(4)]
      by (intro goodI [OF _ spec_step.sadd _ _ d(2)]) (auto simp: paid_def)
  next
    case 2
    obtain h' db' where d: "SRem M A key ms h db = (Inr (), h', db')" "written h' = []"
      "if a_set a key = None then db' = db else \<exists>m'. db_rel A db' (set_upd a key m') \<and> set_rep K m' (members v key - set ms)"
      "spends valueTypeSet (length ms) (2 * length ms) (store db) (store db')"
      using SRem_rel [OF rel r, of ms h] ok h 2 by auto
    show ?thesis
    proof (cases "a_set a key = None")
      case True
      then show ?thesis unfolding 2 using d rel v none id spec_step.srem [of now key ms v] by (intro goodI [OF _ _ rel v d(2)]) auto
    next
      case False
      then obtain m' where "db_rel A db' (set_upd a key m')" "set_rep K m' (members v key - set ms)" using d(3) by auto
      then show ?thesis unfolding 2 using d(1,4) views_set [OF v set_frame(2) [OF d(1)]]
        by (intro goodI [OF _ spec_step.srem _ _ d(2)]) (auto simp: paid_def)
    qed
  next
    case 3
    obtain xs h' db' where d: "SPop M A now key n h db = (Inr (map Some xs), h', db')" "written h' = []"
      "distinct xs" "set xs \<subseteq> members v key" "length xs = min n (card (members v key))"
      "if a_set a key = None then db' = db else \<exists>m'. db_rel A db' (set_upd a key m') \<and> set_rep K m' (members v key - set xs)"
      "spends valueTypeSet n (2 * n) (store db) (store db')"
      using SPop_rel [OF rel r, of n h now] ok h 3 by auto
    note sp = spec_step.spop [OF d(3-5), of now]
    show ?thesis
    proof (cases "a_set a key = None")
      case True
      then show ?thesis unfolding 3 using d none id sp by (intro goodI [OF _ _ rel v d(2)]) auto
    next
      case False
      then obtain m' where "db_rel A db' (set_upd a key m')" "set_rep K m' (members v key - set xs)" using d(6) by auto
      then show ?thesis unfolding 3 using d(1,7) views_set [OF v set_frame(3) [OF d(1)]] by (intro goodI [OF _ sp _ _ d(2)]) (auto simp: paid_def)
    qed
  qed
qed

lemma set_read_good:
  assumes rel: "db_rel A db a" and v: "views K elems db a v" and h: "written h = []" and ok: "admissible sum128 now c v db"
    and c: "c \<in> {CSIsMember key m, CSMembers key}"
  shows "good now c v (db, h)"
proof (cases "c = CSIsMember key m")
  case True
  obtain b h' where b: "SIsMember M A key m h db = (b, h')" by force
  have "b = (m \<in> members v key)" using SMembers_rel [OF rel viewsD(4) [OF v], where v = m and h = h and key = key] ok h True b by auto
  then show ?thesis unfolding True using b rel v by (intro goodI [OF _ spec_step.sismember _ _ SIsMember_hash [OF h b]]) auto
next
  case False
  then have c': "c = CSMembers key" using c by blast
  have "\<exists>xs. SMembers A now key db = Inr (map Some xs) \<and> distinct xs \<and> set xs = members v key"
  proof (cases "members v key = {}")
    case True
    then have "inj_on sum128 (insert [] (members v key))" by simp
    then show ?thesis using SMembers_rel [OF rel viewsD(4) [OF v], where v = "[]" and h = h and now = now] h by blast
  next
    case False
    then obtain x where x: "insert x (members v key) = members v key" by blast
    have "inj_on sum128 (insert x (members v key))" unfolding x using ok c' by simp
    then show ?thesis using SMembers_rel [OF rel viewsD(4) [OF v], where v = x and h = h and now = now] h by blast
  qed
  then obtain xs where "SMembers A now key db = Inr (map Some xs)" "distinct xs" "set xs = members v key" by blast
  then show ?thesis unfolding c' using rel v by (intro goodI [OF _ spec_step.smembers _ _ h]) auto
qed

lemma zset_good:
  assumes rel: "db_rel A db a" and v: "views K elems db a v" and h: "written h = []" and ok: "admissible sum128 now c v db"
    and c: "c \<in> {CZAdd key args, CZRem key ms}"
  shows "good now c v (db, h)"
proof -
  have len: "length key < 2 ^ 32" using ok c by auto
  note z = viewsD(5) [OF v len] and sc = viewsD(6) [OF v len]
  consider "c = CZAdd key args" "odd (length args)" | "c = CZAdd key args" "args = []"
    | "c = CZAdd key args" "even (length args)" "args \<noteq> []" | "c = CZRem key ms" using c by blast
  then show ?thesis
  proof cases
    case 1
    then show ?thesis unfolding 1 using rel v by (intro goodI [OF _ spec_step.zadd_bad _ _ h]) (auto simp: ZAdd_def)
  next
    case 2
    then show ?thesis unfolding 2 using rel v by (intro goodI [OF _ spec_step.zadd_none _ _ h]) (auto simp: ZAdd_def)
  next
    case 3
    have "zadd_ok key args (zset_of a key)" using zadd_view(2) [OF len, of args "zset_of a key"] ok 3(1) sc by simp
    then obtain db' where d: "ZAdd S A now key args db = (Inr (), db')" "db_rel A db' (zset_upd a key (zadd_items key args (zset_of a key)))"
      "zset_ok elems key db' (zset_upd a key (zadd_items key args (zset_of a key)))"
      "spends valueTypeZSet (length (items_of args)) (length (items_of args)) (store db) (store db')"
      using ZAdd_rel [OF rel z 3(2,3), of 0] ok 3(1) by auto
    have "views K elems db' (zset_upd a key (zadd_items key args (zset_of a key))) (set_scores key (zadd_scores args (scores v key)) v)"
      by (rule views_zset [OF v _ d(3)]) (simp_all add: zset_frame(1) [OF d(1)] zadd_view(1) [OF len] sc)
    then show ?thesis unfolding 3(1) using d(1,2,4) 3(2,3) by (intro goodI [OF _ spec_step.zadd _ _ h]) (auto simp: paid_def)
  next
    case 4
    let ?im = "zset_of a key"
    have "scores v key m \<noteq> None \<longleftrightarrow> encoded key m \<in> dom ?im" for m
      using z ByteToFloat64_long unfolding sc [symmetric] zset_ok_def zset_rep_def z_score_def
      by (force simp: dom_def split: option.split sum.split)
    then have cnt: "card (dom ?im \<inter> encoded key ` set ms) = card {m \<in> set ms. scores v key m \<noteq> None}" by (rule card_encoded [OF len])
    show ?thesis
    proof (cases "zSetIndex db key")
      case None
      then have e: "?im = Map.empty" using zset_None [OF rel, of key] by (simp add: zset_of_def)
      then have s: "scores v key = Map.empty" using sc by (simp add: z_score_def fun_eq_iff)
      have "key \<notin> z_keys v" using viewsD(9) [OF v] zset_None [OF rel, of key] None by (simp add: domIff)
      then have "spec_step now (CZRem key ms) v (RNum (0, None)) v" using spec_step.zrem [of now key ms v] by (simp add: s)
      then show ?thesis unfolding 4 using None rel v by (intro goodI [OF _ _ _ _ h]) (auto simp: ZRem_def)
    next
      case (Some zi)
      obtain db' where d: "ZRem S A now key ms db = ((card (dom ?im \<inter> encoded key ` set ms), None), db')"
        "db_rel A db' (zset_upd a key (?im |` (- encoded key ` set ms)))" "zset_ok elems key db' (zset_upd a key (?im |` (- encoded key ` set ms)))"
        "spends valueTypeZSet (length ms) (2 * length ms) (store db) (store db')"
        using ZRem_rel [OF rel z Some, of ms 0 0 now] ok 4 by auto
      have "views K elems db' (zset_upd a key (?im |` (- encoded key ` set ms))) (set_scores key (scores v key |` (- set ms)) v)"
        by (rule views_zset [OF v _ d(3)]) (simp_all add: zset_frame(2) [OF d(1)] z_score_restrict [OF len] sc)
      moreover have "key \<in> z_keys v" using viewsD(9) [OF v] zset_None [OF rel, of key] Some by (simp add: domIff)
      ultimately show ?thesis unfolding 4 using d(1,2,4) cnt by (intro goodI [OF _ spec_step.zrem _ _ h]) (auto simp: paid_def)
    qed
  qed
qed

lemma zset_read_good:
  assumes rel: "db_rel A db a" and v: "views K elems db a v" and h: "written h = []" and ok: "admissible sum128 now c v db"
    and c: "c \<in> {CZScore key m, CZRange key i j}"
  shows "good now c v (db, h)"
proof -
  have len: "length key < 2 ^ 32" using ok c by auto
  note z = viewsD(5) [OF v len] and sc = viewsD(6) [OF v len]
  let ?xs = "zset_nodes elems key db"
  have rk: "ranking (scores v key) ?xs"
    using z unfolding sc [symmetric] by (simp add: ranking_def zset_ok_def zset_rep_def)
  have "spec_step now c v (fst (exec S M A now c (db, h))) v"
  proof (cases "zSetIndex db key")
    case None
    then have "zset_of a key = Map.empty" using zset_None [OF rel, of key] by (simp add: zset_of_def)
    then have "scores v key = Map.empty" using sc by (simp add: z_score_def fun_eq_iff)
    moreover have "?xs = []" "key \<notin> z_keys v" using None viewsD(9) [OF v] zset_None [OF rel, of key] by (simp_all add: zset_nodes_def domIff)
    ultimately show ?thesis
      using c None rk spec_step.zscore_nokey [of key v now m] spec_step.zrange [OF rk, of now i j] by (auto simp: ZScore_def ZRange_def z_slice_def)
  next
    case (Some zi)
    have k: "key \<in> z_keys v" using viewsD(9) [OF v] zset_None [OF rel, of key] Some by (simp add: domIff)
    show ?thesis
    proof (cases "c = CZScore key m")
      case True
      then show ?thesis using ZScore_rel [OF rel z Some, of m now] ok sc spec_step.zscore [of v key m _ now] spec_step.zscore_none [OF k, of m now]
        by (cases "scores v key m") simp_all
    next
      case False
      then have c': "c = CZRange key i j" using c by blast
      have xs: "elems (z_skl zi) = ?xs" using Some by (simp add: zset_nodes_def)
      have "z_range S (z_skl zi) i j = Inr (z_slice ?xs i j)"
        using z_range_slice(1) [of i j "z_skl zi"] ok c' ranking_card [OF rk] unfolding xs by (simp add: Let_def z_first_def)
      then show ?thesis unfolding c' using Some spec_step.zrange [OF rk, of now i j] by (simp add: ZRange_def)
    qed
  qed
  then show ?thesis using c rel v by (intro goodI [OF _ _ _ _ h]) auto
qed

lemma listen_good:
  assumes rel: "db_rel A db a" and v: "views K elems db a v" and h: "written h = []" and ok: "admissible sum128 now (Listen vt) v db"
  shows "good now (Listen vt) v (db, h)"
proof -
  have dok: "discard_ok (discardsMap (store db) t)" for t using rel by (simp add: db_rel_def store_inv_def base_inv_def)
  have "valChan (discardsMap (store db) vt) \<noteq> [] \<longrightarrow> v_fid (hd (valChan (discardsMap (store db) vt))) \<in> dom (location (discardsMap (store db) vt))"
    using ok by (auto split: list.splits)
  from listen_ok [OF dok this] obtain d where d: "listen vt (store db) = (Inr (), (store db)\<lparr>discardsMap := (discardsMap (store db))(vt := d)\<rparr>)"
    "discard_ok d" "spends vt 0 0 (store db) ((store db)\<lparr>discardsMap := (discardsMap (store db))(vt := d)\<rparr>)" by blast
  have "db_rel A (db\<lparr>store := (store db)\<lparr>discardsMap := (discardsMap (store db))(vt := d)\<rparr>\<rparr>) a"
    using db_rel_listen [OF rel, of "(discardsMap (store db))(vt := d)"] dok d(2) by simp
  then show ?thesis using d(1,3) views_same [OF v] by (intro goodI [OF _ spec_step.listen _ _ h]) (auto simp: paid_def)
qed

end

end
