(* ===== verification/Command_More.thy ===== *)
theory Command_More
  imports Command_Sim
begin

text \<open>
  The simulation, continued: the commands that read or rewrite a string, the listings of a hash,
  \<open>HSetNX\<close>, positions in lists and \<open>LMove\<close>, ranks in sorted sets. \<open>command_good\<close> collects all groups, and
  \<open>commands_refine\<close> is the simulation for sequences of commands.
\<close>

subsection \<open>Strings\<close>

lemma expiry_frame: "SetEX A now k x d db = (r, db') \<Longrightarrow> zSetIndex db' = zSetIndex db"
  by (auto simp: SetEX_def dest: str_frame)

lemma bs_appended [simp]: "bs (appended old x) = bs old @ bs x"
  by (cases old; cases x) (simp_all add: appended_def bs_def)

context db_session
begin

lemma str_write_good:
  assumes rel: "db_rel A db a" and v: "views K elems db a v" and h: "written h = []" and ok: "admissible sum128 now c v db"
    and c: "c \<in> {CAppend k x, CExpire k d now', CPersist k}"
  shows "good now c v (db, h)"
proof -
  note s = viewsD(1) [OF v] and g = str_get_rel [OF rel]
  let ?f = "found (Unix now) (strs v) k"
  have put: "\<exists>db' a'. str_put A le db = (Inr (), db') \<and> db_rel A db' a' \<and>
      views K elems db' a' (set_strs ((strs v)(Key le \<mapsto> (bs (Value le), ExpiredAt le))) v) \<and> paid c (store db) (store db')"
    if "put_ok (store db) valueTypeString le" "Stat le \<noteq> SDelete" for le
  proof -
    have "chan_room (store db) valueTypeString 1" "cost c = (valueTypeString, 1, 1)" using ok c by auto
    then show ?thesis using str_put_good [OF rel v that] paidI by metis
  qed
  consider "c = CAppend k x" | "c = CExpire k d now'" "0 < d" | "c = CExpire k d now'" "d \<le> 0" | "c = CPersist k" using c by fastforce
  then show ?thesis
  proof cases
    case 1
    have e: "Append A now k x db = str_put A (mk_entry k (appended ?f x)) db" by (simp add: Append_def appended_def g s Let_def)
    show ?thesis unfolding 1
      using put [of "mk_entry k (appended ?f x)"] ok 1 e by (fastforce simp: SDelete_def intro: goodI [OF _ spec_step.append _ _ h])
  next
    case 2
    show ?thesis
    proof (cases ?f)
      case None
      then show ?thesis unfolding 2 using rel v 2(2)
        by (intro goodI [OF _ spec_step.expire_none _ _ h]) (auto simp: Expire_def g s lookup_item_found)
    next
      case (Some w)
      have e: "Expire A now now' k d db = str_put A ((mk_entry k (Some w))\<lparr>ExpiredAt := Unix (now' + d)\<rparr>) db"
        using Some 2(2) by (simp add: Expire_def SetEX_def g s lookup_item_found)
      show ?thesis unfolding 2
        using put [of "(mk_entry k (Some w))\<lparr>ExpiredAt := Unix (now' + d)\<rparr>"] ok 2 e Some
        by (fastforce simp: SDelete_def intro: goodI [OF _ spec_step.expire _ _ h])
    qed
  next
    case 3
    then show ?thesis unfolding 3 using rel v by (intro goodI [OF _ spec_step.expire_zero _ _ h]) (auto simp: Expire_def)
  next
    case 4
    show ?thesis
    proof (cases ?f)
      case None
      then show ?thesis unfolding 4 using rel v
        by (intro goodI [OF _ spec_step.persist_none _ _ h]) (auto simp: Persist_def g s lookup_item_found)
    next
      case (Some w)
      have e: "Persist A now k db = str_put A (mk_entry k (Some w)) db" using Some by (simp add: Persist_def Set_def g s lookup_item_found)
      show ?thesis unfolding 4
        using put [of "mk_entry k (Some w)"] ok 4 e Some by (fastforce simp: SDelete_def intro: goodI [OF _ spec_step.persist _ _ h])
    qed
  qed
qed

lemma incr_good:
  assumes rel: "db_rel A db a" and v: "views K elems db a v" and h: "written h = []" and ok: "admissible sum128 now (CIncrBy k n) v db"
  shows "good now (CIncrBy k n) v (db, h)"
proof (cases "ParseInt (counter (Unix now) (strs v) k)")
  case None
  then have "IncrBy A now k n db = (Inl ErrWrongValueType, db)"
    using str_get_rel [OF rel] viewsD(1) [OF v] by (simp add: IncrBy_def incrDecrBy_def counter_def Let_def)
  then show ?thesis using rel v None by (intro goodI [OF _ spec_step.incrBy_bad _ _ h]) auto
next
  case (Some y)
  have put: "put_ok (store db) valueTypeString (mk_entry k (Some (FormatInt (y + n))))" "chan_room (store db) valueTypeString 1"
    using ok Some by auto
  have i: "if in_int64 (sint y + sint n)
      then \<exists>db'. incrDecrBy A now k n db = (Inr (y + n), db') \<and> str_put A (mk_entry k (Some (FormatInt (y + n)))) db = (Inr (), db')
      else incrDecrBy A now k n db = (Inl ErrIntegerOverFlow, db)"
    using incrDecrBy_rel [OF rel put(2) _ put(1), of now] Some viewsD(1) [OF v] by (auto simp: counter_def in_int64_def Let_def split: if_splits)
  show ?thesis
  proof (cases "in_int64 (sint y + sint n)")
    case True
    obtain db' a' where "str_put A (mk_entry k (Some (FormatInt (y + n)))) db = (Inr (), db')" "db_rel A db' a'"
      "views K elems db' a' (set_strs ((strs v)(k \<mapsto> (FormatInt (y + n), 0))) v)" "spends valueTypeString 1 1 (store db) (store db')"
      using str_put_good [OF rel v put(1) _ put(2)] by (auto simp: SDelete_def bs_def)
    then show ?thesis using i True by (intro goodI [OF _ spec_step.incrBy [OF Some True] _ _ h]) (auto simp: IncrBy_def paid_def)
  next
    case False
    then show ?thesis using i rel v by (intro goodI [OF _ spec_step.incrBy_over [OF Some False] _ _ h]) (auto simp: IncrBy_def)
  qed
qed

lemma str_read_good:
  assumes rel: "db_rel A db a" and v: "views K elems db a v" and h: "written h = []"
    and c: "c \<in> {CTTL k, CStrLen k, CMGet ks, CGetRange k i j, CStrsKeys, CCount}"
  shows "good now c v (db, h)"
proof -
  note s = viewsD(1) [OF v] and g = str_get_rel [OF rel]
  have "spec_step now c v (fst (exec S M A now c (db, h))) v"
  proof -
    consider "c = CTTL k" | "c = CStrLen k" | "c = CMGet ks" | "c = CGetRange k i j" | "c = CStrsKeys" | "c = CCount" using c by blast
    then show ?thesis
    proof cases
      case 1
      have r: "rel_option (points (store db) valueTypeString k) (ART_Get A (strIndex db) k) (strs v k)"
        using db_relD(2) [OF rel] s by (simp add: index_rel_def)
      show ?thesis
      proof (cases "strs v k")
        case None
        then show ?thesis using r 1 spec_step.ttl_none [OF None] by (simp add: TTL_def)
      next
        case (Some x)
        then show ?thesis using r 1 spec_step.ttl [of v k "fst x" "snd x" now] by (auto simp: TTL_def option_rel_Some2 points_def)
      qed
    next
      case 2
      have "StrLen A now k db = Inr (length (bs (found (Unix now) (strs v) k)))"
        by (simp add: StrLen_def g s lookup_item_found crash_def bs_def split: option.split)
      then show ?thesis using 2 spec_step.strLen by simp
    next
      case 3
      then show ?thesis
        using MGet_refines [OF art_engine_axioms rel, of now ks] spec_step.mget [of ks now v] spec_step.mget_bad [of now v] by (simp add: s)
    next
      case 4
      have p: "(if x < 0 then int n + x else x) = pos_of n x" for n x by (simp add: pos_of_def)
      note r = GetRange_spec [OF art_engine_axioms rel, of now k i j, unfolded s p Let_def]
      show ?thesis
      proof (cases "found (Unix now) (strs v) k")
        case None
        then show ?thesis unfolding 4 using r spec_step.getRange_none [OF None] by simp
      next
        case (Some w)
        then show ?thesis unfolding 4 using r spec_step.getRange [OF Some refl refl] by simp
      qed
    next
      case 5
      have "finite (dom (a_str a))"
        using idx.finite_get index_rel_dom [OF db_relD(2) [OF rel]] by metis
      then show ?thesis
        using GetStrsKeys_Count [OF art_engine_axioms rel, of now] unfolding 5 s [symmetric]
        by (auto intro!: spec_step.strsKeys sorted_wrt_filter simp: s [symmetric])
    next
      case 6
      then show ?thesis using GetStrsKeys_Count [OF art_engine_axioms rel, of now] spec_step.count by (simp add: s)
    qed
  qed
  then show ?thesis using c rel v by (intro goodI [OF _ _ _ _ h]) auto
qed

end

subsection \<open>Hashes\<close>

context db_session
begin

lemma hash_found:
  assumes "views K elems db a v"
  shows "found ts (hash_of a key) (encoded key f) = hashes v key f"
  using viewsD(2) [OF assms, of key f] by (auto simp: found_def live_def split: option.split)

lemma hash_read_good:
  assumes rel: "db_rel A db a" and v: "views K elems db a v" and h: "written h = []" and ok: "admissible sum128 now c v db"
    and c: "c \<in> {CHExists key f, CHMGet key fs, CHLen key, CHKeys key, CHVals key, CHGetAll key}"
  shows "good now c v (db, h)"
proof -
  have len: "length key < 2 ^ 32" using ok c by auto
  note hf = hash_found [OF v]
  have fields: "{f. encoded key f \<in> dom (hash_of a key)} = dom (hashes v key)" by (auto simp: domIff viewsD(2) [OF v])
  obtain gs where gs: "distinct gs" "set gs = dom (hashes v key)" "HKeys A key db = Inr gs" "HLen A key db = length gs"
    "HVals A now key db = Inr (map (hashes v key) gs)" "HGetAll A now key db = Inr (concat (map (\<lambda>f. [Some f, hashes v key f]) gs))"
  proof -
    obtain gs where g: "distinct gs" "set gs = dom (hashes v key)" "HKeys A key db = Inr gs" "HLen A key db = length gs"
      "let fs' = filter (\<lambda>f. hashes v key f \<noteq> None) gs; val = hashes v key
       in HVals A now key db = Inr (map val fs') \<and> HGetAll A now key db = Inr (concat (map (\<lambda>f. [Some f, val f]) fs'))"
      using hash_listings [OF art_engine_axioms rel len viewsD(7) [OF v], of now]
      unfolding hf fields by blast
    moreover have "filter (\<lambda>f. hashes v key f \<noteq> None) gs = gs" using g(2) by (auto simp: filter_id_conv)
    ultimately show thesis using that by (simp add: Let_def)
  qed
  have "length gs = card (dom (hashes v key))" using distinct_card [OF gs(1)] gs(2) by simp
  then have "spec_step now c v (fst (exec S M A now c (db, h))) v"
    using c ok gs spec_step.hkeys [OF gs(1,2), of now] spec_step.hvals [OF gs(1,2), of now] spec_step.hgetAll [OF gs(1,2), of now]
      spec_step.hlen [of now key v] spec_step.hexists [of now key f v] spec_step.hmget [of now key fs v]
      HGet_rel [OF rel len, of f "[]" now] HGet_rel [OF rel len, of "[]" fs now] unfolding hf by auto
  then show ?thesis using c rel v by (intro goodI [OF _ _ _ _ h]) auto
qed

lemma hsetNX_good:
  assumes rel: "db_rel A db a" and v: "views K elems db a v" and h: "written h = []" and ok: "admissible sum128 now (CHSetNX key f x) v db"
  shows "good now (CHSetNX key f x) v (db, h)"
proof -
  have len: "length key < 2 ^ 32" "length f < 2 ^ 32" and le: "roomy (mk_entry (encoded key f) x)"
    and cap: "capacity (store db) valueTypeHash (Suc 0)" using ok by auto
  note t = hash_tree_rel [OF rel, of key] and inv = db_relD(1) [OF rel] and vh = viewsD(2) [OF v, of key] and vd = viewsD(7) [OF v, of key]
  let ?t = "hash_tree A key db" and ?k = "encoded key f"
  have gv: "getValue A now ?t ?k valueTypeHash (store db) = (case hashes v key f of None \<Rightarrow> Inl ErrKeyNotFound | Some y \<Rightarrow> Inr (Some y))"
    using getValue_rel [OF inv t] hash_found [OF v, of "Unix now"] by (simp add: lookup_item_found)
  show ?thesis
  proof (cases "hashes v key f")
    case None
    obtain t' st' where p: "put_entry A valueTypeHash ?t (mk_entry ?k x) False (store db) = (Inr (), t', st')" "store_inv st'"
      "store_ext valueTypeHash (store db) st'" "index_rel A st' valueTypeHash t' ((hash_of a key)(?k \<mapsto> (bs x, 0)))" "spends valueTypeHash 1 0 (store db) st'"
      using put_roomy [OF inv t cap le] by (auto simp: SDelete_def simp del: fun_upd_apply)
    let ?db = "db\<lparr>store := st', hashIndex := (hashIndex db)(key \<mapsto> t')\<rparr>" and ?im = "(hash_of a key)(?k \<mapsto> (bs x, 0))"
    have e: "HSetNX A now key f x db = (Inr (), ?db)"
      using encodeKey_encoded [OF len] gv None p(1) by (simp add: HSetNX_def Let_def)
    have r: "db_rel A ?db (hash_upd a key ?im)"
      using db_rel_hash [OF rel p(2,3), of "Some t'" "Some ?im" key] p(4) by (simp add: hash_upd_def)
    have "?im (encoded key g) = map_option (\<lambda>x. (x, 0)) (((hashes v key)(f \<mapsto> bs x)) g)" for g
      using vh [of g] encoded_inj [OF len(1,1)] by auto
    moreover have "dom ?im \<subseteq> range (encoded key)" using vd by auto
    ultimately have "views K elems ?db (hash_upd a key ?im) (set_hash key ((hashes v key)(f \<mapsto> bs x)) v)"
      by (intro views_hash [OF v]) simp_all
    then show ?thesis
      using e None r p(5) goodI [OF _ spec_step.hsetNX _ _ h, where db = db and h = h and db' = ?db] by (auto simp: paid_def)
  next
    case (Some y)
    let ?db = "db\<lparr>hashIndex := (hashIndex db)(key \<mapsto> ?t)\<rparr>"
    have e: "HSetNX A now key f x db = (Inr (), ?db)" using encodeKey_encoded [OF len] gv Some by (simp add: HSetNX_def Let_def)
    have r: "db_rel A ?db (hash_upd a key (hash_of a key))"
      using db_rel_hash [OF rel inv store_ext_refl, of "Some ?t" "Some (hash_of a key)" key] t by (simp add: hash_upd_def)
    have "views K elems ?db (hash_upd a key (hash_of a key)) (set_hash key (hashes v key) v)"
      using vh vd by (intro views_hash [OF v]) simp_all
    then have "views K elems ?db (hash_upd a key (hash_of a key)) v" using vdb_upd_id(2) [of v key "hashes v key"] by simp
    then show ?thesis using e Some r goodI [OF _ spec_step.hsetNX _ _ h, where db = db and h = h and db' = ?db] by auto
  qed
qed

end

subsection \<open>Lists\<close>

lemma LMove_push:
  "LMove A now src dst sl dl db =
     (case pop A now src sl db of
        (Inl e, db1) \<Rightarrow> (Inl e, db1)
      | (Inr None, db1) \<Rightarrow> (Inr None, db1)
      | (Inr (Some x), db1) \<Rightarrow>
          (case (if dl then LPush A now dst [x] db1 else RPush A now dst [x] db1) of
             (Inl e, db2) \<Rightarrow> (Inl e, db2)
           | (Inr _, db2) \<Rightarrow> (Inr (Some x), db2)))"
  by (simp add: LMove_def LPush_def RPush_def split: prod.split sum.split option.split)

lemma LRPush_frame:
  "LPush A now key args db = (r, db') \<Longrightarrow> zSetIndex db' = zSetIndex db" "RPush A now key args db = (r, db') \<Longrightarrow> zSetIndex db' = zSetIndex db"
  by (auto simp: LPush_def RPush_def dest: push_all_frame split: if_splits)

inductive_cases spec_popE: "spec_step now (if sl then CLPop src else CRPop src) v r v'"

text \<open>A pop gives nothing, or an element and a shorter list.\<close>

lemma spec_pop_cases:
  assumes "spec_step now (if sl then CLPop src else CRPop src) v r v'"
  obtains "r = RSlice (Inr None)" "v' = v" "l_items v src = []"
    | x sq ys where "r = RSlice (Inr (Some x))" "v' = set_items src sq ys v" "l_items v src = (if sl then x # ys else ys @ [x])"
        "sq = (if ys = [] then initialListSeq else if sl then l_head v src + 1 else l_head v src)"
  using assms by (cases sl; simp; cases rule: spec_step.cases; auto)

inductive_cases spec_pushE: "spec_step now (CLPush key args) v r v'" "spec_step now (CRPush key args) v r v'"

text \<open>On a list that exists, or with nothing to add, the variants for existing lists do the same.\<close>

lemma spec_pushX:
  assumes "args = [] \<or> l_items v key \<noteq> []"
  shows "spec_step now (CLPush key args) v r v' \<Longrightarrow> spec_step now (CLPushX key args) v r v'"
    "spec_step now (CRPush key args) v r v' \<Longrightarrow> spec_step now (CRPushX key args) v r v'"
  by (erule spec_pushE; simp add: spec_step.lpushX [OF assms] spec_step.rpushX [OF assms])+

lemma pushX_push:
  assumes "listIndex db key \<noteq> None"
  shows "LPushX A now key args db = LPush A now key args db" "RPushX A now key args db = RPush A now key args db"
  using assms by (auto simp: LPushX_def LPush_def RPushX_def RPush_def list_make_def)

context db_session
begin

lemma lindex_good:
  assumes rel: "db_rel A db a" and v: "views K elems db a v" and h: "written h = []" and ok: "admissible sum128 now (CLIndex key i) v db"
  shows "good now (CLIndex key i) v (db, h)"
proof -
  let ?xs = "l_items v key"
  have "spec_step now (CLIndex key i) v (RSlice (LIndex A now key i db)) v"
  proof (cases "a_list a key")
    case None
    then have "listIndex db key = None" "?xs = []"
      using list_None [OF rel] viewsD(3) [OF v, of key] by (simp_all add: list_rep_def)
    then show ?thesis using spec_step.lindex_none [of v key now i] by (simp add: LIndex_def)
  next
    case (Some m)
    then have r: "lrep key m (l_head v key) ?xs" and ne: "?xs \<noteq> []" using viewsD(3,8) [OF v, of key] by (simp_all add: list_rep_def)
    have "seq_ok (l_head v key) (length ?xs) i" using ok by simp
    from LIndex_LLen_rel [OF rel Some r this] show ?thesis
      using spec_step.lindex [OF refl, of v key i now] spec_step.lindex_bad [OF ne refl, of i now] by (auto simp: Let_def)
  qed
  then show ?thesis using rel v by (intro goodI [OF _ _ _ _ h]) auto
qed

lemma lset_good:
  assumes rel: "db_rel A db a" and v: "views K elems db a v" and h: "written h = []" and ok: "admissible sum128 now (CLSet key i x) v db"
  shows "good now (CLSet key i x) v (db, h)"
proof (cases "a_list a key")
  case None
  then have "listIndex db key = None" "l_items v key = []"
    using list_None [OF rel] viewsD(3) [OF v, of key] by (simp_all add: list_rep_def)
  then show ?thesis using rel v by (intro goodI [OF _ spec_step.lset_none _ _ h]) (auto simp: LSet_def)
next
  case (Some m)
  let ?xs = "l_items v key" and ?p = "pos_of (length (l_items v key)) i"
  have r: "lrep key m (l_head v key) ?xs" and ne: "?xs \<noteq> []" using viewsD(3,8) [OF v, of key] Some by (simp_all add: list_rep_def)
  have l: "if 0 \<le> ?p \<and> ?p < int (length ?xs)
      then \<exists>db' m'. LSet A now key i x db = (Inr (), db') \<and> db_rel A db' (list_upd a key (Some m')) \<and>
        lrep key m' (l_head v key) (?xs[nat ?p := bs x]) \<and> spends valueTypeList 1 0 (store db) (store db')
      else LSet A now key i x db = (Inl ErrWrongIndex, db)"
    using LSet_rel [OF rel Some r, of i x now] ok by (auto simp: Let_def)
  show ?thesis
  proof (cases "0 \<le> ?p \<and> ?p < int (length ?xs)")
    case True
    then obtain db' m' where d: "LSet A now key i x db = (Inr (), db')" "db_rel A db' (list_upd a key (Some m'))"
      "lrep key m' (l_head v key) (?xs[nat ?p := bs x])" "spends valueTypeList 1 0 (store db) (store db')" using l by auto
    have "zSetIndex db' = zSetIndex db"
      using d(1) by (auto simp: LSet_def set_list_def Let_def split: option.splits sum.splits prod.splits if_splits)
    from views_list [OF v this, of key "Some m'" "l_head v key" "?xs[nat ?p := bs x]"] d(3)
    show ?thesis using True d(1,2,4) by (intro goodI [OF _ spec_step.lset [OF refl] _ _ h]) (auto simp: paid_def list_live_def list_rep_def ne)
  next
    case False
    then show ?thesis using l rel v by (intro goodI [OF _ spec_step.lset_bad [OF ne refl] _ _ h]) (auto simp: not_le not_less)
  qed
qed

lemma pushX_good:
  assumes rel: "db_rel A db a" and v: "views K elems db a v" and h: "written h = []" and ok: "admissible sum128 now c v db"
    and c: "c = (if isLeft then CLPushX key args else CRPushX key args)"
  shows "good now c v (db, h)"
proof (cases "listIndex db key = None \<and> args \<noteq> []")
  case True
  then have "l_items v key = []" using list_None [OF rel, of key] viewsD(3) [OF v, of key] by (simp add: list_rep_def)
  then have "spec_step now c v (RUnit (Inl ErrKeyNotFound)) v"
    using c True spec_step.lpushX_none spec_step.rpushX_none by (cases isLeft) auto
  then show ?thesis using c True rel v by (intro goodI [OF _ _ _ _ h]) (auto simp: LPushX_def RPushX_def split: if_splits)
next
  case False
  let ?c = "if isLeft then CLPush key args else CRPush key args"
  have e: "exec S M A now c (db, h) = exec S M A now ?c (db, h)"
    using c False pushX_push [of db key A now args] by (cases isLeft) (auto simp: LPushX_def RPushX_def LPush_def RPush_def)
  have "good now ?c v (db, h)" using push_good [OF rel v h, of now ?c key args] ok c by (cases isLeft) auto
  then obtain r s' v' where "exec S M A now ?c (db, h) = (r, s')" "spec_step now ?c v r v'" "sim A sum128 written elems v' s'"
    "paid ?c (store db) (store (fst s'))" by (auto simp: good_def)
  moreover have "args = [] \<or> l_items v key \<noteq> []" using False list_None [OF rel, of key] viewsD(8) [OF v, of key] by auto
  then have "spec_step now c v r v'" if "spec_step now ?c v r v'" for r v'
    using that c spec_pushX by (cases isLeft) simp_all
  moreover have "cost c = cost ?c" using c by simp
  ultimately show ?thesis unfolding good_def paid_def e fst_conv by metis
qed

lemma push_one:
  assumes rel: "db_rel A db a" and v: "views K elems db a v" and ok: "list_key_ok key" "length x < 2 ^ 32"
    and room: "if isLeft then l_head v key \<noteq> 0 else unat (l_head v key) + length (l_items v key) + 2 < 2 ^ 32"
    and cap: "capacity (store db) valueTypeList 2"
  shows "\<exists>db' a'. (if isLeft then LPush A now key [x] db else RPush A now key [x] db) = (Inr (), db') \<and> db_rel A db' a' \<and>
    views K elems db' a' (push_items key x isLeft v) \<and> spends valueTypeList 2 0 (store db) (store db')"
proof (cases isLeft)
  case True
  have "length [x] \<le> unat (l_head v key)" using True room by (simp add: Suc_le_eq unat_gt_0)
  then obtain db' m where d: "LPush A now key [x] db = (Inr (), db')" "db_rel A db' (list_upd a key (Some m))"
    "lrep key m (l_head v key - 1) (x # l_items v key)" "spends valueTypeList 2 0 (store db) (store db')"
    using LPush_rel [OF rel viewsD(3) [OF v] ok(1), of "[x]" now] ok(2) cap by auto
  have "zSetIndex db' = zSetIndex db" by (rule LRPush_frame(1) [OF d(1)])
  from views_list [OF v this, of key "Some m" "l_head v key - 1" "x # l_items v key"] d True
  show ?thesis by (auto simp: push_items_def list_live_def list_rep_def)
next
  case False
  then obtain db' m where d: "RPush A now key [x] db = (Inr (), db')" "db_rel A db' (list_upd a key (Some m))"
    "lrep key m (l_head v key) (l_items v key @ [x])" "spends valueTypeList 2 0 (store db) (store db')"
    using RPush_rel [OF rel viewsD(3) [OF v] ok(1), of "[x]" now] ok(2) cap room by auto
  have "zSetIndex db' = zSetIndex db" by (rule LRPush_frame(2) [OF d(1)])
  from views_list [OF v this, of key "Some m" "l_head v key" "l_items v key @ [x]"] d False
  show ?thesis by (auto simp: push_items_def list_live_def list_rep_def)
qed

text \<open>Taking an element off a list leaves room for one at either end, also when it is the same list.\<close>

lemma pop_room:
  assumes d: "0 < unat (l_head v dst)" "unat (l_head v dst) + length (l_items v dst) + 2 < 2 ^ 32"
    and s: "l_items v src = (if sl then x # ys else ys @ [x])"
    and sq: "sq = (if ys = [] then initialListSeq else if sl then l_head v src + 1 else l_head v src)"
    and v': "v' = set_items src sq ys v"
  shows "l_head v' dst \<noteq> 0 \<and> unat (l_head v' dst) + length (l_items v' dst) + 2 < 2 ^ 32"
proof (cases "dst = src")
  case True
  have len: "length (l_items v src) = Suc (length ys)" by (simp add: s)
  have "unat (l_head v src + 1) = unat (l_head v src) + 1" using unat_succ [of "l_head v src"] d(2) len True by simp
  then have "sq \<noteq> 0 \<and> unat sq + length ys + 2 < 2 ^ 32"
    using d len True unfolding sq initialListSeq_def by (auto simp: unat_gt_0 split: if_splits)
  then show ?thesis by (simp add: v' True set_items_def)
next
  case False
  then show ?thesis using d by (auto simp: v' set_items_def)
qed

lemma lmove_good:
  assumes rel: "db_rel A db a" and v: "views K elems db a v" and h: "written h = []"
    and ok: "admissible sum128 now (CLMove src dst sl dl) v db"
  shows "good now (CLMove src dst sl dl) v (db, h)"
proof -
  let ?c = "if sl then CLPop src else CRPop src"
  have cap: "capacity (store db) valueTypeList 5" using ok by simp
  have "admissible sum128 now ?c v db" using ok capacity_le [OF cap, of 3] by simp
  then obtain r db1 a1 v1 where p: "pop A now src sl db = (r, db1)" "spec_step now ?c v (RSlice r) v1" "db_rel A db1 a1"
    "views K elems db1 a1 v1" "spends valueTypeList 3 0 (store db) (store db1)"
    using pop_good [OF rel v h _ refl, where now = now and key = src and isLeft = sl] by (cases sl) (auto simp: good_def sim_def paid_def LPop_def RPop_def split: prod.splits)
  from p(2) show ?thesis
  proof (cases rule: spec_pop_cases)
    case 1
    then have "LMove A now src dst sl dl db = (Inr None, db1)" "views K elems db1 a1 v" using p(1,4) by (simp_all add: LMove_push)
    moreover have "paid (CLMove src dst sl dl) (store db) (store db1)" using spends_le [OF p(5), of 5 0] by (simp add: paid_def)
    ultimately show ?thesis using 1 p(3) by (intro goodI [OF _ spec_step.lmove_none _ _ h]) auto
  next
    case (2 x sq ys)
    have x: "length x < 2 ^ 32" using ok 2(3) by (auto split: if_splits)
    have room: "l_head v1 dst \<noteq> 0 \<and> unat (l_head v1 dst) + length (l_items v1 dst) + 2 < 2 ^ 32"
      using ok by (intro pop_room [OF _ _ 2(3,4,2)]) auto
    have cap1: "capacity (store db1) valueTypeList 2" using spendsD(2) [OF p(5), of 2] cap by simp
    have room1: "if dl then l_head v1 dst \<noteq> 0 else unat (l_head v1 dst) + length (l_items v1 dst) + 2 < 2 ^ 32" using room by simp
    have key: "list_key_ok dst" using ok by simp
    obtain db2 a2 where q: "(if dl then LPush A now dst [x] db1 else RPush A now dst [x] db1) = (Inr (), db2)" "db_rel A db2 a2"
      "views K elems db2 a2 (push_items dst x dl v1)" "spends valueTypeList 2 0 (store db1) (store db2)"
      using push_one [OF p(3,4) key x room1 cap1, of now] by blast
    have "LMove A now src dst sl dl db = (Inr (Some x), db2)" using p(1) 2(1) q(1) by (simp add: LMove_push)
    moreover have "paid (CLMove src dst sl dl) (store db) (store db2)" using spends_trans [OF p(5) q(4)] by (simp add: paid_def)
    ultimately show ?thesis using p(2) 2(1) q(2,3) by (intro goodI [OF _ spec_step.lmove _ _ h]) auto
  qed
qed

end

subsection \<open>Ranks\<close>

context db_session
begin

lemma zrank_good:
  assumes rel: "db_rel A db a" and v: "views K elems db a v" and h: "written h = []" and ok: "admissible sum128 now c v db"
    and c: "c \<in> {CZRank key m, CZRevRank key m, CZCard key}"
  shows "good now c v (db, h)"
proof -
  have len: "length key < 2 ^ 32" using ok c by auto
  note z = viewsD(5) [OF v len] and sc = viewsD(6) [OF v len]
  let ?xs = "zset_nodes elems key db"
  have rk: "ranking (scores v key) ?xs"
    using z unfolding sc [symmetric] by (simp add: ranking_def zset_ok_def zset_rep_def)
  note len_xs = ranking_card [OF rk]
  have "spec_step now c v (fst (exec S M A now c (db, h))) v"
  proof (cases "zSetIndex db key")
    case None
    then have "zset_of a key = Map.empty" using zset_None [OF rel, of key] by (simp add: zset_of_def)
    then have "scores v key = Map.empty" using sc by (simp add: z_score_def fun_eq_iff)
    moreover have "key \<notin> z_keys v" using None viewsD(9) [OF v] zset_None [OF rel, of key] by (simp add: domIff)
    ultimately show ?thesis
      using c None spec_step.zrank_nokey [of c key m v now] spec_step.zcard [of now key v] by (auto simp: ZRank_def ZRevRank_def ZScore_def ZCard_def)
  next
    case (Some zi)
    note zs = zset_Some [OF rel z Some]
    have k: "key \<in> z_keys v" using viewsD(9) [OF v] zset_None [OF rel, of key] Some by (simp add: domIff)
    have "ZCard A key db = card (dom (scores v key))"
      using Some idx.siz_ok index_rel_dom [OF zs(1)] zset_card [OF zs(2) len] len_xs by (simp add: ZCard_def zset_nodes_def)
    then have card: "c = CZCard key \<Longrightarrow> ?thesis" using spec_step.zcard [of now key v] by simp
    show ?thesis
    proof (cases "scores v key m")
      case None
      then have "m_len \<Longrightarrow> ZScore A now key m db = Inl ErrZSetMemberNotExist" if "m_len = (length m < 2 ^ 32)" for m_len
        using ZScore_rel [OF rel z Some, of m now] sc that by simp
      then show ?thesis using c ok k None card spec_step.zrank_none [of c key m v now] by (auto simp: ZRank_def ZRevRank_def)
    next
      case S: (Some f)
      then have "\<lparr>n_score = f, n_member = m\<rparr> \<in> set ?xs" using rk by (simp add: ranking_def)
      then obtain i where i: "i < length ?xs" "?xs ! i = \<lparr>n_score = f, n_member = m\<rparr>" by (auto simp: in_set_conv_nth)
      then show ?thesis
        using c ok card zset_at(2,3) [OF rel z i(1), where now = now] spec_step.zrank [OF rk i(1), of now] spec_step.zrevrank [OF rk i(1), of now] by auto
    qed
  qed
  then show ?thesis using c rel v by (intro goodI [OF _ _ _ _ h]) auto
qed

end

subsection \<open>All commands\<close>

context db_session
begin

lemma command_good:
  assumes "sim A sum128 written elems v s" "admissible sum128 now c v (fst s)"
  shows "good now c v s"
proof -
  obtain db h where s: "s = (db, h)" by force
  obtain a where a: "db_rel A db a" "views K elems db a v" "written h = []" "admissible sum128 now c v db"
    using assms by (auto simp: sim_def s)
  have single: "c = CMSet args \<Longrightarrow> good now c v (db, h)"
    "c = CIncrBy k n \<Longrightarrow> good now c v (db, h)"
    "c = CHSetNX key f x \<Longrightarrow> good now c v (db, h)"
    "c = CLIndex key i \<Longrightarrow> good now c v (db, h)"
    "c = CLSet key i x \<Longrightarrow> good now c v (db, h)"
    "c = CLMove src dst sl dl \<Longrightarrow> good now c v (db, h)"
    "c = Listen vt \<Longrightarrow> good now c v (db, h)" for args k n key f x i src dst sl dl vt
    using a(4) by (simp_all only: mset_good [OF a(1-3)] incr_good [OF a(1-3)] hsetNX_good [OF a(1-3)] lindex_good [OF a(1-3)] lset_good [OF a(1-3)] lmove_good [OF a(1-3)] listen_good [OF a(1-3)])
  have ends: "c = CLPop key \<or> c = CRPop key \<Longrightarrow> good now c v (db, h)" "c = CLPushX key args \<or> c = CRPushX key args \<Longrightarrow> good now c v (db, h)" for key args
    using pop_good [OF a, of True key] pop_good [OF a, of False key] pushX_good [OF a, of True key args] pushX_good [OF a, of False key args]
    by fastforce+
  show ?thesis unfolding s
    by (cases c)
      (erule single | rule ends, simp; fail | rule str_good [OF a], force | rule hash_good [OF a], force | rule push_good [OF a], force
        | rule list_read_good [OF a], force | rule set_good [OF a], force | rule set_read_good [OF a], force | rule zset_good [OF a], force
        | rule zset_read_good [OF a], force | rule str_write_good [OF a], force | rule str_read_good [OF a(1-3)], force
        | rule hash_read_good [OF a], force | rule zrank_good [OF a], force)+
qed

lemma run_good:
  assumes "sim A sum128 written elems v s" "admitted S M A sum128 cs v s"
  shows "\<exists>rs s' v'. exec_all S M A cs s = (rs, s') \<and> spec_run cs v rs v' \<and> sim A sum128 written elems v' s'"
  using assms
proof (induction cs arbitrary: v s)
  case Nil
  then show ?case using spec_run.nil by auto
next
  case (Cons x cs)
  obtain now c where x: "x = (now, c)" by force
  obtain r s1 v1 where 1: "exec S M A now c s = (r, s1)" "spec_step now c v r v1" "sim A sum128 written elems v1 s1"
    using command_good [OF Cons.prems(1), of now c] Cons.prems(2) x by (auto simp: good_def)
  then obtain rs s2 v2 where "exec_all S M A cs s1 = (rs, s2)" "spec_run cs v1 rs v2" "sim A sum128 written elems v2 s2"
    using Cons.IH [OF 1(3)] Cons.prems(2) x by auto
  then show ?case using 1 x spec_run.cons [OF 1(2)] by auto
qed

end

interpretation sample_session: db_session rbt_art buf_mur buf_sum id list_skl "\<lambda>s. s" "\<lambda>s e. e"
  by (intro db_session.intro sample_sets.set_index_axioms node_list.skl_engine_axioms)

inductive_simps spec_step_simps:
  "spec_step now (CSet k x) v r v'" "spec_step now (CGet k) v r v'" "spec_step now (CLLen key) v r v'"

inductive_simps spec_run_simps: "spec_run [] v rs v'" "spec_run ((now, c) # cs) v rs v'"

subsection \<open>Properties\<close>

lemma new_db_sim:
  assumes "db_rel A (new_db A c ds d :: ('t, 's) LazyDB) empty_adb" "written h = []"
  shows "sim A sum128 written elems empty_vdb (new_db A c ds d :: ('t, 's) LazyDB, h)"
proof -
  have "views (sum_key sum128) elems (new_db A c ds d :: ('t, 's) LazyDB) empty_adb empty_vdb"
    by (auto simp: views_def empty_vdb_def empty_adb_def hash_of_def set_of_def zset_of_def list_live_def list_rep_def set_rep_def zset_ok_def
        zset_nodes_def new_db_def z_score_def)
  then show ?thesis using assms by (auto simp: sim_def)
qed

text \<open>
  The database does what its commands mean. Take any sequence of commands on strings,
  hashes, lists, sets and sorted sets, interleaved with the goroutines of the discard tables,
  on a new database, in which every command finds room: the answers are those of the
  specification on plain values, in which the commands on one type and key do not touch any
  other.
\<close>

theorem commands_refine:
  fixes A :: "('t, Value_t) art" and S :: "('s, 'e) skl" and M :: "'h mur3"
  assumes "art_engine A" "mur_engine M sum128 written" "skl_engine S elems pos"
    "0 < MaxLogFileSize c" "IOType c = FileIO" "\<And>vt. discard_ok (ds vt)" "\<And>vt f. contents d vt f = None"
    and adm: "admitted S M A sum128 cs empty_vdb (new_db A c ds d, NewMurmur128 M)"
  shows "\<exists>rs s v. exec_all S M A cs (new_db A c ds d, NewMurmur128 M) = (rs, s) \<and> spec_run cs empty_vdb rs v \<and>
    sim A sum128 written elems v s"
proof -
  note vi = value_index.intro [OF assms(1)]
  note ses = db_session.intro [OF set_index.intro [OF vi assms(2)] assms(3)]
  have "written (NewMurmur128 M) = []" using mur_engine.new_written [OF assms(2)] by (simp add: NewMurmur128_def)
  then have "sim A sum128 written elems empty_vdb (new_db A c ds d :: ('t, 's) LazyDB, NewMurmur128 M)"
    by (intro new_db_sim value_index.new_db_rel [OF vi assms(4-7)])
  from db_session.run_good [OF ses this adm] show ?thesis .
qed

theorem commands_refine_witness:
  "\<exists>s. exec_all list_skl buf_mur rbt_art [(0, CSet (replicate 20 1) (Some [2])), (0, CLLen [7]), (0, CGet (replicate 20 1))]
      (sample_zdb, NewMurmur128 buf_mur) = ([RUnit (Inr ()), RLen (Inr 0), RSlice (Inr (Some [2]))], s)"
proof -
  let ?cs = "[(0, CSet (replicate 20 1) (Some [2])), (0, CLLen [7]), (0, CGet (replicate 20 1))] :: (int \<times> command) list"
  have st: "store sample_zdb = store sample_db" by (simp add: sample_zdb_def sample_db_def new_db_def)
  have "admissible buf_sum 0 (CSet (replicate 20 1) (Some [2])) empty_vdb sample_zdb"
    using sample_put [of "replicate 20 1" "Some [2]"] sample_chan [of 1] by (simp add: st)
  then have "admitted list_skl buf_mur rbt_art buf_sum ?cs empty_vdb (sample_zdb, NewMurmur128 buf_mur)" by simp
  note adm = this [unfolded sample_zdb_def]
  have "\<exists>rs s v. exec_all list_skl buf_mur rbt_art ?cs (sample_zdb, NewMurmur128 buf_mur) = (rs, s) \<and> spec_run ?cs empty_vdb rs v \<and>
      sim rbt_art buf_sum id (\<lambda>s. s) v s"
    unfolding sample_zdb_def
    by (rule commands_refine [OF art_engine_rbt buf_engine.mur_engine_axioms node_list.skl_engine_axioms _ _ _ _ adm])
      (simp_all add: DefaultDBConfig_def contents_def)
  then obtain rs s v where "exec_all list_skl buf_mur rbt_art ?cs (sample_zdb, NewMurmur128 buf_mur) = (rs, s)" "spec_run ?cs empty_vdb rs v"
    by blast
  then show ?thesis by (auto simp: spec_run_simps spec_step_simps empty_vdb_def set_strs_def lookup_item_def live_def bs_def)
qed

end
