(* ===== verification/Recovery.thy ===== *)
theory Recovery
  imports Str_Ops
begin

text \<open>
  Opening a database: \<open>Open\<close>, \<open>initDiscard\<close> and \<open>buildLogFiles\<close> of \<open>db.go\<close> and the functions of
  \<open>index.go\<close> that rebuild the indexes from the log files.

  The inputs are the configuration, the files of the database directory with the listing of
  their names that \<open>os.ReadDir\<close> returns, and the contents of the discard files, if they exist.
  The goroutines that rebuild the indexes of the five types touch disjoint parts of the state;
  they run here one after the other.

  \<open>Open_logged\<close> is the result of opening the files of a database: the log files and the discard
  tables are found again, the string index is rebuilt from the log, the other indexes are empty.
\<close>

subsection \<open>Discard tables\<close>

text \<open>\<open>valueType(i)\<close> for \<open>i\<close> from 0 to \<open>logFileTypeNum - 1\<close>.\<close>

definition value_types :: "valueType list" where
  "value_types = [valueTypeString, valueTypeList, valueTypeHash, valueTypeSet, valueTypeZSet]"

fun initDiscard_loop ::
    "(valueType \<Rightarrow> bytes option) \<Rightarrow> nat \<Rightarrow> valueType list \<Rightarrow> (valueType \<Rightarrow> discard) \<Rightarrow> (valueType \<Rightarrow> discard) result" where
  "initDiscard_loop disc n [] ds = Inr ds"
| "initDiscard_loop disc n (vt # vts) ds =
     (case newDiscard (disc vt) n of
        Inl e \<Rightarrow> Inl e
      | Inr d \<Rightarrow> initDiscard_loop disc n vts (ds(vt := d)))"

text \<open>The map starts empty; every type gets a table, so what it starts with does not matter.\<close>

definition initDiscard :: "(valueType \<Rightarrow> bytes option) \<Rightarrow> nat \<Rightarrow> (valueType \<Rightarrow> discard) result" where
  "initDiscard disc n = initDiscard_loop disc n value_types (\<lambda>_. fresh_discard n)"

subsection \<open>Log files\<close>

text \<open>\<open>valueType(logfile.FileTypesMap[...])\<close>, the inverse of \<open>FType\<close>.\<close>

definition vtype :: "byte \<Rightarrow> valueType" where
  "vtype b = (if b = 1 then valueTypeList else if b = 2 then valueTypeHash else if b = 3 then valueTypeSet
     else if b = 4 then valueTypeZSet else valueTypeString)"

fun collect_fids :: "bytes list \<Rightarrow> (valueType \<Rightarrow> u32 list) \<Rightarrow> valueType \<Rightarrow> u32 list" where
  "collect_fids [] fm = fm"
| "collect_fids (name # names) fm =
     (case parse_log_name name of
        None \<Rightarrow> collect_fids names fm
      | Some (ty, fid) \<Rightarrow> collect_fids names (fm(vtype ty := fm (vtype ty) @ [fid])))"

text \<open>The loop of \<open>build\<close> over the sorted ids: the last file becomes the active one.\<close>

fun open_logs :: "valueType \<Rightarrow> u32 list \<Rightarrow> Store \<Rightarrow> unit result \<times> Store" where
  "open_logs vt [] st = (Inr (), st)"
| "open_logs vt (fid # fids) st =
     (case Open_LogFile fid (MaxLogFileSize (cfg st)) (FType vt) (IOType (cfg st)) (files st) of
        Inl e \<Rightarrow> (Inl Fatal, st)
      | Inr (lf, fs') \<Rightarrow>
          (let st1 = st\<lparr>files := fs'\<rparr>
           in if fids = []
              then (Inr (), st1\<lparr>activeLogFileMap := map_option (\<lambda>am. am(vt \<mapsto> lf)) (activeLogFileMap st1)\<rparr>)
              else case archivedLogFile st1 of
                     None \<Rightarrow> (Inl Panic, st1)
                   | Some ar \<Rightarrow>
                       (case cm_Set (ar vt) fid lf of
                          Inl e \<Rightarrow> (Inl e, st1)
                        | Inr cm \<Rightarrow> open_logs vt fids (st1\<lparr>archivedLogFile := Some (ar(vt := cm))\<rparr>))))"

fun open_types :: "valueType list \<Rightarrow> Store \<Rightarrow> unit result \<times> Store" where
  "open_types [] st = (Inr (), st)"
| "open_types (vt # vts) st =
     (case fidsMap st of
        None \<Rightarrow> (Inl Panic, st)
      | Some fm \<Rightarrow>
          (case open_logs vt (sort (fm vt)) (st\<lparr>fidsMap := Some (fm(vt := sort (fm vt)))\<rparr>) of
             (Inl e, st1) \<Rightarrow> (Inl e, st1)
           | (Inr _, st1) \<Rightarrow> open_types vts st1))"

definition buildLogFiles :: "bytes list \<Rightarrow> Store \<Rightarrow> unit result \<times> Store" where
  "buildLogFiles dir st =
     open_types value_types (st\<lparr>fidsMap := map_option (collect_fids dir) (fidsMap st)\<rparr>)"

subsection \<open>Indexes\<close>

definition buildStrIndex ::
    "('t, Value_t) art \<Rightarrow> LogEntry \<Rightarrow> ValuePos \<Rightarrow> ('t, 's) LazyDB \<Rightarrow> ('t, 's) LazyDB result" where
  "buildStrIndex A entry vPos db =
     (if Stat entry = SDelete then Inr (db\<lparr>strIndex := fst (ART_Delete A (strIndex db) (Key entry))\<rparr>)
      else case EncodeEntry (Some entry) of
             Inl e \<Rightarrow> Inl e
           | Inr (_, siz) \<Rightarrow>
               Inr (db\<lparr>strIndex := fst (ART_Put A (strIndex db) (Key entry)
                 \<lparr>v_value = None, v_vType = valueTypeString, v_fid = vp_fid vPos, v_offset = vp_offset vPos,
                  v_entrySize = int siz, v_expiredAt = 0\<rparr>)\<rparr>))"

text \<open>A method call on a tree that is not in the map dereferences a nil pointer.\<close>

definition buildHashIndex ::
    "('t, Value_t) art \<Rightarrow> LogEntry \<Rightarrow> ValuePos \<Rightarrow> ('t, 's) LazyDB \<Rightarrow> ('t, 's) LazyDB result" where
  "buildHashIndex A entry vPos db =
     (case decodeKey (Key entry) of
        Inl e \<Rightarrow> Inl e
      | Inr (key, _) \<Rightarrow>
          (case hashIndex db key of
             None \<Rightarrow> Inl Panic
           | Some idxTree \<Rightarrow>
               if Stat entry = SDelete
               then Inr (db\<lparr>hashIndex := (hashIndex db)(key \<mapsto> fst (ART_Delete A idxTree (Key entry)))\<rparr>)
               else case EncodeEntry (Some entry) of
                      Inl e \<Rightarrow> Inl e
                    | Inr (_, siz) \<Rightarrow>
                        Inr (db\<lparr>hashIndex := (hashIndex db)(key \<mapsto> fst (ART_Put A idxTree (Key entry)
                          \<lparr>v_value = None, v_vType = valueTypeString, v_fid = vp_fid vPos, v_offset = vp_offset vPos,
                           v_entrySize = int siz, v_expiredAt = 0\<rparr>))\<rparr>)))"

definition buildIndexByVType ::
    "('t, Value_t) art \<Rightarrow> valueType \<Rightarrow> LogEntry \<Rightarrow> ValuePos \<Rightarrow> ('t, 's) LazyDB \<Rightarrow> ('t, 's) LazyDB result" where
  "buildIndexByVType A vt entry vPos db =
     (case vt of
        valueTypeString \<Rightarrow> buildStrIndex A entry vPos db
      | valueTypeHash \<Rightarrow> buildHashIndex A entry vPos db
      | _ \<Rightarrow> Inr db)"

text \<open>How far a controller can read, for the termination of the loop below.\<close>

definition read_limit :: "IOController \<Rightarrow> fs \<Rightarrow> int" where
  "read_limit h d =
     (case d (ctl_name h) of
        None \<Rightarrow> 0
      | Some c \<Rightarrow> (case h of FileIOController _ \<Rightarrow> int (length c) | MMapController _ l \<Rightarrow> l))"

lemma read_limit_less: "IO_Read h d MaxHeaderSize off = Inr b \<Longrightarrow> off < read_limit h d"
  by (cases h)
    (auto simp: IO_Read_def read_limit_def FileIO_Read_def MMap_Read_def MaxHeaderSize_def split: option.splits if_splits)

lemma buildIndexByVType_store: "buildIndexByVType A vt entry vPos db = Inr db' \<Longrightarrow> store db' = store db"
  by (cases vt)
    (auto simp: buildIndexByVType_def buildStrIndex_def buildHashIndex_def split: if_splits sum.splits option.splits)

text \<open>
  The inner loop: reads entries until the end of the file and returns the offset behind the
  last one. Any other error ends the process.
\<close>

function build_file ::
    "('t, Value_t) art \<Rightarrow> valueType \<Rightarrow> u32 \<Rightarrow> LogFile \<Rightarrow> int \<Rightarrow> ('t, 's) LazyDB \<Rightarrow> (int \<times> ('t, 's) LazyDB) result" where
  "build_file A vt fid lf offset db =
     (case ReadLogEntry lf (files (store db)) offset of
        Inl e \<Rightarrow>
          if e = EOF \<or> e = ErrLogEndOfFile then Inr (offset, db)
          else if e = Panic then Inl Panic else Inl Fatal
      | Inr (entry, entSize) \<Rightarrow>
          (case buildIndexByVType A vt entry \<lparr>vp_fid = fid, vp_offset = offset, vp_entrySize = entSize\<rparr> db of
             Inl e \<Rightarrow> Inl e
           | Inr db' \<Rightarrow> build_file A vt fid lf (offset + entSize) db'))"
  by pat_completeness auto
termination
proof (relation "measure (\<lambda>(A, vt, fid, lf, offset, db). nat (read_limit (IoController lf) (files (store db)) - offset))", goal_cases)
  case (2 A vt fid lf offset db x entry entSize db')
  then have r: "ReadLogEntry_from (IO_Read (IoController lf) (files (store db))) offset = Inr (entry, entSize)"
    by (simp add: ReadLogEntry_def)
  have "offset < read_limit (IoController lf) (files (store db))"
    using ReadLogEntry_progress(2) [OF r] read_limit_less by blast
  moreover have "store db' = store db" using 2 buildIndexByVType_store by blast
  ultimately show ?case using ReadLogEntry_progress(1) [OF r] by simp
qed simp

declare build_file.simps [simp del]

text \<open>The outer loop of \<open>build\<close> over the ids of one type.\<close>

fun build_files ::
    "('t, Value_t) art \<Rightarrow> valueType \<Rightarrow> u32 list \<Rightarrow> ('t, 's) LazyDB \<Rightarrow> ('t, 's) LazyDB result" where
  "build_files A vt [] db = Inr db"
| "build_files A vt (fid # fids) db =
     (case (if fids = [] then (case active (store db) vt of None \<Rightarrow> Inl Panic | Some lf \<Rightarrow> Inr lf)
            else (case getArchivedLogFile vt fid (store db) of
                    Inl e \<Rightarrow> Inl e
                  | Inr None \<Rightarrow> Inl Fatal
                  | Inr (Some lf) \<Rightarrow> Inr lf)) of
        Inl e \<Rightarrow> Inl e
      | Inr lf \<Rightarrow>
          (case build_file A vt fid lf 0 db of
             Inl e \<Rightarrow> Inl e
           | Inr (offset, db') \<Rightarrow>
               if fids = []
               then Inr (db'\<lparr>store := (store db')\<lparr>activeLogFileMap :=
                      map_option (\<lambda>am. am(vt \<mapsto> lf\<lparr>Offset := offset\<rparr>)) (activeLogFileMap (store db'))\<rparr>\<rparr>)
               else build_files A vt fids db'))"

fun build_types :: "('t, Value_t) art \<Rightarrow> valueType list \<Rightarrow> ('t, 's) LazyDB \<Rightarrow> ('t, 's) LazyDB result" where
  "build_types A [] db = Inr db"
| "build_types A (vt # vts) db =
     (case fidsMap (store db) of
        None \<Rightarrow> Inl Panic
      | Some fm \<Rightarrow>
          (case build_files A vt (sort (fm vt)) db of
             Inl e \<Rightarrow> Inl e
           | Inr db' \<Rightarrow> build_types A vts db'))"

definition buildIndexFromLogFiles :: "('t, Value_t) art \<Rightarrow> ('t, 's) LazyDB \<Rightarrow> ('t, 's) LazyDB result" where
  "buildIndexFromLogFiles A db = build_types A value_types db"

subsection \<open>Open\<close>

definition Open ::
    "('t, Value_t) art \<Rightarrow> DBConfig \<Rightarrow> bytes list \<Rightarrow> fs \<Rightarrow> (valueType \<Rightarrow> bytes option) \<Rightarrow> ('t, 's) LazyDB result" where
  "Open A c dir d disc =
     (case initDiscard disc (DiscardBufferSize c) of
        Inl e \<Rightarrow> Inl Fatal
      | Inr ds \<Rightarrow>
          (let db = new_db A c ds d
           in case buildLogFiles dir (store db) of
                (Inl e, _) \<Rightarrow> if e = Panic then Inl Panic else Inl Fatal
              | (Inr _, st) \<Rightarrow> buildIndexFromLogFiles A (db\<lparr>store := st\<rparr>)))"

subsection \<open>The directory\<close>

lemma vtype_FType [simp]: "vtype (FType vt) = vt"
  by (cases vt) (simp_all add: vtype_def)

text \<open>
  A listing of the files: it has every log file, and no name in it reads as the name of a log
  file without being one.
\<close>

definition dir_ok :: "bytes list \<Rightarrow> fs \<Rightarrow> bool" where
  "dir_ok dir d \<longleftrightarrow> distinct dir \<and> (\<forall>vt f. log_name (FType vt) f \<in> set dir \<longleftrightarrow> contents d vt f \<noteq> None) \<and>
     (\<forall>n \<in> set dir. parse_log_name n = None \<or> (\<exists>vt f. n = log_name (FType vt) f))"

definition fids_in :: "valueType \<Rightarrow> bytes list \<Rightarrow> u32 list" where
  "fids_in vt dir = map snd (filter (\<lambda>(ty, f). vtype ty = vt) (List.map_filter parse_log_name dir))"

lemma collect_fids_eq: "collect_fids dir fm vt = fm vt @ fids_in vt dir"
  by (induction dir arbitrary: fm) (auto simp: fids_in_def map_filter_simps split: option.split)

lemma parse_log_name_FType [simp]: "parse_log_name (log_name (FType vt) f) = Some (FType vt, f)"
  by (rule parse_log_name_log_name) simp

lemma fids_in_set:
  assumes "\<forall>n \<in> set dir. parse_log_name n = None \<or> (\<exists>vt f. n = log_name (FType vt) f)"
  shows "f \<in> set (fids_in vt dir) \<longleftrightarrow> log_name (FType vt) f \<in> set dir"
proof -
  have "f \<in> set (fids_in vt dir) \<longleftrightarrow> (\<exists>n \<in> set dir. \<exists>ty. parse_log_name n = Some (ty, f) \<and> vtype ty = vt)"
    by (force simp: fids_in_def List.map_filter_def)
  also have "\<dots> \<longleftrightarrow> log_name (FType vt) f \<in> set dir"
  proof
    assume "\<exists>n \<in> set dir. \<exists>ty. parse_log_name n = Some (ty, f) \<and> vtype ty = vt"
    then obtain n ty where n: "n \<in> set dir" "parse_log_name n = Some (ty, f)" "vtype ty = vt" by blast
    then obtain t g where "n = log_name (FType t) g" using assms by force
    then show "log_name (FType vt) f \<in> set dir" using n by auto
  qed (auto intro!: bexI [of _ "log_name (FType vt) f"])
  finally show ?thesis .
qed

lemma fids_in_distinct:
  assumes "\<forall>n \<in> set dir. parse_log_name n = None \<or> (\<exists>vt f. n = log_name (FType vt) f)" "distinct dir"
  shows "distinct (fids_in vt dir)"
  using assms
proof (induction dir)
  case (Cons n dir)
  then have d: "distinct (fids_in vt dir)" by simp
  show ?case
  proof (cases "parse_log_name n")
    case None
    then show ?thesis using d by (simp add: fids_in_def map_filter_simps)
  next
    case (Some p)
    then obtain t f where n: "n = log_name (FType t) f" using Cons.prems(1) by auto
    then have "f \<notin> set (fids_in t dir)" using Cons.prems fids_in_set [of dir f t] by simp
    then have "t = vt \<Longrightarrow> f \<notin> set (fids_in vt dir)" by simp
    then show ?thesis using d by (auto simp: fids_in_def n map_filter_simps)
  qed
qed (simp add: fids_in_def map_filter_simps)

lemma sorted_fids:
  assumes "dir_ok dir (files st)" "logged st vt L"
  shows "sort (fids_in vt dir) = map fst L"
proof (rule sorted_distinct_set_unique)
  note d = assms(1) [unfolded dir_ok_def]
  have s: "sorted_wrt (<) (map fst L)" using assms(2) by (simp add: logged_def)
  then show "sorted (map fst L)" "distinct (map fst L)" by (simp_all add: strict_sorted_iff)
  show "distinct (sort (fids_in vt dir))" using fids_in_distinct d by simp
  have "f \<in> set (fids_in vt dir) \<longleftrightarrow> contents (files st) vt f \<noteq> None" for f
    using d fids_in_set [of dir f vt] by auto
  also have "\<dots> f \<longleftrightarrow> f \<in> set (map fst L)" for f
    using assms(2) by (auto simp: logged_def map_of_eq_None_iff)
  finally show "set (sort (fids_in vt dir)) = set (map fst L)" by auto
qed simp

subsection \<open>Opening the files\<close>

definition fresh_lf :: "valueType \<Rightarrow> u32 \<Rightarrow> LogFile" where
  "fresh_lf vt f = \<lparr>Fid = f, Offset = 0, IoController = FileIOController (log_name (FType vt) f)\<rparr>"

definition opened_active :: "valueType \<Rightarrow> u32 list \<Rightarrow> LogFile option" where
  "opened_active vt fids = (if fids = [] then None else Some (fresh_lf vt (last fids)))"

definition opened_archived :: "valueType \<Rightarrow> u32 list \<Rightarrow> u32 \<Rightarrow> LogFile option" where
  "opened_archived vt fids f = (if f \<in> set (butlast fids) then Some (fresh_lf vt f) else None)"

definition long_file :: "Store \<Rightarrow> valueType \<Rightarrow> u32 \<Rightarrow> bool" where
  "long_file st vt f \<longleftrightarrow> (\<exists>c. contents (files st) vt f = Some c \<and> MaxLogFileSize (cfg st) \<le> int (length c))"

text \<open>What opening log files keeps of the store.\<close>

definition same_data :: "Store \<Rightarrow> Store \<Rightarrow> bool" where
  "same_data st st' \<longleftrightarrow> files st' = files st \<and> cfg st' = cfg st \<and> discardsMap st' = discardsMap st"

lemma same_data_trans: "same_data a b \<Longrightarrow> same_data b c \<Longrightarrow> same_data a c"
  by (simp add: same_data_def)

lemma fids_frame [simp]:
  "active (st\<lparr>fidsMap := x\<rparr>) = active st" "archived (st\<lparr>fidsMap := x\<rparr>) = archived st"
  "long_file (st\<lparr>fidsMap := x\<rparr>) = long_file st"
  by (simp_all add: active_def archived_def long_file_def fun_eq_iff)

lemma Open_existing:
  assumes "0 < MaxLogFileSize (cfg st)" "long_file st vt f"
  shows "Open_LogFile f (MaxLogFileSize (cfg st)) (FType vt) FileIO (files st) = Inr (fresh_lf vt f, files st)"
proof -
  obtain c where "files st (log_name (FType vt) f) = Some c" "MaxLogFileSize (cfg st) \<le> int (length c)"
    using assms(2) by (auto simp: long_file_def contents_def)
  then show ?thesis
    using assms(1) openFile_same [of "files st" "log_name (FType vt) f"]
    by (simp add: Open_LogFile_def NewFileIOController_def fresh_lf_def Let_def)
qed

lemma open_logs_ok:
  assumes "0 < MaxLogFileSize (cfg st)" "IOType (cfg st) = FileIO" "is_open st" "\<forall>f \<in> set fids. long_file st vt f"
  shows "\<exists>st'. open_logs vt fids st = (Inr (), st') \<and> is_open st' \<and> same_data st st' \<and> fidsMap st' = fidsMap st \<and>
    active st' vt = (if fids = [] then active st vt else opened_active vt fids) \<and>
    archived st' vt = archived st vt ++ opened_archived vt fids \<and>
    (\<forall>t. t \<noteq> vt \<longrightarrow> active st' t = active st t \<and> archived st' t = archived st t)"
  using assms
proof (induction fids arbitrary: st)
  case Nil
  then show ?case by (simp add: same_data_def opened_archived_def map_add_def fun_eq_iff)
next
  case (Cons f fids)
  have o: "Open_LogFile f (MaxLogFileSize (cfg st)) (FType vt) FileIO (files st) = Inr (fresh_lf vt f, files st)"
    using Open_existing Cons.prems by simp
  obtain ar am where ar: "archivedLogFile st = Some ar" "\<And>t. cm_wf (ar t)" and am: "activeLogFileMap st = Some am"
    using Cons.prems(3) by (auto simp: is_open_def)
  show ?case
  proof (cases "fids = []")
    case True
    let ?st = "st\<lparr>activeLogFileMap := Some (am(vt \<mapsto> fresh_lf vt f))\<rparr>"
    have "open_logs vt (f # fids) st = (Inr (), ?st)" using True o Cons.prems(2) am by simp
    moreover have "is_open ?st" using Cons.prems(3) by (simp add: is_open_def)
    moreover have "archived ?st = archived st" "active ?st t = (if t = vt then Some (fresh_lf vt f) else active st t)" for t
      by (simp_all add: archived_def active_def am fun_eq_iff)
    ultimately show ?thesis using True by (auto simp: same_data_def opened_active_def opened_archived_def map_add_def fun_eq_iff)
  next
    case False
    obtain cm where cm: "cm_Set (ar vt) f (fresh_lf vt f) = Inr cm" "cm_wf cm" "cm_view cm = (cm_view (ar vt))(f \<mapsto> fresh_lf vt f)"
      using cm.put_view [OF ar(2)] by blast
    let ?st = "st\<lparr>archivedLogFile := Some (ar(vt := cm))\<rparr>"
    have "is_open ?st" using Cons.prems(3) ar cm(2) by (simp add: is_open_def)
    moreover have "long_file ?st = long_file st" by (simp add: long_file_def fun_eq_iff)
    ultimately obtain st' where i: "open_logs vt fids ?st = (Inr (), st')" "is_open st'" "same_data ?st st'"
      "fidsMap st' = fidsMap ?st" "active st' vt = opened_active vt fids"
      "archived st' vt = archived ?st vt ++ opened_archived vt fids"
      "\<And>t. t \<noteq> vt \<Longrightarrow> active st' t = active ?st t \<and> archived st' t = archived ?st t"
      using Cons.IH [of ?st] Cons.prems False by auto
    have a: "active ?st = active st" "archived ?st t = (if t = vt then (archived st t)(f \<mapsto> fresh_lf vt f) else archived st t)" for t
      by (simp_all add: archived_def active_def ar cm(3) fun_eq_iff)
    have "open_logs vt (f # fids) st = (Inr (), st')" using False o Cons.prems(2) ar(1) cm(1) i(1) by simp
    moreover have "archived st' vt = archived st vt ++ opened_archived vt (f # fids)"
      using False by (auto simp: i(6) a opened_archived_def map_add_def fun_eq_iff split: option.splits)
    ultimately show ?thesis using i a False by (auto simp: same_data_def opened_active_def)
  qed
qed

lemma open_types_ok:
  assumes "0 < MaxLogFileSize (cfg st)" "IOType (cfg st) = FileIO" "is_open st" "fidsMap st = Some fm"
    "\<forall>t. \<forall>f \<in> set (fm t). long_file st t f" "distinct vts"
    "\<forall>t \<in> set vts. active st t = None \<and> archived st t = Map.empty"
  shows "\<exists>st' fm'. open_types vts st = (Inr (), st') \<and> is_open st' \<and> same_data st st' \<and> fidsMap st' = Some fm' \<and>
    (\<forall>t. sort (fm' t) = sort (fm t)) \<and>
    (\<forall>t \<in> set vts. active st' t = opened_active t (sort (fm t)) \<and> archived st' t = opened_archived t (sort (fm t))) \<and>
    (\<forall>t. t \<notin> set vts \<longrightarrow> active st' t = active st t \<and> archived st' t = archived st t)"
  using assms
proof (induction vts arbitrary: st fm)
  case Nil
  then show ?case by (simp add: same_data_def)
next
  case (Cons vt vts)
  let ?fm = "fm(vt := sort (fm vt))"
  let ?st = "st\<lparr>fidsMap := Some ?fm\<rparr>"
  have "is_open ?st" using Cons.prems(3) by (simp add: is_open_def)
  then obtain st1 where o: "open_logs vt (sort (fm vt)) ?st = (Inr (), st1)" "is_open st1" "same_data ?st st1"
    "fidsMap st1 = Some ?fm" "active st1 vt = opened_active vt (sort (fm vt))"
    "archived st1 vt = opened_archived vt (sort (fm vt))"
    "\<And>t. t \<noteq> vt \<Longrightarrow> active st1 t = active st t \<and> archived st1 t = archived st t"
    using open_logs_ok [of ?st "sort (fm vt)" vt] Cons.prems(1,2,5,7)
    by (auto simp: opened_active_def split: if_splits)
  have sd: "same_data st st1" using o(3) by (simp add: same_data_def)
  have "long_file st1 = long_file st" using sd by (intro ext) (simp add: same_data_def long_file_def)
  moreover have "\<forall>t \<in> set vts. active st1 t = None \<and> archived st1 t = Map.empty"
  proof
    fix t assume "t \<in> set vts"
    then show "active st1 t = None \<and> archived st1 t = Map.empty"
      using o(7) [of t] Cons.prems(6,7) by auto
  qed
  ultimately have "\<exists>st' fm'. open_types vts st1 = (Inr (), st') \<and> is_open st' \<and> same_data st1 st' \<and> fidsMap st' = Some fm' \<and>
    (\<forall>t. sort (fm' t) = sort (?fm t)) \<and>
    (\<forall>t \<in> set vts. active st' t = opened_active t (sort (?fm t)) \<and> archived st' t = opened_archived t (sort (?fm t))) \<and>
    (\<forall>t. t \<notin> set vts \<longrightarrow> active st' t = active st1 t \<and> archived st' t = archived st1 t)"
    using Cons.prems o sd by (intro Cons.IH) (auto simp: same_data_def)
  then obtain st' fm' where i: "open_types vts st1 = (Inr (), st')" "is_open st'" "same_data st1 st'" "fidsMap st' = Some fm'"
    "\<And>t. sort (fm' t) = sort (?fm t)"
    "\<And>t. t \<in> set vts \<Longrightarrow> active st' t = opened_active t (sort (?fm t)) \<and> archived st' t = opened_archived t (sort (?fm t))"
    "\<And>t. t \<notin> set vts \<Longrightarrow> active st' t = active st1 t \<and> archived st' t = archived st1 t"
    by blast
  have "sort (?fm t) = sort (fm t)" for t by (simp add: sorted_sort_id)
  then have "\<forall>t. sort (fm' t) = sort (fm t)"
    "\<forall>t \<in> set (vt # vts). active st' t = opened_active t (sort (fm t)) \<and> archived st' t = opened_archived t (sort (fm t))"
    "\<forall>t. t \<notin> set (vt # vts) \<longrightarrow> active st' t = active st t \<and> archived st' t = archived st t"
    using i(5-7) o(5-7) Cons.prems(6) by (metis (no_types, lifting), metis (no_types, lifting) distinct.simps(2) set_ConsD, simp)
  moreover have "open_types (vt # vts) st = (Inr (), st')" using o(1) i(1) Cons.prems(4) by simp
  ultimately show ?case using i(2,4) same_data_trans [OF sd i(3)] by blast
qed

subsection \<open>Reading the files\<close>

definition log_node :: "u32 \<Rightarrow> int \<Rightarrow> LogEntry \<Rightarrow> Value_t" where
  "log_node f off le = \<lparr>v_value = None, v_vType = valueTypeString, v_fid = f, v_offset = off,
     v_entrySize = int (entry_size le), v_expiredAt = 0\<rparr>"

definition restore_tree :: "('t, Value_t) art \<Rightarrow> 't \<Rightarrow> u32 \<times> int \<times> LogEntry \<Rightarrow> 't" where
  "restore_tree A t x =
     (case x of (f, off, le) \<Rightarrow>
        if Stat le = SDelete then fst (ART_Delete A t (Key le)) else fst (ART_Put A t (Key le) (log_node f off le)))"

definition restore ::
    "('t, Value_t) art \<Rightarrow> valueType \<Rightarrow> (u32 \<times> int \<times> LogEntry) list \<Rightarrow> ('t, 's) LazyDB \<Rightarrow> ('t, 's) LazyDB" where
  "restore A vt ls db =
     (if vt = valueTypeString then db\<lparr>strIndex := foldl (restore_tree A) (strIndex db) ls\<rparr> else db)"

lemma restore_simps [simp]:
  "restore A vt [] db = db" "restore A vt (ls @ ls') db = restore A vt ls' (restore A vt ls db)"
  "store (restore A vt ls db) = store db" "restore A vt ls (db\<lparr>store := st\<rparr>) = (restore A vt ls db)\<lparr>store := st\<rparr>"
  "hashIndex (restore A vt ls db) = hashIndex db" "listIndex (restore A vt ls db) = listIndex db"
  "setIndex (restore A vt ls db) = setIndex db" "zSetIndex (restore A vt ls db) = zSetIndex db"
  by (simp_all add: restore_def)

lemma stored_layout [simp]:
  "Key (stored le) = Key le" "Stat (stored le) = Stat le" "bs (Value (stored le)) = bs (Value le)"
  "header_fields (stored le) = header_fields le" "header_size (stored le) = header_size le"
  "entry_size (stored le) = entry_size le" "encodable (stored le) = encodable le"
  by (simp_all add: stored_def header_fields_def header_size_def header_tail_def entry_size_def encodable_def)

lemma buildIndexByVType_restore:
  assumes "encodable le" "vt \<noteq> valueTypeHash"
  shows "buildIndexByVType A vt (stored le) \<lparr>vp_fid = f, vp_offset = off, vp_entrySize = n\<rparr> db =
    Inr (restore A vt [(f, off, le)] db)"
  using assms by (cases vt)
    (simp_all add: buildIndexByVType_def buildStrIndex_def restore_def restore_tree_def log_node_def EncodeEntry_encodable)

lemma read_image:
  assumes "contents (files st) vt f = Some c" "IoController lf = FileIOController (log_name (FType vt) f)"
  shows "ReadLogEntry lf (files st) off = ReadLogEntry_from (FileIO_Read c) off"
proof -
  have "IO_Read (IoController lf) (files st) = FileIO_Read c"
    using assms by (intro ext) (simp add: IO_Read_def contents_def)
  then show ?thesis by (simp add: ReadLogEntry_def)
qed

lemma build_file_image:
  assumes "contents (files (store db)) vt f = Some (file_image mx (es1 @ es2))" "file_ok mx (es1 @ es2)"
    "IoController lf = FileIOController (log_name (FType vt) f)" "vt \<noteq> valueTypeHash \<or> es2 = []"
  shows "build_file A vt f lf (int (length (log_bytes es1))) db =
    Inr (int (length (log_bytes (es1 @ es2))), restore A vt (positions f (int (length (log_bytes es1))) es2) db)"
  using assms
proof (induction es2 arbitrary: es1 db)
  case Nil
  obtain e where "ReadLogEntry_from (FileIO_Read (file_image mx es1)) (int (length (log_bytes es1))) = Inl e"
    "e = EOF \<or> e = ErrLogEndOfFile"
    using scan_end by blast
  then show ?case using read_image [OF Nil(1,3)] by (subst build_file.simps) auto
next
  case (Cons le es2)
  let ?off = "int (length (log_bytes es1))" and ?es1 = "es1 @ [le]"
  let ?db = "restore A vt [(f, ?off, le)] db"
  have "ReadLogEntry lf (files (store db)) ?off = Inr (stored le, int (entry_size le))"
    using read_image [OF Cons.prems(1,3)] scan_entry [OF Cons.prems(2)] by simp
  moreover have "buildIndexByVType A vt (stored le) \<lparr>vp_fid = f, vp_offset = ?off, vp_entrySize = int (entry_size le)\<rparr> db = Inr ?db"
    using buildIndexByVType_restore file_ok_at(1) [OF Cons.prems(2)] Cons.prems(4) by blast
  moreover have "build_file A vt f lf (int (length (log_bytes ?es1))) ?db =
      Inr (int (length (log_bytes (?es1 @ es2))), restore A vt (positions f (int (length (log_bytes ?es1))) es2) ?db)"
    using Cons.prems by (intro Cons.IH) simp_all
  moreover have "restore A vt (positions f ?off (le # es2)) db =
      restore A vt (positions f (?off + int (entry_size le)) es2) ?db"
    using restore_simps(2) [of A vt "[(f, ?off, le)]"] by simp
  ultimately show ?case by (subst build_file.simps) simp
qed

definition reopened_active :: "valueType \<Rightarrow> (u32 \<times> LogEntry list) list \<Rightarrow> LogFile option" where
  "reopened_active vt L =
     (if L = [] then None else Some ((fresh_lf vt (fst (last L)))\<lparr>Offset := int (length (log_bytes (snd (last L))))\<rparr>))"

lemma build_files_log:
  assumes "\<forall>x \<in> set L. contents (files (store db)) vt (fst x) = Some (file_image mx (snd x)) \<and> file_ok mx (snd x) \<and>
      (vt \<noteq> valueTypeHash \<or> snd x = [])"
    "L \<noteq> []" "active (store db) vt = opened_active vt (map fst L)" "is_open (store db)"
    "\<forall>f \<in> set (butlast (map fst L)). archived (store db) vt f = Some (fresh_lf vt f)"
  shows "build_files A vt (map fst L) db =
    Inr ((restore A vt (log_seq L) db)\<lparr>store := (store db)\<lparr>activeLogFileMap :=
      map_option (\<lambda>am. am(vt := reopened_active vt L)) (activeLogFileMap (store db))\<rparr>\<rparr>)"
  using assms
proof (induction L arbitrary: db)
  case (Cons x L)
  obtain f es where x: "x = (f, es)" by (cases x)
  have b: "build_file A vt f (fresh_lf vt f) 0 db = Inr (int (length (log_bytes es)), restore A vt (positions f 0 es) db)"
    using build_file_image [of db vt f mx "[]" es "fresh_lf vt f" A] Cons.prems(1) x by (auto simp: fresh_lf_def)
  show ?case
  proof (cases "L = []")
    case True
    then show ?thesis using x b Cons.prems(3) by (simp add: opened_active_def reopened_active_def del: fun_upd_apply)
  next
    case False
    obtain ar where "archivedLogFile (store db) = Some ar" "cm_wf (ar vt)" using Cons.prems(4) by (auto simp: is_open_def)
    moreover have "archived (store db) vt f = Some (fresh_lf vt f)" using Cons.prems(5) False x by simp
    ultimately have "getArchivedLogFile vt f (store db) = Inr (Some (fresh_lf vt f))"
      by (simp add: getArchivedLogFile_def cm.get_view archived_def)
    moreover have "build_files A vt (map fst L) (restore A vt (positions f 0 es) db) =
      Inr ((restore A vt (log_seq L) (restore A vt (positions f 0 es) db))\<lparr>store := (store db)\<lparr>activeLogFileMap :=
        map_option (\<lambda>am. am(vt := reopened_active vt L)) (activeLogFileMap (store db))\<rparr>\<rparr>)"
      using Cons.IH [of "restore A vt (positions f 0 es) db"] Cons.prems False x
      by (simp add: opened_active_def del: fun_upd_apply)
    ultimately show ?thesis using x b False by (simp add: reopened_active_def del: fun_upd_apply)
  qed
qed simp

lemma build_types_log:
  assumes "\<forall>t. \<forall>x \<in> set (Ls t). contents (files (store db)) t (fst x) = Some (file_image mx (snd x)) \<and> file_ok mx (snd x) \<and>
      (t = valueTypeHash \<longrightarrow> t \<in> set vts \<longrightarrow> snd x = [])"
    "fidsMap (store db) = Some fm" "\<forall>t. sort (fm t) = map fst (Ls t)" "is_open (store db)" "distinct vts"
    "\<forall>t \<in> set vts. active (store db) t = opened_active t (map fst (Ls t))"
    "\<forall>t. archived (store db) t = opened_archived t (map fst (Ls t))"
  shows "\<exists>db'. build_types A vts db = Inr db' \<and> is_open (store db') \<and> same_data (store db) (store db') \<and>
    archived (store db') = archived (store db) \<and> fidsMap (store db') = fidsMap (store db) \<and>
    (\<forall>t. active (store db') t = (if t \<in> set vts then reopened_active t (Ls t) else active (store db) t)) \<and>
    db'\<lparr>store := store db\<rparr> = (if valueTypeString \<in> set vts then restore A valueTypeString (log_seq (Ls valueTypeString)) db else db)"
  using assms
proof (induction vts arbitrary: db)
  case Nil
  show ?case using Nil(4) by (simp add: same_data_def)
next
  case (Cons vt vts)
  obtain am where am: "activeLogFileMap (store db) = Some am" using Cons.prems(4) by (auto simp: is_open_def)
  define st1 where "st1 = (if Ls vt = [] then store db
    else (store db)\<lparr>activeLogFileMap := Some (am(vt := reopened_active vt (Ls vt)))\<rparr>)"
  let ?db = "(restore A vt (log_seq (Ls vt)) db)\<lparr>store := st1\<rparr>"
  have b: "build_files A vt (map fst (Ls vt)) db = Inr ?db"
  proof (cases "Ls vt = []")
    case False
    show ?thesis
      using build_files_log [of "Ls vt" db vt mx A] Cons.prems(1,4,6,7) False am
      by (simp add: st1_def opened_archived_def del: fun_upd_apply)
  qed (simp add: st1_def)
  have act: "active st1 t = (if t = vt then reopened_active t (Ls t) else active (store db) t)" for t
    using Cons.prems(6) am by (auto simp: st1_def active_def reopened_active_def opened_active_def)
  have arc: "archived st1 = archived (store db)" by (rule ext)+ (simp add: st1_def archived_def)
  have st1: "is_open st1" "same_data (store db) st1" "fidsMap st1 = Some fm"
    using Cons.prems(2,4) by (auto simp: st1_def is_open_def same_data_def)
  then have "\<exists>db'. build_types A vts ?db = Inr db' \<and> is_open (store db') \<and> same_data (store ?db) (store db') \<and>
    archived (store db') = archived (store ?db) \<and> fidsMap (store db') = fidsMap (store ?db) \<and>
    (\<forall>t. active (store db') t = (if t \<in> set vts then reopened_active t (Ls t) else active (store ?db) t)) \<and>
    db'\<lparr>store := store ?db\<rparr> = (if valueTypeString \<in> set vts then restore A valueTypeString (log_seq (Ls valueTypeString)) ?db else ?db)"
    using Cons.prems act arc by (intro Cons.IH) (auto simp: same_data_def)
  then obtain db' where i: "build_types A vts ?db = Inr db'" "is_open (store db')" "same_data st1 (store db')"
    "archived (store db') = archived st1" "fidsMap (store db') = Some fm"
    "\<And>t. active (store db') t = (if t \<in> set vts then reopened_active t (Ls t) else active st1 t)"
    "db'\<lparr>store := st1\<rparr> = (if valueTypeString \<in> set vts then restore A valueTypeString (log_seq (Ls valueTypeString)) ?db else ?db)"
    using st1(3) by auto
  have "build_types A (vt # vts) db = Inr db'" using b i(1) Cons.prems(2,3) by simp
  moreover have "db'\<lparr>store := store db\<rparr> =
      (if valueTypeString \<in> set (vt # vts) then restore A valueTypeString (log_seq (Ls valueTypeString)) db else db)"
  proof -
    have "db'\<lparr>store := store db\<rparr> = (db'\<lparr>store := st1\<rparr>)\<lparr>store := store db\<rparr>" by simp
    also have "\<dots> = (if valueTypeString \<in> set (vt # vts) then restore A valueTypeString (log_seq (Ls valueTypeString)) db else db)"
      using Cons.prems(5) unfolding i(7) by (auto simp: restore_def)
    finally show ?thesis .
  qed
  ultimately show ?case
    using i(2-6) arc act Cons.prems(2) same_data_trans [OF st1(2) i(3)] by (intro exI [of _ db']) auto
qed

subsection \<open>The reopened database\<close>

lemma initDiscard_reload:
  assumes "\<And>vt. discard_ok (ds vt)"
  shows "\<exists>ds'. initDiscard (\<lambda>vt. Some (d_file (ds vt))) n = Inr ds' \<and>
    (\<forall>vt. discard_ok (ds' vt) \<and> disc_tab (ds' vt) = disc_tab (ds vt))"
proof -
  have "\<exists>d'. newDiscard (Some (d_file (ds vt))) n = Inr d' \<and> discard_ok d' \<and> disc_tab d' = disc_tab (ds vt)" for vt
    using newDiscard_reload [of "ds vt" n] assms [of vt] unfolding discard_ok_def by blast
  then obtain D where D: "\<And>vt. newDiscard (Some (d_file (ds vt))) n = Inr (D vt) \<and> discard_ok (D vt) \<and> disc_tab (D vt) = disc_tab (ds vt)"
    by metis
  let ?ds = "(\<lambda>_. fresh_discard n)(valueTypeString := D valueTypeString, valueTypeList := D valueTypeList,
    valueTypeHash := D valueTypeHash, valueTypeSet := D valueTypeSet, valueTypeZSet := D valueTypeZSet)"
  have "initDiscard (\<lambda>vt. Some (d_file (ds vt))) n = Inr ?ds"
    using D by (simp add: initDiscard_def value_types_def)
  moreover have "?ds vt = D vt" for vt by (cases vt) simp_all
  ultimately show ?thesis using D by auto
qed

lemma value_types_all [simp]: "set value_types = UNIV" "distinct value_types"
proof -
  have "vt \<in> set value_types" for vt by (cases vt) (simp_all add: value_types_def)
  then show "set value_types = UNIV" by auto
qed (simp add: value_types_def)

text \<open>The files of one type: \<open>logged\<close> without the log file objects.\<close>

definition stored_log :: "int \<Rightarrow> fs \<Rightarrow> valueType \<Rightarrow> (u32 \<times> LogEntry list) list \<Rightarrow> bool" where
  "stored_log mx d vt L \<longleftrightarrow> (\<forall>x \<in> set L. file_ok mx (snd x)) \<and> sorted_wrt (<) (map fst L) \<and>
     (\<forall>f. contents d vt f = map_option (file_image mx) (map_of L f))"

lemma logged_stored: "logged st vt L \<Longrightarrow> stored_log (MaxLogFileSize (cfg st)) (files st) vt L"
  by (simp add: logged_def stored_log_def)

lemma stored_logD:
  assumes "stored_log mx d vt L" "(f, es) \<in> set L"
  shows "contents d vt f = Some (file_image mx es)" "mx \<le> int (length (file_image mx es))" "file_ok mx es"
    "f \<le> fst (last L)"
proof -
  have s: "sorted_wrt (<) (map fst L)" using assms(1) by (simp add: stored_log_def)
  then show "contents d vt f = Some (file_image mx es)"
    using assms by (simp add: stored_log_def strict_sorted_iff)
  show "mx \<le> int (length (file_image mx es))" by (simp add: length_file_image)
  show "file_ok mx es" using assms by (auto simp: stored_log_def)
  have "L = butlast L @ [last L]" using assms(2) by (cases L rule: rev_cases) auto
  then have "sorted_wrt (<) (map fst (butlast L @ [last L]))" "(f, es) \<in> set (butlast L @ [last L])"
    using s assms(2) by metis+
  then show "f \<le> fst (last L)" by (auto simp: sorted_wrt_append) (metis fst_conv order_refl)
qed

lemma reopened_inv:
  assumes L: "stored_log mx d vt L"
  shows "type_inv mx d vt (reopened_active vt L) (opened_archived vt (map fst L))"
proof (cases "L = []")
  case True
  then show ?thesis using L by (simp add: type_inv_def reopened_active_def opened_archived_def stored_log_def)
next
  case False
  then obtain L0 f0 es0 where L0: "L = L0 @ [(f0, es0)]" by (metis append_butlast_last_id prod.collapse)
  have lf: "lf_ok mx d vt lf"
    if "(f, es) \<in> set L" "IoController lf = FileIOController (log_name (FType vt) f)" "Fid lf = f" "0 \<le> Offset lf" for f es lf
    using stored_logD(1,2) [OF L that(1)] that by (simp add: lf_ok_def)
  have lt: "f < f0" if "f \<in> fst ` set L0" for f
    using L that by (auto simp: stored_log_def L0 sorted_wrt_append)
  have "contents d vt f = None" if "f0 < f" for f
  proof -
    have "f \<notin> fst ` set L"
    proof
      assume "f \<in> fst ` set L"
      then obtain es where "(f, es) \<in> set L" by auto
      then show False using stored_logD(4) [OF L, of f es] that L0 by simp
    qed
    then show ?thesis using L by (simp add: stored_log_def map_of_eq_None_iff)
  qed
  moreover have "lf_ok mx d vt ((fresh_lf vt f0)\<lparr>Offset := int (length (log_bytes es0))\<rparr>)"
    using lf [of f0 es0] L0 by (simp add: fresh_lf_def)
  moreover have "lf_ok mx d vt (fresh_lf vt f)" if f: "f \<in> fst ` set L0" for f
  proof -
    obtain es where "(f, es) \<in> set L0" using f by auto
    then have "(f, es) \<in> set L" using L0 by simp
    then show ?thesis by (rule lf) (simp_all add: fresh_lf_def)
  qed
  ultimately show ?thesis
    using L0 lt by (auto simp: type_inv_def reopened_active_def opened_archived_def fresh_lf_def split: if_splits)
qed

lemma reopened_logged:
  assumes "stored_log (MaxLogFileSize (cfg st)) (files st) vt L" "active st vt = reopened_active vt L"
    "archived st vt = opened_archived vt (map fst L)"
  shows "logged st vt L"
proof (cases "L = []")
  case False
  then obtain L0 f0 es0 where "L = L0 @ [(f0, es0)]" by (metis append_butlast_last_id prod.collapse)
  then show ?thesis using assms
    by (simp add: logged_def stored_log_def reopened_active_def opened_archived_def fresh_lf_def)
qed (use assms in \<open>simp add: logged_def stored_log_def reopened_active_def opened_archived_def\<close>)

text \<open>Opening the log files finds the files of every type in the order of their ids.\<close>

lemma buildLogFiles_logged:
  assumes c: "0 < MaxLogFileSize (cfg st)" "IOType (cfg st) = FileIO" and L: "\<And>vt. logged st vt (Ls vt)"
    and dir: "dir_ok dir (files st)"
  shows "\<exists>st' fm'. buildLogFiles dir (store (new_db A (cfg st) ds (files st) :: ('t, 's) LazyDB)) = (Inr (), st') \<and> is_open st' \<and>
    files st' = files st \<and> cfg st' = cfg st \<and> discardsMap st' = ds \<and>
    fidsMap st' = Some fm' \<and> (\<forall>t. sort (fm' t) = map fst (Ls t)) \<and>
    (\<forall>t. active st' t = opened_active t (map fst (Ls t))) \<and> (\<forall>t. archived st' t = opened_archived t (map fst (Ls t)))"
proof -
  let ?fm = "collect_fids dir (\<lambda>_. [])"
  let ?st = "(store (new_db A (cfg st) ds (files st) :: ('t, 's) LazyDB))\<lparr>fidsMap := Some ?fm\<rparr>"
  have fm: "sort (?fm vt) = map fst (Ls vt)" for vt
    using sorted_fids [OF dir L] by (simp add: collect_fids_eq)
  have st: "is_open ?st" "cfg ?st = cfg st" "files ?st = files st" "discardsMap ?st = ds"
    "active ?st vt = None" "archived ?st vt = Map.empty" for vt
    by (simp_all add: new_db_def is_open_def active_def) (rule ext, simp add: archived_def)
  have "long_file ?st vt f" if f: "f \<in> set (?fm vt)" for vt f
  proof -
    have "f \<in> set (map fst (Ls vt))" using f fm [of vt] by (metis set_sort)
    then obtain es where "(f, es) \<in> set (Ls vt)" by auto
    then show ?thesis using stored_logD(1,2) [OF logged_stored [OF L]] st(2,3) by (simp add: long_file_def)
  qed
  then obtain st' fm' where o: "open_types value_types ?st = (Inr (), st')" "is_open st'" "same_data ?st st'"
    "fidsMap st' = Some fm'" "\<And>t. sort (fm' t) = map fst (Ls t)"
    "\<And>t. active st' t = opened_active t (map fst (Ls t))" "\<And>t. archived st' t = opened_archived t (map fst (Ls t))"
    using open_types_ok [of ?st ?fm value_types] c st fm by auto
  moreover have "buildLogFiles dir (store (new_db A (cfg st) ds (files st) :: ('t, 's) LazyDB)) = (Inr (), st')"
    using o(1) by (simp add: buildLogFiles_def new_db_def)
  ultimately show ?thesis using st by (auto simp: same_data_def)
qed

text \<open>
  Opening the files of a database: whatever is in memory is forgotten; log files, their order
  and the discard tables come back, and the strings are read from their log.
\<close>

lemma Open_logged:
  fixes st :: Store
  assumes inv: "store_inv st" and L: "\<And>vt. logged st vt (Ls vt)" and dir: "dir_ok dir (files st)"
    and hash: "\<And>x. x \<in> set (Ls valueTypeHash) \<Longrightarrow> snd x = []"
  shows "\<exists>db' :: ('t, 's) LazyDB. Open A (cfg st) dir (files st) (\<lambda>vt. Some (d_file (discardsMap st vt))) = Inr db' \<and>
    store_inv (store db') \<and> (\<forall>vt. logged (store db') vt (Ls vt)) \<and>
    files (store db') = files st \<and> cfg (store db') = cfg st \<and>
    (\<forall>vt. disc_tab (discardsMap (store db') vt) = disc_tab (discardsMap st vt)) \<and>
    strIndex db' = foldl (restore_tree A) (NewART A) (log_seq (Ls valueTypeString)) \<and>
    hashIndex db' = Map.empty \<and> listIndex db' = Map.empty \<and> setIndex db' = Map.empty \<and> zSetIndex db' = Map.empty"
proof -
  let ?mx = "MaxLogFileSize (cfg st)"
  have c: "0 < ?mx" "IOType (cfg st) = FileIO" and "\<And>vt. discard_ok (discardsMap st vt)"
    using inv by (simp_all add: store_inv_def base_inv_def)
  then obtain ds where ds: "initDiscard (\<lambda>vt. Some (d_file (discardsMap st vt))) (DiscardBufferSize (cfg st)) = Inr ds"
    "\<And>vt. discard_ok (ds vt) \<and> disc_tab (ds vt) = disc_tab (discardsMap st vt)"
    using initDiscard_reload [of "discardsMap st"] by blast
  let ?db = "new_db A (cfg st) ds (files st) :: ('t, 's) LazyDB"
  have sl: "stored_log ?mx (files st) vt (Ls vt)" for vt using logged_stored [OF L] .
  obtain st' fm' where o: "buildLogFiles dir (store ?db) = (Inr (), st')" "is_open st'"
    "files st' = files st" "cfg st' = cfg st" "discardsMap st' = ds" "fidsMap st' = Some fm'"
    "\<forall>t. sort (fm' t) = map fst (Ls t)" "\<forall>t. active st' t = opened_active t (map fst (Ls t))"
    "\<forall>t. archived st' t = opened_archived t (map fst (Ls t))"
    using buildLogFiles_logged [OF c L dir, of A ds] by blast
  have "\<forall>t. \<forall>x \<in> set (Ls t). contents (files st) t (fst x) = Some (file_image ?mx (snd x)) \<and> file_ok ?mx (snd x) \<and>
      (t = valueTypeHash \<longrightarrow> t \<in> set value_types \<longrightarrow> snd x = [])"
    using stored_logD(1,3) [OF sl] hash by (metis prod.collapse)
  then have "\<exists>db'. build_types A value_types (?db\<lparr>store := st'\<rparr>) = Inr db' \<and> is_open (store db') \<and> same_data st' (store db') \<and>
    archived (store db') = archived st' \<and> (\<forall>t. active (store db') t = reopened_active t (Ls t)) \<and>
    db'\<lparr>store := st'\<rparr> = restore A valueTypeString (log_seq (Ls valueTypeString)) (?db\<lparr>store := st'\<rparr>)"
    using build_types_log [of Ls "?db\<lparr>store := st'\<rparr>" ?mx value_types fm' A] o(2-9) by simp blast
  then obtain db' where b: "build_types A value_types (?db\<lparr>store := st'\<rparr>) = Inr db'" "is_open (store db')"
    "same_data st' (store db')" "archived (store db') = archived st'" "\<And>t. active (store db') t = reopened_active t (Ls t)"
    "db'\<lparr>store := st'\<rparr> = restore A valueTypeString (log_seq (Ls valueTypeString)) (?db\<lparr>store := st'\<rparr>)"
    by blast
  have sd': "files (store db') = files st" "cfg (store db') = cfg st" "discardsMap (store db') = ds"
    using b(3) o(3-5) by (simp_all add: same_data_def)
  have op: "Open A (cfg st) dir (files st) (\<lambda>vt. Some (d_file (discardsMap st vt))) = Inr db'"
    using ds(1) o(1) b(1) by (simp add: Open_def buildIndexFromLogFiles_def)
  moreover have "base_inv (store db')"
    using b(2) c ds(2) reopened_inv [OF sl] by (simp add: base_inv_def sd' b(4,5) o(9))
  moreover have l: "logged (store db') vt (Ls vt)" for vt
    using reopened_logged [of "store db'" vt "Ls vt"] sl by (simp add: sd' b(4,5) o(9))
  ultimately have "store_inv (store db')" unfolding store_inv_def log_view_def by blast
  moreover have "strIndex db' = foldl (restore_tree A) (NewART A) (log_seq (Ls valueTypeString))" "hashIndex db' = Map.empty"
    "listIndex db' = Map.empty" "setIndex db' = Map.empty" "zSetIndex db' = Map.empty"
    using arg_cong [OF b(6), of strIndex] arg_cong [OF b(6), of hashIndex] arg_cong [OF b(6), of listIndex]
      arg_cong [OF b(6), of setIndex] arg_cong [OF b(6), of zSetIndex] by (simp_all add: restore_def new_db_def)
  ultimately show ?thesis using op l sd' ds(2) by auto
qed

end
