(* ===== verification/Reopen.thy ===== *)
theory Reopen
  imports Recovery
begin

text \<open>
  What reopening a database means for its contents. For a database whose string log determines
  its strings (\<open>durable\<close>), opening it again gives a database with the same strings; every
  sequence of writes to strings from a new database leads to such a state (\<open>session\<close>). Entries
  of a hash make \<open>Open\<close> panic, and the other types come back empty, because the code does not
  rebuild their indexes.
\<close>

subsection \<open>The strings of the reopened database\<close>

context value_index
begin

lemma restore_refers:
  assumes "\<exists>ls'. log_view st vt (ls @ ls')"
  shows "rel_option (\<lambda>v x. v_expiredAt v = 0 \<and> refers st vt k v x)
    (ART_Get A (foldl (restore_tree A) (NewART A) ls) k) (replay ls k)"
  using assms
proof (induction ls rule: rev_induct)
  case Nil
  show ?case by (simp add: idx.get_new)
next
  case (snoc x ls)
  obtain f off le where x: "x = (f, off, le)" by (cases x)
  have "refers st vt (Key le) (log_node f off le) (bs (Value le), ExpiredAt le)" if "Stat le \<noteq> SDelete"
    using snoc.prems that unfolding refers_def by (fastforce simp: log_node_def x)
  moreover have "\<exists>ls'. log_view st vt (ls @ ls')" using snoc.prems by (metis append.assoc)
  ultimately show ?case
    using snoc.IH by (auto simp: x restore_tree_def idx.put_get idx.del_get log_node_def)
qed

lemma restored_index:
  assumes "logged st vt L" "\<forall>k x. replay (log_seq L) k = Some x \<longrightarrow> snd x = 0"
  shows "index_rel A st vt (foldl (restore_tree A) (NewART A) (log_seq L)) (replay (log_seq L))"
proof -
  have "rel_option (\<lambda>v x. v_expiredAt v = 0 \<and> refers st vt k v x)
      (ART_Get A (foldl (restore_tree A) (NewART A) (log_seq L)) k) (replay (log_seq L) k)" for k
    using assms(1) by (intro restore_refers exI [of _ "[]"]) (auto simp: log_view_def)
  then show ?thesis unfolding index_rel_def points_def
    using assms(2) by (smt (verit) option.rel_cases option.rel_inject(2) option.rel_intros(1))
qed

lemma restored_get:
  assumes "store_inv (store db)" "logged (store db) valueTypeString L"
    "strIndex db = foldl (restore_tree A) (NewART A) (log_seq L)"
  shows "Get A now k db = lookup_item (Unix now) (replay (log_seq L)) k"
    "(\<forall>k x. replay (log_seq L) k = Some x \<longrightarrow> snd x = 0) \<Longrightarrow>
       index_rel A (store db) valueTypeString (strIndex db) (replay (log_seq L))"
proof -
  have r: "rel_option (\<lambda>v x. v_expiredAt v = 0 \<and> refers (store db) valueTypeString k v x)
      (ART_Get A (strIndex db) k) (replay (log_seq L) k)" for k
    unfolding assms(3) using assms(2) by (intro restore_refers exI [of _ "[]"]) (auto simp: log_view_def)
  show "Get A now k db = lookup_item (Unix now) (replay (log_seq L)) k"
  proof (cases "ART_Get A (strIndex db) k")
    case None
    then have "replay (log_seq L) k = None" using r [of k] by simp
    then show ?thesis using None by (simp add: Get_def str_get_def getValue_def lookup_item_def)
  next
    case (Some v)
    then obtain x where "replay (log_seq L) k = Some x" "v_expiredAt v = 0" "refers (store db) valueTypeString k v x"
      using r [of k] by (auto simp: option_rel_Some1)
    then show ?thesis
      using getValue_refers [OF assms(1) Some] by (simp add: Get_def str_get_def lookup_item_def)
  qed
  show "index_rel A (store db) valueTypeString (strIndex db) (replay (log_seq L))"
    if "\<forall>k x. replay (log_seq L) k = Some x \<longrightarrow> snd x = 0"
    unfolding assms(3) using assms(2) that by (rule restored_index)
qed

lemma Open_rel:
  fixes db :: "('t, 's) LazyDB"
  assumes inv: "store_inv (store db)" and dur: "durable db a" and dir: "dir_ok dir (files (store db))"
    and hash: "log_view (store db) valueTypeHash []"
  shows "\<exists>db' :: ('t, 's) LazyDB.
    Open A (cfg (store db)) dir (files (store db)) (\<lambda>vt. Some (d_file (discardsMap (store db) vt))) = Inr db' \<and>
    (\<forall>now k. Get A now k db' = lookup_item (Unix now) (a_str a) k) \<and> durable db' a \<and>
    ((\<forall>k x. a_str a k = Some x \<longrightarrow> snd x = 0) \<longrightarrow> db_rel A db' (empty_adb\<lparr>a_str := a_str a\<rparr>)) \<and>
    (\<forall>vt. disc_tab (discardsMap (store db') vt) = disc_tab (discardsMap (store db) vt))"
proof -
  let ?st = "store db"
  obtain Ls where L: "\<And>vt. logged ?st vt (Ls vt)" and s: "replay (log_seq (Ls valueTypeString)) = a_str a"
    and h: "log_seq (Ls valueTypeHash) = []"
  proof -
    have "\<exists>L. logged ?st vt L \<and> (vt = valueTypeString \<longrightarrow> replay (log_seq L) = a_str a) \<and>
        (vt = valueTypeHash \<longrightarrow> log_seq L = [])" for vt
      using store_inv_log [OF inv, of vt] dur hash
      by (cases vt) (auto simp: durable_def log_view_def)
    then show ?thesis using that by metis
  qed
  have "snd x = []" if "x \<in> set (Ls valueTypeHash)" for x
    using h that by (cases x; cases "snd x") (auto simp: log_seq_def)
  then obtain db' :: "('t, 's) LazyDB" where
    o: "Open A (cfg ?st) dir (files ?st) (\<lambda>vt. Some (d_file (discardsMap ?st vt))) = Inr db'" "store_inv (store db')"
    "\<And>vt. logged (store db') vt (Ls vt)" "\<And>vt. disc_tab (discardsMap (store db') vt) = disc_tab (discardsMap ?st vt)"
    "strIndex db' = foldl (restore_tree A) (NewART A) (log_seq (Ls valueTypeString))"
    "hashIndex db' = Map.empty" "listIndex db' = Map.empty" "setIndex db' = Map.empty" "zSetIndex db' = Map.empty"
    using Open_logged [OF inv L dir, of A] by blast
  have lv: "\<exists>ls. log_view (store db') vt ls" for vt unfolding log_view_def using o(3) by blast
  have "db_rel A db' (empty_adb\<lparr>a_str := a_str a\<rparr>)" if "\<forall>k x. a_str a k = Some x \<longrightarrow> snd x = 0"
    using restored_get(2) [OF o(2,3,5)] that o(2) lv s by (simp add: db_rel_def o(6-9) empty_adb_def)
  moreover have "durable db' a" using o(3) s by (auto simp: durable_def log_view_def)
  ultimately show ?thesis using o(1,4) restored_get(1) [OF o(2,3,5)] s by auto
qed

end

text \<open>Every database has such a listing.\<close>

lemma dir_exists:
  assumes "\<And>vt. logged st vt (Ls vt)"
  shows "\<exists>dir. dir_ok dir (files st)"
proof -
  define N where "N = (\<Union>vt. (\<lambda>x. log_name (FType vt) (fst x)) ` set (Ls vt))"
  have "finite (UNIV :: valueType set)" using value_types_all(1) by (metis List.finite_set)
  then have "finite N" by (simp add: N_def)
  then obtain dir where dir: "set dir = N" "distinct dir" using finite_distinct_list by blast
  have "log_name (FType vt) f \<in> N \<longleftrightarrow> f \<in> fst ` set (Ls vt)" for vt f
  proof
    assume "log_name (FType vt) f \<in> N"
    then obtain t x where "x \<in> set (Ls t)" "log_name (FType vt) f = log_name (FType t) (fst x)" by (auto simp: N_def)
    then show "f \<in> fst ` set (Ls vt)" by (metis parse_log_name_FType option.inject prod.inject vtype_FType imageI)
  qed (auto simp: N_def)
  moreover have "contents (files st) vt f \<noteq> None \<longleftrightarrow> f \<in> fst ` set (Ls vt)" for vt f
    using assms [of vt] by (simp add: logged_def map_of_eq_None_iff)
  moreover have "\<exists>vt f. n = log_name (FType vt) f" if "n \<in> N" for n using that by (auto simp: N_def)
  ultimately have "dir_ok dir (files st)" using dir unfolding dir_ok_def by blast
  then show ?thesis ..
qed

subsection \<open>Entries of hashes\<close>

lemma build_types_append:
  "build_types A (xs @ ys) db = (case build_types A xs db of Inl e \<Rightarrow> Inl e | Inr db' \<Rightarrow> build_types A ys db')"
  by (induction xs arbitrary: db) (auto split: option.split sum.split)

lemma build_files_panic:
  assumes "\<forall>x \<in> set L. contents (files (store db)) valueTypeHash (fst x) = Some (file_image mx (snd x)) \<and> file_ok mx (snd x)"
    "active (store db) valueTypeHash = opened_active valueTypeHash (map fst L)" "is_open (store db)"
    "\<forall>f \<in> set (butlast (map fst L)). archived (store db) valueTypeHash f = Some (fresh_lf valueTypeHash f)"
    "log_seq L = (f0, off0, le) # ls" "decodeKey (Key le) = Inr (key, field)" "hashIndex db = Map.empty"
  shows "build_files A valueTypeHash (map fst L) db = Inl Panic"
  using assms
proof (induction L)
  case (Cons x L)
  obtain f es where x: "x = (f, es)" by (cases x)
  let ?lf = "fresh_lf valueTypeHash f"
  have lf: "(if map fst L = [] then (case active (store db) valueTypeHash of None \<Rightarrow> Inl Panic | Some lf \<Rightarrow> Inr lf)
      else (case getArchivedLogFile valueTypeHash f (store db) of
              Inl e \<Rightarrow> Inl e | Inr None \<Rightarrow> Inl Fatal | Inr (Some lf) \<Rightarrow> Inr lf)) = Inr ?lf"
  proof (cases "L = []")
    case True
    then show ?thesis using Cons.prems(2) x by (simp add: opened_active_def)
  next
    case False
    obtain ar where "archivedLogFile (store db) = Some ar" "cm_wf (ar valueTypeHash)"
      using Cons.prems(3) by (auto simp: is_open_def)
    then show ?thesis using False Cons.prems(4) x by (simp add: getArchivedLogFile_def cm.get_view archived_def)
  qed
  have io: "IoController ?lf = FileIOController (log_name (FType valueTypeHash) f)" by (simp add: fresh_lf_def)
  have c: "contents (files (store db)) valueTypeHash f = Some (file_image mx es)" and ok: "file_ok mx es"
    using Cons.prems(1) x by auto
  show ?case
  proof (cases es)
    case Nil
    then have "build_file A valueTypeHash f ?lf 0 db = Inr (0, db)"
      using build_file_image [of db valueTypeHash f mx "[]" "[]" ?lf A] c ok io by simp
    moreover have "L \<noteq> []" "build_files A valueTypeHash (map fst L) db = Inl Panic"
      using Cons Nil x by (auto simp: log_seq_def opened_active_def split: if_splits)
    ultimately show ?thesis using lf x by simp
  next
    case (Cons le' es')
    then have "le' = le" using Cons.prems(5) x by (simp add: log_seq_def)
    then have "ReadLogEntry ?lf (files (store db)) 0 = Inr (stored le, int (entry_size le))"
      using read_image [OF c io] scan_entry [of mx "[]" le es'] ok Cons by simp
    then have "build_file A valueTypeHash f ?lf 0 db = Inl Panic"
      using Cons.prems(6,7) by (subst build_file.simps) (simp add: buildIndexByVType_def buildHashIndex_def)
    then show ?thesis using lf x by simp
  qed
qed (simp add: log_seq_def)

text \<open>Opening the files of a database whose hash log starts with an entry of a hash field.\<close>

lemma Open_panics:
  fixes A :: "('t, Value_t) art"
  assumes inv: "store_inv st" and L: "\<And>vt. logged st vt (Ls vt)" and dir: "dir_ok dir (files st)"
    and hash: "log_seq (Ls valueTypeHash) = (f, off, le) # ls" "decodeKey (Key le) = Inr (key, field)"
  shows "Open A (cfg st) dir (files st) (\<lambda>vt. Some (d_file (discardsMap st vt))) = (Inl Panic :: ('t, 's) LazyDB result)"
proof -
  let ?mx = "MaxLogFileSize (cfg st)" and ?early = "[valueTypeString, valueTypeList]"
  have c: "0 < ?mx" "IOType (cfg st) = FileIO" and "\<And>vt. discard_ok (discardsMap st vt)"
    using inv by (simp_all add: store_inv_def base_inv_def)
  then obtain ds where ds: "initDiscard (\<lambda>vt. Some (d_file (discardsMap st vt))) (DiscardBufferSize (cfg st)) = Inr ds"
    using initDiscard_reload [of "discardsMap st"] by blast
  let ?db = "new_db A (cfg st) ds (files st) :: ('t, 's) LazyDB"
  obtain st' fm' where o: "buildLogFiles dir (store ?db) = (Inr (), st')" "is_open st'"
    "files st' = files st" "cfg st' = cfg st" "discardsMap st' = ds" "fidsMap st' = Some fm'"
    "\<forall>t. sort (fm' t) = map fst (Ls t)" "\<forall>t. active st' t = opened_active t (map fst (Ls t))"
    "\<forall>t. archived st' t = opened_archived t (map fst (Ls t))"
    using buildLogFiles_logged [OF c L dir, of A ds] by blast
  have img: "\<forall>t. \<forall>x \<in> set (Ls t). contents (files st) t (fst x) = Some (file_image ?mx (snd x)) \<and> file_ok ?mx (snd x)"
    using stored_logD(1,3) [OF logged_stored [OF L]] by (metis prod.collapse)
  define d1 where "d1 = ?db\<lparr>store := st'\<rparr>"
  then have d1: "store d1 = st'" "hashIndex d1 = Map.empty" by (simp_all add: new_db_def)
  obtain db' where b: "build_types A ?early d1 = Inr db'" "is_open (store db')" "same_data st' (store db')"
    "archived (store db') = archived st'" "fidsMap (store db') = Some fm'"
    "\<forall>t. active (store db') t = (if t \<in> set ?early then reopened_active t (Ls t) else active st' t)"
    "db'\<lparr>store := st'\<rparr> = restore A valueTypeString (log_seq (Ls valueTypeString)) d1"
    using build_types_log [of Ls d1 ?mx ?early fm' A] img o(2-9) d1(1) by (simp del: build_types.simps split del: if_split) blast
  have "hashIndex db' = Map.empty" using arg_cong [OF b(7), of hashIndex] d1(2) by simp
  then have "build_files A valueTypeHash (map fst (Ls valueTypeHash)) db' = Inl Panic"
    using build_files_panic [of "Ls valueTypeHash" db' ?mx f off le ls key field A] img b(2,3) hash o
    by (simp add: b(4,6) same_data_def opened_archived_def)
  then have h: "build_types A [valueTypeHash, valueTypeSet, valueTypeZSet] db' = Inl Panic" using b(5) o(7) by simp
  have v: "value_types = ?early @ [valueTypeHash, valueTypeSet, valueTypeZSet]" by (simp add: value_types_def)
  have "build_types A value_types d1 = Inl Panic"
    unfolding v build_types_append b(1) using h by (simp del: build_types.simps)
  then show ?thesis using ds o(1) by (simp add: Open_def buildIndexFromLogFiles_def d1_def)
qed

subsection \<open>Reading any file\<close>

text \<open>
  What the bytes of a file hold from an offset on: the entries that can be read one behind the other, with
  their offsets and sizes, then the offset and the error at which the reading stops.
\<close>

inductive scan :: "LogFile \<Rightarrow> fs \<Rightarrow> int \<Rightarrow> (int \<times> int \<times> LogEntry) list \<Rightarrow> int \<Rightarrow> err \<Rightarrow> bool" for lf d where
  stop: "ReadLogEntry lf d off = Inl e \<Longrightarrow> scan lf d off [] off e"
| step: "ReadLogEntry lf d off = Inr (le, n) \<Longrightarrow> scan lf d (off + n) es off' e \<Longrightarrow> scan lf d off ((off, n, le) # es) off' e"

primrec index_all ::
    "('t, Value_t) art \<Rightarrow> valueType \<Rightarrow> u32 \<Rightarrow> (int \<times> int \<times> LogEntry) list \<Rightarrow> ('t, 's) LazyDB \<Rightarrow> ('t, 's) LazyDB result" where
  "index_all A vt fid [] db = Inr db"
| "index_all A vt fid (x # xs) db =
     (case x of (off, n, le) \<Rightarrow>
        (case buildIndexByVType A vt le \<lparr>vp_fid = fid, vp_offset = off, vp_entrySize = n\<rparr> db of
           Inl e \<Rightarrow> Inl e
         | Inr db' \<Rightarrow> index_all A vt fid xs db'))"

lemma scan_exists: "\<exists>es off' e. scan lf d off es off' e"
proof (induction "nat (read_limit (IoController lf) d - off)" arbitrary: off rule: less_induct)
  case less
  show ?case
  proof (cases "ReadLogEntry lf d off")
    case (Inl e)
    then show ?thesis using scan.stop by blast
  next
    case (Inr x)
    obtain le n where x: "x = (le, n)" by (cases x)
    have r: "ReadLogEntry_from (IO_Read (IoController lf) d) off = Inr (le, n)" using Inr x by (simp add: ReadLogEntry_def)
    have "off < read_limit (IoController lf) d" using ReadLogEntry_progress(2) [OF r] read_limit_less by blast
    then have "nat (read_limit (IoController lf) d - (off + n)) < nat (read_limit (IoController lf) d - off)"
      using ReadLogEntry_progress(1) [OF r] by simp
    from less [OF this] show ?thesis using scan.step [of lf d off le n] Inr x by blast
  qed
qed

lemma scan_grows: "scan lf d off es off' e \<Longrightarrow> off + int (length es) \<le> off'"
proof (induction rule: scan.induct)
  case (step off le n es off' e)
  then show ?case using ReadLogEntry_progress(1) [of "IO_Read (IoController lf) d" off le n] by (simp add: ReadLogEntry_def)
qed simp

lemma index_all_store: "index_all A vt fid es db = Inr db' \<Longrightarrow> store db' = store db"
  by (induction es arbitrary: db) (auto split: sum.splits prod.splits dest: buildIndexByVType_store)

lemma build_file_scan:
  assumes "scan lf d off es off' e" "files (store db) = d"
  shows "build_file A vt fid lf off db =
    (case index_all A vt fid es db of
       Inl er \<Rightarrow> Inl er
     | Inr db' \<Rightarrow> if e = EOF \<or> e = ErrLogEndOfFile then Inr (off', db') else Inl (if e = Panic then Panic else Fatal))"
  using assms
proof (induction arbitrary: db rule: scan.induct)
  case (stop off e)
  then show ?case by (subst build_file.simps) simp
next
  case (step off le n es off' e)
  show ?case
  proof (cases "buildIndexByVType A vt le \<lparr>vp_fid = fid, vp_offset = off, vp_entrySize = n\<rparr> db")
    case (Inl er)
    then show ?thesis using step by (subst build_file.simps) simp
  next
    case (Inr db1)
    then show ?thesis using step step.IH [of db1] buildIndexByVType_store [OF Inr] by (subst build_file.simps) simp
  qed
qed

subsection \<open>Sessions\<close>

text \<open>
  A session is a sequence of writes to strings, each issued when the log and the channel have
  room for it, interleaved with steps of the goroutines that empty the channels. The last rule
  allows those to do anything that keeps the discard tables well formed.
\<close>

inductive session :: "('t, Value_t) art \<Rightarrow> ('t, 's) LazyDB \<Rightarrow> ('t, 's) LazyDB \<Rightarrow> bool" for A db0 where
  start: "session A db0 db0"
| set: "session A db0 db \<Longrightarrow> put_ok (store db) valueTypeString (mk_entry k v) \<Longrightarrow>
    chan_room (store db) valueTypeString 1 \<Longrightarrow> Set A k v db = (r, db') \<Longrightarrow> session A db0 db'"
| setEX: "session A db0 db \<Longrightarrow> put_ok (store db) valueTypeString ((mk_entry k v)\<lparr>ExpiredAt := Unix (now + d)\<rparr>) \<Longrightarrow>
    chan_room (store db) valueTypeString 1 \<Longrightarrow> SetEX A now k v d db = (r, db') \<Longrightarrow> session A db0 db'"
| setNX: "session A db0 db \<Longrightarrow> put_ok (store db) valueTypeString (mk_entry k v) \<Longrightarrow>
    chan_room (store db) valueTypeString 1 \<Longrightarrow> SetNX A now k v db = (r, db') \<Longrightarrow> session A db0 db'"
| delete: "session A db0 db \<Longrightarrow> put_ok (store db) valueTypeString (del_entry k) \<Longrightarrow>
    chan_room (store db) valueTypeString 2 \<Longrightarrow> Delete A k db = (r, db') \<Longrightarrow> session A db0 db'"
| getDel: "session A db0 db \<Longrightarrow> put_ok (store db) valueTypeString (del_entry k) \<Longrightarrow>
    chan_room (store db) valueTypeString 2 \<Longrightarrow> GetDel A now k db = (x, db') \<Longrightarrow> session A db0 db'"
| listen: "session A db0 db \<Longrightarrow> \<forall>vt. discard_ok (ds vt) \<Longrightarrow> session A db0 (db\<lparr>store := (store db)\<lparr>discardsMap := ds\<rparr>\<rparr>)"

definition session_inv :: "('t, Value_t) art \<Rightarrow> ('t, 's) LazyDB \<Rightarrow> bool" where
  "session_inv A db \<longleftrightarrow> (\<exists>a. db_rel A db a \<and> durable db a \<and> log_view (store db) valueTypeHash [])"

context value_index
begin

lemma put_session_inv:
  assumes "session_inv A db" "put_ok (store db) valueTypeString le" "Stat le \<noteq> SDelete"
    "chan_room (store db) valueTypeString 1" "str_put A le db = (r, db')"
  shows "session_inv A db'"
proof -
  obtain a where a: "db_rel A db a" "durable db a" "log_view (store db) valueTypeHash []"
    using assms(1) by (auto simp: session_inv_def)
  then show ?thesis
    using str_put_rel [OF a(1) assms(2-4)] assms(5) store_ext_log(2) [of valueTypeString "store db" "store db'" valueTypeHash]
    unfolding session_inv_def by auto
qed

lemma del_session_inv:
  assumes "session_inv A db" "put_ok (store db) valueTypeString (del_entry k)"
    "chan_room (store db) valueTypeString 2" "str_del A k db = (r, db')"
  shows "session_inv A db'"
proof -
  obtain a where a: "db_rel A db a" "durable db a" "log_view (store db) valueTypeHash []"
    using assms(1) by (auto simp: session_inv_def)
  then show ?thesis
    using str_del_rel [OF a(1) assms(2,3)] assms(4) store_ext_log(2) [of valueTypeString "store db" "store db'" valueTypeHash]
    unfolding session_inv_def by auto
qed

lemma session_keeps_inv: "session A db0 db \<Longrightarrow> session_inv A db0 \<Longrightarrow> session_inv A db"
proof (induction rule: session.induct)
  case (set db k v r db')
  then show ?case by (auto simp: Set_def SDelete_def intro: put_session_inv)
next
  case (setEX db k v now d r db')
  then show ?case by (auto simp: SetEX_def SDelete_def intro: put_session_inv)
next
  case (setNX db k v now r db')
  then show ?case by (auto simp: SetNX_def SDelete_def intro: put_session_inv split: sum.splits option.splits)
next
  case (delete db k r db')
  then show ?case by (auto simp: Delete_def intro: del_session_inv split: sum.splits prod.splits)
next
  case (getDel db k now x db')
  then show ?case by (auto simp: GetDel_def intro: del_session_inv split: sum.splits prod.splits option.splits)
next
  case (listen db ds)
  then obtain a where "db_rel A db a" "durable db a" "log_view (store db) valueTypeHash []"
    by (auto simp: session_inv_def)
  then show ?case using db_rel_listen [OF _ listen(2)] by (auto simp: session_inv_def durable_def)
qed

end

subsection \<open>Databases with a given log\<close>

lemma cm_exists: "\<exists>cm :: (u32, 'v) ConcurrentMap. cm_wf cm \<and> cm_view cm = (\<lambda>f. if f \<in> set fs then Some (g f) else None)"
proof (induction fs)
  case Nil
  show ?case by (rule exI [of _ "NewWithCustomShardingFunction DefaultShardCount SimpleSharding"]) simp
next
  case (Cons f fs)
  then obtain cm where "cm_wf cm" "cm_view cm = (\<lambda>f. if f \<in> set fs then Some (g f) else None)" by blast
  then show ?case using cm.put_view [of cm f "g f"] by (force simp: fun_eq_iff)
qed

definition log_files :: "valueType \<Rightarrow> int \<Rightarrow> (u32 \<times> LogEntry list) list \<Rightarrow> fs" where
  "log_files t mx L = map_of (map (\<lambda>x. (log_name (FType t) (fst x), file_image mx (snd x))) L)"

lemma log_files_contents:
  "contents (log_files t mx L) vt f = (if vt = t then map_option (file_image mx) (map_of L f) else None)"
proof (induction L)
  case (Cons x L)
  have "log_files t mx (x # L) = (log_files t mx L)(log_name (FType t) (fst x) := Some (file_image mx (snd x)))"
    by (simp add: log_files_def)
  then have "contents (log_files t mx (x # L)) vt f =
      (if t = vt \<and> fst x = f then Some (file_image mx (snd x)) else contents (log_files t mx L) vt f)"
    by (simp only: contents_upd)
  then show ?case using Cons by (cases x) auto
qed (simp add: log_files_def contents_def)

lemma store_exists:
  assumes L: "sorted_wrt (<) (map fst L)" "\<forall>x \<in> set L. file_ok mx (snd x)" and mx: "mx = MaxLogFileSize (DefaultDBConfig [])"
    and d: "discard_ok d"
  shows "\<exists>st. store_inv st \<and> logged st t L \<and> (\<forall>vt. vt \<noteq> t \<longrightarrow> log_view st vt []) \<and>
    discardsMap st = (\<lambda>_. fresh_discard 8)(t := d) \<and> active st t = reopened_active t L"
proof -
  let ?Ls = "\<lambda>vt. if vt = t then L else []"
  obtain cm where cm: "cm_wf cm" "cm_view cm = (\<lambda>f. if f \<in> set (butlast (map fst L)) then Some (fresh_lf t f) else None)"
    using cm_exists [of "butlast (map fst L)" "fresh_lf t"] by blast
  define st where "st = \<lparr>cfg = DefaultDBConfig [], files = log_files t mx L, discardsMap = (\<lambda>_. fresh_discard 8)(t := d),
    fidsMap = Some (\<lambda>vt. map fst (?Ls vt)), activeLogFileMap = Some (\<lambda>vt. reopened_active vt (?Ls vt)),
    archivedLogFile = Some ((\<lambda>_. NewWithCustomShardingFunction DefaultShardCount SimpleSharding)(t := cm))\<rparr>"
  have sel: "active st vt = reopened_active vt (?Ls vt)" "archived st vt = opened_archived vt (map fst (?Ls vt))" for vt
    using cm(2) by (auto simp: st_def active_def archived_def opened_archived_def fun_eq_iff)
  have "MaxLogFileSize (cfg st) = mx" by (simp add: st_def mx)
  then have sl: "stored_log (MaxLogFileSize (cfg st)) (files st) vt (?Ls vt)" for vt
    using L by (simp add: stored_log_def log_files_contents st_def)
  have l: "logged st vt (?Ls vt)" for vt using reopened_logged [OF sl sel] .
  have "is_open st" using cm(1) by (simp add: is_open_def st_def)
  moreover have "0 < MaxLogFileSize (cfg st)" "IOType (cfg st) = FileIO" "discard_ok (discardsMap st vt)" for vt
    using d by (simp_all add: st_def DefaultDBConfig_def)
  ultimately have "base_inv st" using reopened_inv [OF sl] unfolding base_inv_def sel by blast
  then have "store_inv st" using l unfolding store_inv_def log_view_def by blast
  moreover have "log_view st vt []" if "vt \<noteq> t" for vt using l [of vt] that unfolding log_view_def by force
  ultimately show ?thesis using l [of t] sel(1) [of t] by (intro exI [of _ st]) (simp add: st_def)
qed

lemma any_string_db_exists:
  assumes L: "sorted_wrt (<) (map fst L)" "\<forall>x \<in> set L. file_ok mx (snd x)" and mx: "mx = MaxLogFileSize (DefaultDBConfig [])"
    and d: "discard_ok d" and exp: "\<forall>k x. replay (log_seq L) k = Some x \<longrightarrow> snd x = 0"
  shows "\<exists>db :: ((bytes, Value_t) rbt, 's) LazyDB. db_rel rbt_art db (empty_adb\<lparr>a_str := replay (log_seq L)\<rparr>) \<and>
    logged (store db) valueTypeString L \<and> log_view (store db) valueTypeHash [] \<and> discardsMap (store db) = (\<lambda>_. fresh_discard 8)(valueTypeString := d) \<and>
    active (store db) valueTypeString = reopened_active valueTypeString L"
proof -
  obtain st where st: "store_inv st" "logged st valueTypeString L" "\<forall>vt. vt \<noteq> valueTypeString \<longrightarrow> log_view st vt []"
    "discardsMap st = (\<lambda>_. fresh_discard 8)(valueTypeString := d)" "active st valueTypeString = reopened_active valueTypeString L"
    using store_exists [OF L mx d] by blast
  let ?db = "\<lparr>store = st, strIndex = foldl (restore_tree rbt_art) (NewART rbt_art) (log_seq L), hashIndex = Map.empty,
    listIndex = Map.empty, setIndex = Map.empty, zSetIndex = Map.empty\<rparr> :: ((bytes, Value_t) rbt, 's) LazyDB"
  have "db_rel rbt_art ?db (empty_adb\<lparr>a_str := replay (log_seq L)\<rparr>)"
    using st(1) rbt_values.restored_index [OF st(2) exp] by (simp add: db_rel_def empty_adb_def)
  then show ?thesis using st by (intro exI [of _ ?db]) simp
qed

lemmas string_db_exists = any_string_db_exists [where ?'s = unit]

lemma hash_db_exists:
  assumes L: "sorted_wrt (<) (map fst L)" "\<forall>x \<in> set L. file_ok mx (snd x)" and mx: "mx = MaxLogFileSize (DefaultDBConfig [])"
    and d: "discard_ok d" and exp: "\<forall>k x. replay (log_seq L) k = Some x \<longrightarrow> snd x = 0"
  shows "\<exists>db :: ((bytes, Value_t) rbt, unit) LazyDB. db_rel rbt_art db (empty_adb\<lparr>a_hash := [key \<mapsto> replay (log_seq L)]\<rparr>) \<and>
    logged (store db) valueTypeHash L \<and> discardsMap (store db) = (\<lambda>_. fresh_discard 8)(valueTypeHash := d) \<and>
    active (store db) valueTypeHash = reopened_active valueTypeHash L"
proof -
  obtain st where st: "store_inv st" "logged st valueTypeHash L"
    "discardsMap st = (\<lambda>_. fresh_discard 8)(valueTypeHash := d)" "active st valueTypeHash = reopened_active valueTypeHash L"
    using store_exists [OF L mx d] by blast
  let ?db = "\<lparr>store = st, strIndex = NewART rbt_art, hashIndex = [key \<mapsto> foldl (restore_tree rbt_art) (NewART rbt_art) (log_seq L)],
    listIndex = Map.empty, setIndex = Map.empty, zSetIndex = Map.empty\<rparr> :: ((bytes, Value_t) rbt, unit) LazyDB"
  have "db_rel rbt_art ?db (empty_adb\<lparr>a_hash := [key \<mapsto> replay (log_seq L)]\<rparr>)"
    using st(1) rbt_values.restored_index [OF st(2) exp] rbt_values.new_rel by (simp add: db_rel_def empty_adb_def)
  then show ?thesis using st by (intro exI [of _ ?db]) simp
qed

subsection \<open>What is not recovered\<close>

text \<open>The indexes of lists, sets, sorted sets and hashes are those the replay started with.\<close>

definition other_indexes ::
    "('t, 's) LazyDB \<Rightarrow> (bytes \<Rightarrow> 't option) \<times> (bytes \<Rightarrow> 't option) \<times> (bytes \<Rightarrow> 't option) \<times> (bytes \<Rightarrow> ('t, 's) ZSetIndex option)" where
  "other_indexes db = (hashIndex db, listIndex db, setIndex db, zSetIndex db)"

lemma other_indexes_simps [simp]:
  "other_indexes (db\<lparr>strIndex := t\<rparr>) = other_indexes db" "other_indexes (db\<lparr>store := st\<rparr>) = other_indexes db"
  "hashIndex db = Map.empty \<Longrightarrow> other_indexes db = (Map.empty, listIndex db, setIndex db, zSetIndex db)"
  by (simp_all add: other_indexes_def)

lemma build_entry_others:
  "buildIndexByVType A vt entry vPos db = Inr db' \<Longrightarrow> hashIndex db = Map.empty \<Longrightarrow> other_indexes db' = other_indexes db"
  by (cases vt)
    (auto simp: buildIndexByVType_def buildStrIndex_def buildHashIndex_def split: if_splits sum.splits)

lemma hash_of_others: "other_indexes db' = other_indexes db \<Longrightarrow> hashIndex db' = hashIndex db"
  by (simp add: other_indexes_def)

lemma build_file_others:
  "build_file A vt fid lf offset db = Inr (offset', db') \<Longrightarrow> hashIndex db = Map.empty \<Longrightarrow> other_indexes db' = other_indexes db"
proof (induction A vt fid lf offset db arbitrary: offset' db' rule: build_file.induct)
  case (1 A vt fid lf offset db)
  show ?case
  proof (cases "ReadLogEntry lf (files (store db)) offset")
    case (Inl e)
    then show ?thesis using 1(2) by (simp add: build_file.simps [of A vt fid lf offset] split: if_splits)
  next
    case (Inr x)
    obtain entry n where x: "x = (entry, n)" by (cases x)
    obtain db1 where b: "buildIndexByVType A vt entry \<lparr>vp_fid = fid, vp_offset = offset, vp_entrySize = n\<rparr> db = Inr db1"
      "build_file A vt fid lf (offset + n) db1 = Inr (offset', db')"
      using 1(2) Inr x by (simp add: build_file.simps [of A vt fid lf offset] split: sum.splits)
    note o = build_entry_others [OF b(1) 1(3)]
    then show ?thesis using 1(1) [OF Inr x [symmetric] b] hash_of_others [OF o] 1(3) by simp
  qed
qed

lemma build_files_others:
  "build_files A vt fids db = Inr db' \<Longrightarrow> hashIndex db = Map.empty \<Longrightarrow> other_indexes db' = other_indexes db"
proof (induction fids arbitrary: db)
  case (Cons fid fids)
  obtain lf offset db1 where b: "build_file A vt fid lf 0 db = Inr (offset, db1)"
    "if fids = [] then db' = db1\<lparr>store := (store db1)\<lparr>activeLogFileMap :=
       map_option (\<lambda>am. am(vt \<mapsto> lf\<lparr>Offset := offset\<rparr>)) (activeLogFileMap (store db1))\<rparr>\<rparr> else build_files A vt fids db1 = Inr db'"
    using Cons.prems(1) by (auto split: sum.splits prod.splits if_splits option.splits)
  note o = build_file_others [OF b(1) Cons.prems(2)]
  show ?case
  proof (cases "fids = []")
    case True
    then show ?thesis using b(2) o by simp
  next
    case False
    then show ?thesis using Cons.IH [of db1] b(2) o hash_of_others [OF o] Cons.prems(2) by simp
  qed
qed simp

lemma build_types_others:
  "build_types A vts db = Inr db' \<Longrightarrow> hashIndex db = Map.empty \<Longrightarrow> other_indexes db' = other_indexes db"
proof (induction vts arbitrary: db)
  case (Cons vt vts)
  then obtain fm db1 where b: "build_files A vt (sort (fm vt)) db = Inr db1" "build_types A vts db1 = Inr db'"
    by (auto split: option.splits sum.splits)
  note o = build_files_others [OF b(1) Cons.prems(2)]
  then show ?case using Cons.IH [OF b(2)] hash_of_others [OF o] Cons.prems(2) by simp
qed simp

subsection \<open>Properties\<close>

text \<open>
  C9. Reopening a database that has no hash entry in its log and whose string log, read from the start, gives
  its strings (\<open>durable\<close>): Open succeeds and gives every key its value back, every Get at every time
  returns what it returned before. Expiry times keep their effect on Get; a database without them stands for the
  same map, so every string command agrees. The discard tables come back as they were on disk. With a hash entry
  in the log Open panics, and lists, sets and sorted sets are not rebuilt.
\<close>

theorem Open_recovers:
  fixes db :: "('t, 's) LazyDB"
  assumes "art_engine A" and rel: "db_rel A db a" and dur: "durable db a"
    and dir: "dir_ok dir (files (store db))" and hash: "log_view (store db) valueTypeHash []"
  shows "\<exists>db' :: ('t, 's) LazyDB.
    Open A (cfg (store db)) dir (files (store db)) (\<lambda>vt. Some (d_file (discardsMap (store db) vt))) = Inr db' \<and>
    (\<forall>now k. Get A now k db' = Get A now k db) \<and> durable db' a \<and>
    ((\<forall>k x. a_str a k = Some x \<longrightarrow> snd x = 0) \<longrightarrow> db_rel A db' (empty_adb\<lparr>a_str := a_str a\<rparr>)) \<and>
    (\<forall>vt. disc_tab (discardsMap (store db') vt) = disc_tab (discardsMap (store db) vt))"
proof -
  note vi = value_index.intro [OF assms(1)]
  have "Get A now k db = lookup_item (Unix now) (a_str a) k" for now k
    using value_index.str_get_rel [OF vi rel] by (simp add: Get_def)
  then show ?thesis using value_index.Open_rel [OF vi db_relD(1) [OF rel] dur dir hash] by simp
qed

lemma sample_hash: "log_view (store sample_db) valueTypeHash []"
  by (auto simp: sample_db_def log_view_def logged_def new_db_def active_def archived_def contents_def log_seq_def
      intro!: exI [of _ "[]"])

lemma session_inv_dir: "session_inv A db \<Longrightarrow> \<exists>dir. dir_ok dir (files (store db))"
proof -
  assume "session_inv A db"
  then have "store_inv (store db)" by (auto simp: session_inv_def db_rel_def)
  then have "\<exists>L. logged (store db) vt L" for vt by (rule store_inv_log)
  then show ?thesis using dir_exists by metis
qed

lemma sample_session:
  "\<exists>db'. Set rbt_art (replicate 20 1) (Some [2]) sample_db = (Inr (), db') \<and> session rbt_art sample_db db' \<and>
     session_inv rbt_art db' \<and> Get rbt_art 0 (replicate 20 1) db' = Inr (Some [2]) \<and>
     (\<exists>a. db_rel rbt_art db' a \<and> durable db' a \<and> log_view (store db') valueTypeHash [])"
proof -
  let ?k = "replicate 20 1 :: bytes" and ?v = "Some [2] :: slice"
  have ok: "put_ok (store sample_db) valueTypeString (mk_entry ?k ?v)" "chan_room (store sample_db) valueTypeString 1"
    using sample_put sample_chan by simp_all
  then obtain db' where db': "Set rbt_art ?k ?v sample_db = (Inr (), db')" "db_rel rbt_art db' (str_upd empty_adb ?k (Some ([2], 0)))"
    using rbt_values.str_put_rel [OF sample_db_rel ok(1) _ ok(2)] by (auto simp: Set_def SDelete_def)
  have "session_inv rbt_art sample_db" using sample_db_rel sample_durable sample_hash by (auto simp: session_inv_def)
  moreover have s: "session rbt_art sample_db db'" using session.set [OF session.start ok db'(1)] .
  ultimately have "session_inv rbt_art db'" using rbt_values.session_keeps_inv by blast
  moreover have "Get rbt_art 0 ?k db' = Inr (Some [2])"
    using rbt_values.str_get_rel [OF db'(2)] by (simp add: Get_def lookup_item_def live_def)
  ultimately show ?thesis using db'(1) s by (auto simp: session_inv_def)
qed

theorem Open_recovers_witness:
  "\<exists>db dir db'. Set rbt_art (replicate 20 1) (Some [2]) sample_db = (Inr (), db) \<and>
     Open rbt_art (cfg (store db)) dir (files (store db)) (\<lambda>vt. Some (d_file (discardsMap (store db) vt))) =
       Inr (db' :: ((bytes, Value_t) rbt, unit) LazyDB) \<and>
     Get rbt_art 0 (replicate 20 1) db' = Inr (Some [2])"
proof -
  obtain db a where db: "Set rbt_art (replicate 20 1) (Some [2]) sample_db = (Inr (), db)"
    "Get rbt_art 0 (replicate 20 1) db = Inr (Some [2])" "session_inv rbt_art db"
    "db_rel rbt_art db a" "durable db a" "log_view (store db) valueTypeHash []"
    using sample_session by blast
  moreover obtain dir where "dir_ok dir (files (store db))" using session_inv_dir [OF db(3)] by blast
  ultimately show ?thesis using Open_recovers [OF art_engine_rbt db(4,5) _ db(6)] by metis
qed

text \<open>
  C10. Whatever sequence of Set, SetEX, SetNX, Delete and GetDel calls a new database has run,
  interleaved with the goroutines of the discard tables: stopping at any point and opening the
  files again succeeds, and every Get returns what it returned before. (No other command is run, so the
  log has no hash entry.)
\<close>

theorem session_reopen:
  fixes db :: "('t, 's) LazyDB"
  assumes "art_engine A" "0 < MaxLogFileSize c" "IOType c = FileIO" "\<And>vt. discard_ok (ds vt)"
    "\<And>vt f. contents d vt f = None" and run: "session A (new_db A c ds d) db" and dir: "dir_ok dir (files (store db))"
  shows "\<exists>db' :: ('t, 's) LazyDB.
    Open A (cfg (store db)) dir (files (store db)) (\<lambda>vt. Some (d_file (discardsMap (store db) vt))) = Inr db' \<and>
    (\<forall>now k. Get A now k db' = Get A now k db)"
proof -
  note vi = value_index.intro [OF assms(1)]
  let ?db = "new_db A c ds d :: ('t, 's) LazyDB"
  have "db_rel A ?db empty_adb" using value_index.new_db_rel [OF vi assms(2-5)] .
  moreover have "log_view (store ?db) vt []" for vt
    using assms(5) by (auto simp: log_view_def logged_def new_db_def active_def archived_def log_seq_def intro!: exI [of _ "[]"])
  ultimately have "session_inv A ?db" by (auto simp: session_inv_def durable_def empty_adb_def intro!: exI)
  then obtain a where a: "db_rel A db a" "durable db a" "log_view (store db) valueTypeHash []"
    using value_index.session_keeps_inv [OF vi run] by (auto simp: session_inv_def)
  have "Get A now k db = lookup_item (Unix now) (a_str a) k" for now k
    using value_index.str_get_rel [OF vi a(1)] by (simp add: Get_def)
  then show ?thesis using value_index.Open_rel [OF vi db_relD(1) [OF a(1)] a(2) dir a(3)] by auto
qed

theorem session_reopen_witness:
  "\<exists>db dir db'. session rbt_art sample_db db \<and> Get rbt_art 0 (replicate 20 1) db = Inr (Some [2]) \<and>
     Open rbt_art (cfg (store db)) dir (files (store db)) (\<lambda>vt. Some (d_file (discardsMap (store db) vt))) =
       Inr (db' :: ((bytes, Value_t) rbt, unit) LazyDB) \<and>
     Get rbt_art 0 (replicate 20 1) db' = Inr (Some [2])"
proof -
  obtain db where db: "session rbt_art sample_db db" "session_inv rbt_art db" "Get rbt_art 0 (replicate 20 1) db = Inr (Some [2])"
    using sample_session by blast
  obtain dir where "dir_ok dir (files (store db))" using session_inv_dir [OF db(2)] by blast
  then show ?thesis
    using session_reopen [OF art_engine_rbt _ _ _ _ db(1) [unfolded sample_db_def]] db
    by (fastforce simp: sample_db_def DefaultDBConfig_def contents_def)
qed

text \<open>
  C23. A database that has ever written a hash cannot be opened again: when the hash log has an
  entry, Open panics, because the tree of the hash is looked up in a map that is still empty. This needs no more than
  that the log files are well formed and that the first hash entry has the key that HSet writes.
\<close>

theorem Open_hash_panics:
  fixes A :: "('t, Value_t) art"
  assumes "store_inv st" "dir_ok dir (files st)"
    "log_view st valueTypeHash ((f, off, le) # ls)" "Key le = encoded key field" "length key < 2 ^ 32"
  shows "Open A (cfg st) dir (files st) (\<lambda>vt. Some (d_file (discardsMap st vt))) = (Inl Panic :: ('t, 's) LazyDB result)"
proof -
  have "\<exists>L. logged st vt L \<and> (vt = valueTypeHash \<longrightarrow> log_seq L = (f, off, le) # ls)" for vt
    using store_inv_log [OF assms(1), of vt] assms(3) by (cases "vt = valueTypeHash") (auto simp: log_view_def)
  then obtain Ls where "\<And>vt. logged st vt (Ls vt)" "log_seq (Ls valueTypeHash) = (f, off, le) # ls" by metis
  then show ?thesis using Open_panics [OF assms(1) _ assms(2)] decodeKey_encoded [OF assms(5)] assms(4) by metis
qed

theorem Open_hash_panics_witness:
  "\<exists>t st dir. put_entry rbt_art valueTypeHash RBT.empty (mk_entry (encoded [1] (replicate 20 2)) (Some [3])) False (store sample_db) =
       (Inr (), t, st) \<and>
     Open rbt_art (cfg st) dir (files st) (\<lambda>vt. Some (d_file (discardsMap st vt))) =
       (Inl Panic :: ((bytes, Value_t) rbt, unit) LazyDB result)"
proof -
  let ?le = "mk_entry (encoded [1] (replicate 20 2)) (Some [3])"
  have e: "encoded [1] (replicate 20 2) \<noteq> []" "length (encoded [1] (replicate 20 2)) < 2 ^ 32" "15 \<le> length (encoded [1] (replicate 20 2))"
    using length_PutVarint_of_nat [of 1 1] length_PutVarint_of_nat [of 20 1] by (simp_all add: encoded_def)
  have "put_ok (store sample_db) valueTypeHash ?le" using sample_put e by simp
  moreover have "log_view (store sample_db) vt []" for vt
    by (auto simp: sample_db_def log_view_def logged_def new_db_def active_def archived_def contents_def log_seq_def
        intro!: exI [of _ "[]"])
  moreover note put = rbt_values.put_entry_rel [OF db_relD(1) [OF sample_db_rel] rbt_values.new_rel, of valueTypeHash ?le False]
  ultimately obtain t st f off where p: "put_entry rbt_art valueTypeHash (NewART rbt_art) ?le False (store sample_db) = (Inr (), t, st)"
    "store_inv st" "store_ext valueTypeHash (store sample_db) st" "log_view st valueTypeHash [(f, off, ?le)]"
    by (fastforce simp: SDelete_def)
  obtain dir where "dir_ok dir (files st)" using dir_exists store_inv_log [OF p(2)] by metis
  then show ?thesis
    using Open_hash_panics [OF p(2) _ p(4)] p(1) by (fastforce simp: NewART_def rbt_art_def)
qed

text \<open>
  C39. Reading a log file during recovery ends, whatever bytes the file holds, and does the following. There
  are entries that can be read one behind the other from the start offset, each at least one byte long, until a read
  fails. They are given to the index in this order; an error of the index is returned. Then the error of the failed read
  decides: at the end of the file (\<open>EOF\<close>, or a header of zeros, \<open>ErrLogEndOfFile\<close>) the loop returns the
  offset of that read and changes nothing but the indexes; any other error ends the process, by \<open>log.Fatalf\<close> or by the panic of the read itself.
\<close>

theorem build_file_ends:
  "\<exists>es off' e. scan lf (files (store db)) offset es off' e \<and> offset + int (length es) \<le> off' \<and>
     (case index_all A vt fid es db of
        Inl er \<Rightarrow> build_file A vt fid lf offset db = Inl er
      | Inr db' \<Rightarrow> store db' = store db \<and>
          build_file A vt fid lf offset db =
            (if e = EOF \<or> e = ErrLogEndOfFile then Inr (off', db') else Inl (if e = Panic then Panic else Fatal)))"
proof -
  obtain es off' e where s: "scan lf (files (store db)) offset es off' e" using scan_exists by blast
  note b = build_file_scan [OF s refl, where A = A and vt = vt and fid = fid]
  show ?thesis
    by (intro exI [of _ es] exI [of _ off'] exI [of _ e])
      (auto simp: s scan_grows [OF s] b index_all_store split: sum.split)
qed

text \<open>
  C35. Only strings survive a restart: whatever files Open finds, a database that it returns has
  no list, no set, no sorted set and no hash, although their entries are in the log.
\<close>

theorem Open_forgets:
  fixes db :: "('t, 's) LazyDB"
  assumes "Open A c dir d disc = Inr db"
  shows "hashIndex db = Map.empty \<and> listIndex db = Map.empty \<and> setIndex db = Map.empty \<and> zSetIndex db = Map.empty"
proof -
  obtain ds st where "build_types A value_types ((new_db A c ds d :: ('t, 's) LazyDB)\<lparr>store := st\<rparr>) = Inr db"
    using assms by (auto simp: Open_def buildIndexFromLogFiles_def Let_def split: sum.splits prod.splits if_splits)
  from build_types_others [OF this] show ?thesis by (simp add: other_indexes_def new_db_def)
qed

theorem Open_forgets_witness:
  "\<exists>db. Open rbt_art (DefaultDBConfig []) [] Map.empty (\<lambda>_. None) = Inr (db :: ((bytes, Value_t) rbt, unit) LazyDB) \<and>
     listIndex db = Map.empty"
proof -
  have "\<exists>db :: ((bytes, Value_t) rbt, unit) LazyDB. Open rbt_art (DefaultDBConfig []) [] Map.empty (\<lambda>_. None) = Inr db"
    by (simp add: Open_def initDiscard_def value_types_def newDiscard_fresh buildLogFiles_def new_db_def buildIndexFromLogFiles_def Let_def)
  then show ?thesis using Open_forgets by blast
qed

end
