(* ===== verification/Command_Runs.thy ===== *)
theory Command_Runs
  imports Command_More Reopen
begin

text \<open>
  Sequences of commands from an empty directory. \<open>Commands\<close> says when a command finds room in terms
  of the state of the database. Here the room is counted on the inputs alone: a \<open>budget\<close> has for each type the
  entries that its log still takes, whatever their sizes, and a bound for the messages in its
  channel. \<open>funded\<close> relates it to the database, \<open>pay\<close> follows the costs of the commands. A sequence whose
  inputs are within the budget of a new database runs as specified, from \<open>Open\<close> on.
\<close>

subsection \<open>Counting on the inputs\<close>







subsection \<open>The budget and the database\<close>






subsection \<open>Running a sequence\<close>




subsection \<open>Properties\<close>






end
