(* ===== verification/Tx.thy ===== *)
theory Tx
  imports Set_Ops Go_Sync
begin

text \<open>
  \<open>tx.go\<close>, \<open>tx_str.go\<close>, \<open>tx_set.go\<close>: transactions. A transaction collects entries and writes
  them when it commits; a read-write lock on the database keeps transactions apart.

  The five goroutines of \<open>Commit\<close> run here one after the other. In the code they run concurrently and share the
  maps of the database without a lock, \<open>activeLogFileMap\<close> among them, so a commit that has to create the log
  files of two types is a data race in Go, about which nothing is said here. The transaction id comes from a
  third-party generator, which is an argument of \<open>generateTxID\<close>.
\<close>

subsection \<open>Transactions\<close>

definition RTX :: int where "RTX = 0"
definition RWTX :: int where "RWTX = 1"
definition pending :: int where "pending = 0"
definition committing :: int where "committing = 1"

record pSet =
  ps_e :: LogEntry
  ps_sum :: bytes
  ps_mem :: bytes

text \<open>\<open>tx_open\<close> says that the pointer to the database is not nil.\<close>

record Tx =
  tx_id :: u64
  tx_open :: bool
  tType :: int
  status :: int
  pendingStr :: "LogEntry list"
  pendingList :: "LogEntry list"
  pendingSet :: "pSet list"
  pendingHash :: "LogEntry list"
  pendingZSet :: "LogEntry list"

text \<open>
  \<open>generateTxID\<close> asks a generator of the package \<open>snowflake\<close> for a number; the generator and the random
  number are arguments. Its result is an argument of \<open>newTx\<close> and \<open>Begin\<close>.
\<close>

definition generateTxID :: "(int \<Rightarrow> 'n result) \<Rightarrow> ('n \<Rightarrow> int) \<Rightarrow> int \<Rightarrow> u64 result" where
  "generateTxID NewNode Generate rand_Int63 =
     (let nodeID = rand_Int63 mod 1023
      in case NewNode nodeID of
           Inl e \<Rightarrow> Inl e
         | Inr node \<Rightarrow> Inr (word_of_int (Generate node)))"

text \<open>A generator that takes the node ids below 1024, as the package documents, is never refused.\<close>

lemma generateTxID_ok:
  assumes "\<And>n. 0 \<le> n \<Longrightarrow> n < 1024 \<Longrightarrow> \<exists>node. NewNode n = Inr node" "0 \<le> r"
  shows "\<exists>txID. generateTxID NewNode Generate r = Inr txID"
proof -
  have "r mod 1023 < 1024" by (rule less_trans [OF pos_mod_bound]) auto
  then show ?thesis using assms(1) [of "r mod 1023"] by (auto simp: generateTxID_def)
qed

definition newTx :: "u64 result \<Rightarrow> int \<Rightarrow> Tx result" where
  "newTx gen txType =
     (case gen of
        Inl e \<Rightarrow> Inl e
      | Inr txID \<Rightarrow>
          Inr \<lparr>tx_id = txID, tx_open = True, tType = txType, status = pending, pendingStr = [], pendingList = [],
            pendingSet = [], pendingHash = [], pendingZSet = []\<rparr>)"

definition tx_lock :: "Tx \<Rightarrow> RWMutex \<Rightarrow> RWMutex option" where
  "tx_lock tx mu = (if tType tx = RWTX then RW_Lock mu else RW_RLock mu)"

definition tx_unlock :: "Tx \<Rightarrow> RWMutex \<Rightarrow> RWMutex result" where
  "tx_unlock tx mu = (if tType tx = RWTX then RW_Unlock mu else RW_RUnlock mu)"

definition tx_IsClosed :: "Tx \<Rightarrow> bool" where
  "tx_IsClosed tx \<longleftrightarrow> \<not> tx_open tx"

text \<open>\<open>None\<close>: the call blocks.\<close>

definition Begin :: "u64 result \<Rightarrow> int \<Rightarrow> Store \<Rightarrow> RWMutex \<Rightarrow> (Tx result \<times> RWMutex) option" where
  "Begin gen txType st mu =
     (case newTx gen txType of
        Inl e \<Rightarrow> Some (Inl e, mu)
      | Inr tx \<Rightarrow>
          if IsClosed st
          then (case tx_unlock tx mu of
                  Inl e \<Rightarrow> Some (Inl e, mu)
                | Inr mu' \<Rightarrow> Some (Inl ErrDatabaseClosed, mu'))
          else map_option (\<lambda>mu'. (Inr tx, mu')) (tx_lock tx mu))"

definition tx_reset :: "Tx \<Rightarrow> Tx" where
  "tx_reset tx = tx\<lparr>tx_open := False, pendingStr := [], pendingSet := [], pendingList := [], pendingZSet := [],
     pendingHash := [], status := pending\<rparr>"

definition Rollback :: "Tx \<Rightarrow> Store \<Rightarrow> RWMutex \<Rightarrow> unit result \<times> Tx \<times> RWMutex" where
  "Rollback tx st mu =
     (if tx_IsClosed tx then (Inl ErrTxClosed, tx, mu)
      else if IsClosed st then (Inl ErrDatabaseClosed, tx, mu)
      else if status tx = committing then (Inl ErrTxCommittingRollback, tx, mu)
      else case tx_unlock tx mu of
             Inl e \<Rightarrow> (Inl e, tx, mu)
           | Inr mu' \<Rightarrow> (Inr (), tx_reset tx, mu'))"

definition Tx_Set :: "bytes \<Rightarrow> slice \<Rightarrow> Tx \<Rightarrow> Tx" where
  "Tx_Set key value tx = tx\<lparr>pendingStr := pendingStr tx @ [mk_entry key value]\<rparr>"

text \<open>An error of \<open>Write\<close> is ignored.\<close>

fun Tx_SAdd_loop :: "'h mur3 \<Rightarrow> bytes \<Rightarrow> bytes list \<Rightarrow> 'h \<Rightarrow> Tx \<Rightarrow> Tx \<times> 'h" where
  "Tx_SAdd_loop M key [] h tx = (tx, h)"
| "Tx_SAdd_loop M key (mem # members) h tx =
     (if length mem = 0 then Tx_SAdd_loop M key members h tx
      else let h' = snd (Mur_Write M h mem)
           in Tx_SAdd_loop M key members (Mur_Reset M h')
                (tx\<lparr>pendingSet := pendingSet tx @ [\<lparr>ps_e = mk_entry key (Some mem), ps_sum = EncodeSum128 M h', ps_mem = mem\<rparr>]\<rparr>))"

text \<open>The tree of the set is created at once; a closed transaction has no database.\<close>

definition Tx_SAdd ::
    "'h mur3 \<Rightarrow> ('t, Value_t) art \<Rightarrow> bytes \<Rightarrow> bytes list \<Rightarrow> 'h \<Rightarrow> Tx \<Rightarrow> ('t, 's) LazyDB \<Rightarrow> (Tx \<times> 'h \<times> ('t, 's) LazyDB) result" where
  "Tx_SAdd M A key members h tx db =
     (if tx_IsClosed tx then Inl Panic
      else let db' = db\<lparr>setIndex := (setIndex db)(key \<mapsto> set_tree A key db)\<rparr>
           in case Tx_SAdd_loop M key members h tx of (tx', h') \<Rightarrow> Inr (tx', h', db'))"

text \<open>
  The loop of four of the goroutines: an entry that cannot be written gives a nil position,
  whose use panics; other errors are ignored.
\<close>

fun commit_entries ::
    "('t, Value_t) art \<Rightarrow> valueType \<Rightarrow> LogEntry list \<Rightarrow> 't \<Rightarrow> Store \<Rightarrow> unit result \<times> 't \<times> Store" where
  "commit_entries A vt [] t st = (Inr (), t, st)"
| "commit_entries A vt (e # es) t st =
     (let e' = e\<lparr>TxStat := TxCommited\<rparr>
      in case writeLogEntry vt e' st of
           (Inl er, st1) \<Rightarrow> (Inl (if crash er then er else Panic), t, st1)
         | (Inr valuePos, st1) \<Rightarrow>
             (case updateIndexTree A vt t e' valuePos True st1 of
                (Inl er, t', st') \<Rightarrow> if crash er then (Inl er, t', st') else commit_entries A vt es t' st'
              | (Inr _, t', st') \<Rightarrow> commit_entries A vt es t' st'))"

text \<open>One round of the goroutine of the sets; a set without a tree panics.\<close>

definition commit_set ::
    "('t, Value_t) art \<Rightarrow> pSet \<Rightarrow> (bytes \<Rightarrow> 't option) \<Rightarrow> Store \<Rightarrow> unit result \<times> (bytes \<Rightarrow> 't option) \<times> Store" where
  "commit_set A ps trees st =
     (let e' = (ps_e ps)\<lparr>TxStat := TxCommited\<rparr>
      in case writeLogEntry valueTypeSet e' st of
           (Inl er, st1) \<Rightarrow> (Inl (if crash er then er else Panic), trees, st1)
         | (Inr valuePos, st1) \<Rightarrow>
             (case EncodeEntry (Some e') of
                Inl er \<Rightarrow> (Inl er, trees, st1)
              | Inr (_, siz) \<Rightarrow>
                  (case trees (Key (ps_e ps)) of
                     None \<Rightarrow> (Inl Panic, trees, st1)
                   | Some t \<Rightarrow>
                       (case updateIndexTree A valueTypeSet t (mk_entry (ps_sum ps) (Some (ps_mem ps)))
                               (valuePos\<lparr>vp_entrySize := int siz\<rparr>) False st1 of
                          (r, t', st') \<Rightarrow> (r, trees(Key (ps_e ps) \<mapsto> t'), st')))))"

fun commit_sets ::
    "('t, Value_t) art \<Rightarrow> pSet list \<Rightarrow> (bytes \<Rightarrow> 't option) \<Rightarrow> Store \<Rightarrow> unit result \<times> (bytes \<Rightarrow> 't option) \<times> Store" where
  "commit_sets A [] trees st = (Inr (), trees, st)"
| "commit_sets A (ps # pss) trees st =
     (case commit_set A ps trees st of
        (Inl er, trees', st') \<Rightarrow> if crash er then (Inl er, trees', st') else commit_sets A pss trees' st'
      | (Inr _, trees', st') \<Rightarrow> commit_sets A pss trees' st')"

definition commit_str_db ::
    "('t, Value_t) art \<Rightarrow> valueType \<Rightarrow> LogEntry list \<Rightarrow> ('t, 's) LazyDB \<Rightarrow> unit result \<times> ('t, 's) LazyDB" where
  "commit_str_db A vt es db =
     (case commit_entries A vt es (strIndex db) (store db) of (r, t, st) \<Rightarrow> (r, db\<lparr>store := st, strIndex := t\<rparr>))"

definition commit_set_db ::
    "('t, Value_t) art \<Rightarrow> pSet list \<Rightarrow> ('t, 's) LazyDB \<Rightarrow> unit result \<times> ('t, 's) LazyDB" where
  "commit_set_db A pss db =
     (case commit_sets A pss (setIndex db) (store db) of (r, ts, st) \<Rightarrow> (r, db\<lparr>store := st, setIndex := ts\<rparr>))"

text \<open>Run one part after another until one fails.\<close>

fun run_all :: "('d \<Rightarrow> unit result \<times> 'd) list \<Rightarrow> 'd \<Rightarrow> unit result \<times> 'd" where
  "run_all [] db = (Inr (), db)"
| "run_all (f # fs) db = (case f db of (Inl e, db') \<Rightarrow> (Inl e, db') | (Inr _, db') \<Rightarrow> run_all fs db')"

definition Commit ::
    "('t, Value_t) art \<Rightarrow> Tx \<Rightarrow> ('t, 's) LazyDB \<Rightarrow> RWMutex \<Rightarrow> unit result \<times> Tx \<times> ('t, 's) LazyDB \<times> RWMutex" where
  "Commit A tx db mu =
     (if tx_IsClosed tx then (Inl ErrTxClosed, tx, db, mu)
      else if IsClosed (store db) then (Inl ErrDatabaseClosed, tx, db, mu)
      else if status tx = committing then (Inr (), tx, db, mu)
      else case run_all [commit_str_db A valueTypeString (pendingStr tx), commit_str_db A valueTypeList (pendingList tx),
               commit_str_db A valueTypeHash (pendingHash tx), commit_set_db A (pendingSet tx),
               commit_str_db A valueTypeZSet (pendingZSet tx)] db of
             (Inl e, db') \<Rightarrow> (Inl e, tx, db', mu)
           | (Inr _, db') \<Rightarrow>
               (case tx_unlock tx mu of
                  Inl e \<Rightarrow> (Inl e, tx, db', mu)
                | Inr mu' \<Rightarrow> (Inr (), tx_reset tx, db', mu')))"

subsection \<open>What a commit does\<close>

definition str_commit :: "adb \<Rightarrow> LogEntry list \<Rightarrow> adb" where
  "str_commit a es = foldl (\<lambda>a e. str_upd a (Key e) (Some (bs (Value e), ExpiredAt e))) a es"

definition set_commit :: "adb \<Rightarrow> pSet list \<Rightarrow> adb" where
  "set_commit a pss = foldl (\<lambda>a ps. set_upd a (Key (ps_e ps))
     ((set_of a (Key (ps_e ps)))(ps_sum ps \<mapsto> (ps_mem ps, 0)))) a pss"

definition str_pending_ok :: "LogEntry \<Rightarrow> bool" where
  "str_pending_ok e \<longleftrightarrow> roomy (e\<lparr>TxStat := TxCommited\<rparr>) \<and> Stat e \<noteq> SDelete"

definition set_pending_ok :: "pSet \<Rightarrow> bool" where
  "set_pending_ok ps \<longleftrightarrow> roomy ((ps_e ps)\<lparr>TxStat := TxCommited\<rparr>) \<and> Stat (ps_e ps) \<noteq> SDelete \<and>
     bs (Value (ps_e ps)) = ps_mem ps \<and> ExpiredAt (ps_e ps) = 0"

lemma commit_simps [simp]:
  "str_commit a [] = a" "str_commit a (e # es) = str_commit (str_upd a (Key e) (Some (bs (Value e), ExpiredAt e))) es"
  "set_commit a [] = a"
  "set_commit a (ps # pss) = set_commit (set_upd a (Key (ps_e ps))
     ((set_of a (Key (ps_e ps)))(ps_sum ps \<mapsto> (ps_mem ps, 0)))) pss"
  by (simp_all add: str_commit_def set_commit_def)

lemma str_commit_set:
  "str_commit (set_upd a k m) es = set_upd (str_commit a es) k m" "set_of (str_commit a es) = set_of a"
  "a_set (str_commit a es) = a_set a"
proof -
  have u: "str_upd (set_upd b k m) x y = set_upd (str_upd b x y) k m" "a_set (str_upd b x y) = a_set b" for b x y
    by (simp_all add: str_upd_def set_upd_def)
  show "str_commit (set_upd a k m) es = set_upd (str_commit a es) k m"
    by (induction es arbitrary: a) (simp_all add: u)
  show s: "a_set (str_commit a es) = a_set a" by (induction es arbitrary: a) (simp_all add: u)
  then show "set_of (str_commit a es) = set_of a" by (simp add: set_of_def fun_eq_iff)
qed

text \<open>The entries of a commit are as long as without the mark of the commit.\<close>

lemma roomy_committed:
  assumes "TxStat e = 0"
  shows "roomy (e\<lparr>TxStat := TxCommited\<rparr>) = roomy e"
proof -
  have "length (PutVarint (ucast TxCommited)) = 1" "length (PutVarint 0) = 1"
    by (simp_all add: TxCommited_def PutVarint_def zigzag_def PutUvarint_small)
  then have "header_size (e\<lparr>TxStat := TxCommited\<rparr>) = header_size e"
    using assms by (simp add: header_size_def header_tail_def header_fields_def)
  then show ?thesis by (simp add: roomy_def encodable_def entry_size_def)
qed

text \<open>The loops do one entry after the other.\<close>

lemma commit_str_Cons:
  "commit_str_db A vt [e] db = (Inr (), db1) \<Longrightarrow> commit_str_db A vt (e # es) db = commit_str_db A vt es db1"
  by (auto simp: commit_str_db_def Let_def split: prod.splits sum.splits if_splits)

lemma commit_set_Cons:
  "commit_set_db A [ps] db = (Inr (), db1) \<Longrightarrow> commit_set_db A (ps # pss) db = commit_set_db A pss db1"
  by (auto simp: commit_set_db_def split: prod.splits sum.splits if_splits)

lemma commit_put:
  assumes "put_entry A vt t (e\<lparr>TxStat := TxCommited\<rparr>) True st = (Inr (), t', st')"
  shows "commit_entries A vt [e] t st = (Inr (), t', st')"
  using assms by (auto simp: put_entry_def Let_def split: prod.splits sum.splits)

lemma commit_sadd:
  assumes "sadd_put A ((ps_e ps)\<lparr>TxStat := TxCommited\<rparr>) (ps_sum ps) (ps_mem ps) t st = (Inr (), t', st')"
    "trees (Key (ps_e ps)) = Some t"
  shows "commit_sets A [ps] trees st = (Inr (), trees(Key (ps_e ps) \<mapsto> t'), st')"
  using assms by (auto simp: sadd_put_def commit_set_def Let_def split: prod.splits sum.splits)

context value_index
begin

lemma str_step_rel:
  assumes rel: "db_rel A db a" and room: "ready (store db) valueTypeString (Suc n)" and ok: "str_pending_ok e"
  shows "\<exists>db'. commit_str_db A valueTypeString [e] db = (Inr (), db') \<and>
    db_rel A db' (str_upd a (Key e) (Some (bs (Value e), ExpiredAt e))) \<and>
    ready (store db') valueTypeString n \<and> (\<forall>m. capacity (store db) valueTypeSet m \<longrightarrow> capacity (store db') valueTypeSet m)"
proof -
  let ?e = "e\<lparr>TxStat := TxCommited\<rparr>"
  obtain db' where p: "str_put A ?e db = (Inr (), db')" "db_rel A db' (str_upd a (Key e) (Some (bs (Value e), ExpiredAt e)))"
    "ready (store db') valueTypeString n" "store_ext valueTypeString (store db) (store db')"
    using str_put_rel [OF rel, of ?e] ready_put_ok [OF room, of ?e] ok room by (auto simp: str_pending_ok_def)
  obtain t st where e: "put_entry A valueTypeString (strIndex db) ?e True (store db) = (Inr (), t, st)"
    "db' = db\<lparr>store := st, strIndex := t\<rparr>"
    using p(1) by (auto simp: str_put_def split: prod.splits)
  have "commit_str_db A valueTypeString [e] db = (Inr (), db')"
    using commit_put [OF e(1)] e(2) by (simp add: commit_str_db_def)
  then show ?thesis using p(2,3) store_ext_room(1) [OF p(4)] by auto
qed

lemma set_step_rel:
  assumes rel: "db_rel A db a" and cap: "capacity (store db) valueTypeSet (Suc n)" and ok: "set_pending_ok ps"
    and tree: "a_set a (Key (ps_e ps)) \<noteq> None"
  shows "\<exists>db'. commit_set_db A [ps] db = (Inr (), db') \<and>
    db_rel A db' (set_upd a (Key (ps_e ps)) ((set_of a (Key (ps_e ps)))(ps_sum ps \<mapsto> (ps_mem ps, 0)))) \<and>
    capacity (store db') valueTypeSet n \<and> (\<forall>m. ready (store db) valueTypeString m \<longrightarrow> ready (store db') valueTypeString m)"
proof -
  let ?k = "Key (ps_e ps)"
  obtain t where t: "setIndex db ?k = Some t" using set_None [OF rel, of ?k] tree by auto
  obtain t' st' where p: "sadd_put A ((ps_e ps)\<lparr>TxStat := TxCommited\<rparr>) (ps_sum ps) (ps_mem ps) t (store db) = (Inr (), t', st')"
    "store_inv st'" "store_ext valueTypeSet (store db) st'" "capacity st' valueTypeSet n"
    "index_rel A st' valueTypeSet t' ((set_of a ?k)(ps_sum ps \<mapsto> (ps_mem ps, 0)))"
    using sadd_put_rel [OF db_relD(1) [OF rel] set_Some [OF rel t] cap, of "(ps_e ps)\<lparr>TxStat := TxCommited\<rparr>" "ps_mem ps" "ps_sum ps"]
      ok by (auto simp: set_pending_ok_def)
  have "commit_set_db A [ps] db = (Inr (), db\<lparr>store := st', setIndex := (setIndex db)(?k \<mapsto> t')\<rparr>)"
    using commit_sadd [where ps = ps and trees = "setIndex db", OF p(1) t] by (simp add: commit_set_db_def del: commit_sets.simps)
  then show ?thesis
    using db_rel_set [OF rel p(2,3,5)] p(4) store_ext_room [OF p(3)] by (auto simp: ready_def)
qed

lemma commit_str_rel:
  assumes "db_rel A db a" "ready (store db) valueTypeString (length es)" "\<forall>e \<in> set es. str_pending_ok e"
  shows "\<exists>db'. commit_str_db A valueTypeString es db = (Inr (), db') \<and> db_rel A db' (str_commit a es) \<and>
    (\<forall>m. capacity (store db) valueTypeSet m \<longrightarrow> capacity (store db') valueTypeSet m)"
  using assms
proof (induction es arbitrary: db a)
  case Nil
  then show ?case by (simp add: commit_str_db_def)
next
  case (Cons e es)
  obtain db1 where s: "commit_str_db A valueTypeString [e] db = (Inr (), db1)"
    "db_rel A db1 (str_upd a (Key e) (Some (bs (Value e), ExpiredAt e)))" "ready (store db1) valueTypeString (length es)"
    "\<And>m. capacity (store db) valueTypeSet m \<Longrightarrow> capacity (store db1) valueTypeSet m"
    using str_step_rel [OF Cons.prems(1), of "length es" e] Cons.prems(2,3) by auto
  show ?case using Cons.IH [OF s(2,3)] Cons.prems(3) commit_str_Cons [OF s(1)] s(4) by (simp del: commit_entries.simps) blast
qed

lemma commit_set_rel:
  assumes "db_rel A db a" "capacity (store db) valueTypeSet (length pss)"
    "\<forall>ps \<in> set pss. set_pending_ok ps \<and> a_set a (Key (ps_e ps)) \<noteq> None"
  shows "\<exists>db'. commit_set_db A pss db = (Inr (), db') \<and> db_rel A db' (set_commit a pss)"
  using assms
proof (induction pss arbitrary: db a)
  case Nil
  then show ?case by (simp add: commit_set_db_def)
next
  case (Cons ps pss)
  obtain db1 where s: "commit_set_db A [ps] db = (Inr (), db1)"
    "db_rel A db1 (set_upd a (Key (ps_e ps)) ((set_of a (Key (ps_e ps)))(ps_sum ps \<mapsto> (ps_mem ps, 0))))"
    "capacity (store db1) valueTypeSet (length pss)"
    using set_step_rel [OF Cons.prems(1), of "length pss" ps] Cons.prems(2,3) by auto
  show ?case using Cons.IH [OF s(2,3)] Cons.prems(3) commit_set_Cons [OF s(1)] by (simp add: set_upd_def)
qed

end

subsection \<open>Sequences of transactions\<close>

definition survives :: "unit result \<Rightarrow> bool" where
  "survives r \<longleftrightarrow> (case r of Inl e \<Rightarrow> \<not> crash e | Inr _ \<Rightarrow> True)"

text \<open>
  The transactions of one database: \<open>txs\<close> are those that have begun and not ended. A call that fails leaves
  the state that it returns; one that ends the process or blocks has no successor. A \<open>Commit\<close> or \<open>Rollback\<close> ends the
  transaction when its pointer to the database is nil afterwards. \<open>late\<close> says that \<open>Begin\<close> has been called
  on a closed database. The last rule lets any other call, \<open>Close\<close> included, change the database.
\<close>

inductive tx_reach ::
    "('t, Value_t) art \<Rightarrow> 'h mur3 \<Rightarrow> ('t, 's) LazyDB \<Rightarrow> bool \<Rightarrow> RWMutex \<Rightarrow> Tx list \<Rightarrow> ('t, 's) LazyDB \<Rightarrow> bool" for A M db0 where
  tx_init: "tx_reach A M db0 False \<lparr>writer = False, readers = 0\<rparr> [] db0"
| tx_begin: "tx_reach A M db0 late mu txs db \<Longrightarrow> Begin gen ty (store db) mu = Some (Inr tx, mu') \<Longrightarrow>
    tx_reach A M db0 late mu' (tx # txs) db"
| tx_begin_fails: "tx_reach A M db0 late mu txs db \<Longrightarrow> Begin gen ty (store db) mu = Some (Inl e, mu') \<Longrightarrow> \<not> crash e \<Longrightarrow>
    tx_reach A M db0 (late \<or> IsClosed (store db)) mu' txs db"
| tx_set: "tx_reach A M db0 late mu (xs @ tx # ys) db \<Longrightarrow> tx_reach A M db0 late mu (xs @ Tx_Set k v tx # ys) db"
| tx_sadd: "tx_reach A M db0 late mu (xs @ tx # ys) db \<Longrightarrow> Tx_SAdd M A k vs h tx db = Inr (tx', h', db') \<Longrightarrow>
    tx_reach A M db0 late mu (xs @ tx' # ys) db'"
| tx_commit: "tx_reach A M db0 late mu (xs @ tx # ys) db \<Longrightarrow> Commit A tx db mu = (r, tx', db', mu') \<Longrightarrow> survives r \<Longrightarrow>
    tx_reach A M db0 late mu' (xs @ (if tx_IsClosed tx' then [] else [tx']) @ ys) db'"
| tx_rollback: "tx_reach A M db0 late mu (xs @ tx # ys) db \<Longrightarrow> Rollback tx (store db) mu = (r, tx', mu') \<Longrightarrow> survives r \<Longrightarrow>
    tx_reach A M db0 late mu' (xs @ (if tx_IsClosed tx' then [] else [tx']) @ ys) db"
| tx_other: "tx_reach A M db0 late mu txs db \<Longrightarrow> tx_reach A M db0 late mu txs db'"

text \<open>The lock is held by exactly the transactions that are open.\<close>

definition lock_inv :: "RWMutex \<Rightarrow> Tx list \<Rightarrow> bool" where
  "lock_inv mu txs \<longleftrightarrow> (\<forall>tx \<in> set txs. tx_open tx \<and> status tx = pending) \<and>
     length (filter (\<lambda>tx. tType tx = RWTX) txs) = (if writer mu then 1 else 0) \<and>
     length (filter (\<lambda>tx. tType tx \<noteq> RWTX) txs) = readers mu \<and> (writer mu \<longrightarrow> readers mu = 0)"

lemma lock_inv_upd:
  "tType tx' = tType tx \<Longrightarrow> tx_open tx' = tx_open tx \<Longrightarrow> status tx' = status tx \<Longrightarrow>
     lock_inv mu (xs @ tx' # ys) = lock_inv mu (xs @ tx # ys)"
  by (auto simp: lock_inv_def)

lemma lock_inv_begin:
  "lock_inv mu txs \<Longrightarrow> tx_lock tx mu = Some mu' \<Longrightarrow> tx_open tx \<Longrightarrow> status tx = pending \<Longrightarrow> lock_inv mu' (tx # txs)"
  by (auto simp: lock_inv_def tx_lock_def RW_Lock_def RW_RLock_def split: if_splits)

lemma lock_inv_end: "lock_inv mu (xs @ tx # ys) \<Longrightarrow> tx_unlock tx mu = Inr mu' \<Longrightarrow> lock_inv mu' (xs @ ys)"
  by (auto simp: lock_inv_def tx_unlock_def RW_Unlock_def RW_RUnlock_def split: if_splits)

lemma Tx_SAdd_loop_same:
  "Tx_SAdd_loop M k vs h tx = (tx', h') \<Longrightarrow> tType tx' = tType tx \<and> tx_open tx' = tx_open tx \<and> status tx' = status tx"
  by (induction vs arbitrary: h tx) (force simp: Let_def split: if_splits)+

lemma run_all_crash:
  assumes "\<forall>f \<in> set fs. \<forall>d e d'. f d = (Inl e, d') \<longrightarrow> crash e" "run_all fs db = (Inl e, db')"
  shows "crash e"
  using assms by (induction fs arbitrary: db) (auto split: prod.splits sum.splits)

lemma commit_entries_crash: "commit_entries A vt es t st = (Inl e, t', st') \<Longrightarrow> crash e"
  by (induction es arbitrary: t st) (auto simp: Let_def crash_def split: prod.splits sum.splits if_splits)

lemma commit_sets_crash: "commit_sets A pss trees st = (Inl e, trees', st') \<Longrightarrow> crash e"
  by (induction pss arbitrary: trees st) (auto split: prod.splits sum.splits if_splits)

lemma tx_unlock_crash: "tx_unlock tx mu = Inl e \<Longrightarrow> crash e"
  by (auto simp: tx_unlock_def RW_Unlock_def RW_RUnlock_def crash_def split: if_splits)

text \<open>A commit or a rollback that returns has ended the transaction, or has changed nothing.\<close>

lemma Commit_survives:
  assumes "Commit A tx db mu = (r, tx', db', mu')" "survives r" "tx_open tx" "status tx = pending"
  shows "(tx_IsClosed tx' \<and> tx_unlock tx mu = Inr mu') \<or> (tx' = tx \<and> mu' = mu)"
proof -
  have c: "crash e" if "run_all [commit_str_db A valueTypeString (pendingStr tx), commit_str_db A valueTypeList (pendingList tx),
      commit_str_db A valueTypeHash (pendingHash tx), commit_set_db A (pendingSet tx), commit_str_db A valueTypeZSet (pendingZSet tx)] db = (Inl e, d)" for e d
    by (rule run_all_crash [OF _ that])
      (auto simp: commit_str_db_def commit_set_db_def split: prod.splits dest: commit_entries_crash commit_sets_crash)
  show ?thesis
    using assms by (auto simp: Commit_def survives_def pending_def committing_def tx_IsClosed_def tx_reset_def
        simp del: run_all.simps split: if_splits prod.splits sum.splits dest: c tx_unlock_crash)
qed

lemma Rollback_survives:
  assumes "Rollback tx st mu = (r, tx', mu')" "survives r"
  shows "(tx_IsClosed tx' \<and> tx_unlock tx mu = Inr mu') \<or> (tx' = tx \<and> mu' = mu)"
  using assms by (auto simp: Rollback_def survives_def tx_IsClosed_def tx_reset_def split: if_splits sum.splits dest: tx_unlock_crash)

lemma lock_inv_ended:
  assumes "lock_inv mu (xs @ tx # ys)" "(tx_IsClosed tx' \<and> tx_unlock tx mu = Inr mu') \<or> (tx' = tx \<and> mu' = mu)"
  shows "lock_inv mu' (xs @ (if tx_IsClosed tx' then [] else [tx']) @ ys)"
proof -
  have "tx_open tx" using assms(1) by (simp add: lock_inv_def)
  then show ?thesis using assms lock_inv_end by (auto simp: tx_IsClosed_def)
qed

lemma tx_reach_inv: "tx_reach A M db0 late mu txs db \<Longrightarrow> \<not> late \<Longrightarrow> lock_inv mu txs"
proof (induction rule: tx_reach.induct)
  case tx_init
  show ?case by (simp add: lock_inv_def)
next
  case (tx_begin late mu txs db gen ty tx mu')
  then show ?case
    by (auto simp: Begin_def newTx_def split: sum.splits if_splits intro: lock_inv_begin)
next
  case (tx_begin_fails late mu txs db gen ty e mu')
  then show ?case by (auto simp: Begin_def split: sum.splits)
next
  case (tx_set late mu xs tx ys db k v)
  then show ?case using lock_inv_upd [of "Tx_Set k v tx" tx] by (simp add: Tx_Set_def)
next
  case (tx_sadd late mu xs tx ys db k vs h tx' h' db')
  then show ?case
    using lock_inv_upd [of tx' tx] Tx_SAdd_loop_same [of M k vs h tx]
    by (auto simp: Tx_SAdd_def Let_def split: prod.splits if_splits)
next
  case (tx_commit late mu xs tx ys db r tx' db' mu')
  then have inv: "lock_inv mu (xs @ tx # ys)" by blast
  then have "tx_open tx" "status tx = pending" by (simp_all add: lock_inv_def)
  from lock_inv_ended [OF inv Commit_survives [OF tx_commit.hyps(2,3) this]] show ?case .
next
  case (tx_rollback late mu xs tx ys db r tx' mu')
  then have "lock_inv mu (xs @ tx # ys)" by blast
  from lock_inv_ended [OF this Rollback_survives [OF tx_rollback.hyps(2,3)]] show ?case .
qed simp

text \<open>
  On a closed database Begin releases a lock that it has not taken. When no transaction is open this ends
  the process; otherwise it takes the lock away from an open one.
\<close>

lemma Begin_closed:
  "IsClosed st \<Longrightarrow> Begin (Inr gen) ty st \<lparr>writer = False, readers = 0\<rparr> = Some (Inl Fatal, \<lparr>writer = False, readers = 0\<rparr>)"
  by (simp add: Begin_def newTx_def tx_unlock_def RW_Unlock_def RW_RUnlock_def)

lemma Begin_steals:
  assumes "\<not> IsClosed (store db0)" "IsClosed (store db)"
  shows "\<exists>tx. tType tx = RWTX \<and> tx_reach A M db0 False \<lparr>writer = True, readers = 0\<rparr> [tx] db \<and>
    Begin (Inr gen) RWTX (store db) \<lparr>writer = True, readers = 0\<rparr> = Some (Inl ErrDatabaseClosed, \<lparr>writer = False, readers = 0\<rparr>) \<and>
    tx_reach A M db0 True \<lparr>writer = False, readers = 0\<rparr> [tx] db"
proof -
  obtain tx where tx: "Begin (Inr gen) RWTX (store db0) \<lparr>writer = False, readers = 0\<rparr> = Some (Inr tx, \<lparr>writer = True, readers = 0\<rparr>)" "tType tx = RWTX"
    using assms(1) by (simp add: Begin_def newTx_def tx_lock_def RW_Lock_def)
  have r: "tx_reach A M db0 False \<lparr>writer = True, readers = 0\<rparr> [tx] db" using tx_other [OF tx_begin [OF tx_init tx(1)]] .
  have b: "Begin (Inr gen) RWTX (store db) \<lparr>writer = True, readers = 0\<rparr> = Some (Inl ErrDatabaseClosed, \<lparr>writer = False, readers = 0\<rparr>)"
    using assms(2) by (simp add: Begin_def newTx_def tx_unlock_def RW_Unlock_def)
  show ?thesis using tx_begin_fails [OF r b] r b tx(2) assms(2) by (auto simp: crash_def)
qed

subsection \<open>Properties\<close>

text \<open>
  C11. Commit, its goroutines running one after the other, writes what the transaction has collected: all its
  strings in the order of the calls, then the members of its sets; afterwards the transaction is closed and its lock
  released, and nothing else of the database has changed.
\<close>

theorem Commit_refines:
  assumes "art_engine A" and rel: "db_rel A db a" and tx: "tx_open tx" "status tx = pending" "tx_unlock tx mu = Inr mu'"
    "pendingList tx = []" "pendingHash tx = []" "pendingZSet tx = []"
    and room: "ready (store db) valueTypeString (length (pendingStr tx))" "capacity (store db) valueTypeSet (length (pendingSet tx))"
    and str: "\<forall>e \<in> set (pendingStr tx). str_pending_ok e"
    and set: "\<forall>ps \<in> set (pendingSet tx). set_pending_ok ps \<and> a_set a (Key (ps_e ps)) \<noteq> None"
  shows "\<exists>db'. Commit A tx db mu = (Inr (), tx_reset tx, db', mu') \<and> tx_IsClosed (tx_reset tx) \<and>
    db_rel A db' (set_commit (str_commit a (pendingStr tx)) (pendingSet tx))"
proof -
  note vi = value_index.intro [OF assms(1)]
  obtain db1 where s: "commit_str_db A valueTypeString (pendingStr tx) db = (Inr (), db1)" "db_rel A db1 (str_commit a (pendingStr tx))"
    "capacity (store db1) valueTypeSet (length (pendingSet tx))"
    using value_index.commit_str_rel [OF vi rel room(1) str] room(2) by blast
  obtain db2 where t: "commit_set_db A (pendingSet tx) db1 = (Inr (), db2)"
    "db_rel A db2 (set_commit (str_commit a (pendingStr tx)) (pendingSet tx))"
    using value_index.commit_set_rel [OF vi s(2,3)] set by (auto simp: str_commit_set)
  have "\<not> IsClosed (store db)" using db_relD(1) [OF rel] by (auto simp: IsClosed_def store_inv_def base_inv_def is_open_def)
  moreover have "commit_str_db A vt [] d = (Inr (), d)" for vt and d :: "('a, 'b) LazyDB" by (simp add: commit_str_db_def)
  ultimately have "Commit A tx db mu = (Inr (), tx_reset tx, db2, mu')"
    using tx s(1) t(1) by (simp add: Commit_def tx_IsClosed_def pending_def committing_def)
  then show ?thesis using t(2) by (simp add: tx_IsClosed_def tx_reset_def)
qed

theorem Commit_refines_witness:
  "\<exists>tx mu db'. Begin (Inr 7) RWTX (store sample_db) \<lparr>writer = False, readers = 0\<rparr> = Some (Inr tx, mu) \<and>
     Commit rbt_art (Tx_Set (replicate 20 1) (Some [2]) tx) sample_db mu =
       (Inr (), tx_reset (Tx_Set (replicate 20 1) (Some [2]) tx), db', \<lparr>writer = False, readers = 0\<rparr>) \<and>
     db_rel rbt_art db' (str_upd empty_adb (replicate 20 1) (Some ([2], 0)))"
proof -
  let ?e = "mk_entry (replicate 20 1) (Some [2])"
  have "\<not> IsClosed (store sample_db)" by (simp add: sample_db_def new_db_def IsClosed_def)
  then obtain tx where tx: "Begin (Inr 7) RWTX (store sample_db) \<lparr>writer = False, readers = 0\<rparr> = Some (Inr tx, \<lparr>writer = True, readers = 0\<rparr>)"
    "tx_open tx" "status tx = pending" "tType tx = RWTX" "pendingStr tx = []" "pendingSet tx = []" "pendingList tx = []"
    "pendingHash tx = []" "pendingZSet tx = []"
    by (simp add: Begin_def newTx_def tx_lock_def RW_Lock_def)
  have "str_pending_ok ?e"
    using roomy_committed [of ?e] roomy_mk [of "replicate 20 1" "Some [2]"] by (simp add: str_pending_ok_def SDelete_def bs_def)
  then show ?thesis
    using Commit_refines [OF art_engine_rbt sample_db_rel, of "Tx_Set (replicate 20 1) (Some [2]) tx" "\<lparr>writer = True, readers = 0\<rparr>"
        "\<lparr>writer = False, readers = 0\<rparr>"] tx sample_ready [of 1] sample_ready [of 0, where vt = valueTypeSet]
    by (auto simp: Tx_Set_def tx_unlock_def RW_Unlock_def ready_def bs_def)
qed

text \<open>
  C22. Read-write transactions exclude all others: whatever transactions have begun, collected, committed and
  rolled back, with success or with an error, and whatever else has happened to the database, while one with write
  access is open there is no second one, and ending any open transaction finds the lock held. This is so as long as Begin
  has not been called on a closed database: that call returns \<open>ErrDatabaseClosed\<close> after releasing a lock
  that it has not taken, and an open transaction loses its lock (\<open>Begin_steals\<close>).
\<close>

theorem tx_exclusive:
  assumes "tx_reach A M db0 False mu txs db" "tx \<in> set txs"
  shows "(tType tx = RWTX \<longrightarrow> txs = [tx]) \<and> (\<exists>mu'. tx_unlock tx mu = Inr mu')"
proof -
  have inv: "lock_inv mu txs" using tx_reach_inv [OF assms(1)] by simp
  obtain xs ys where txs: "txs = xs @ tx # ys" using assms(2) by (meson split_list)
  show ?thesis
  proof (cases "tType tx = RWTX")
    case True
    then have "writer mu" "filter (\<lambda>x. tType x = RWTX) (xs @ ys) = []" "filter (\<lambda>x. tType x \<noteq> RWTX) (xs @ ys) = []"
      using inv unfolding lock_inv_def txs by (auto split: if_splits)
    then have "xs @ ys = []" by (metis (mono_tags, lifting) filter_False filter_empty_conv last_in_set)
    then show ?thesis using txs True \<open>writer mu\<close> by (simp add: tx_unlock_def RW_Unlock_def)
  next
    case False
    then have "readers mu \<noteq> 0" using inv unfolding lock_inv_def txs by auto
    then show ?thesis using False by (simp add: tx_unlock_def RW_RUnlock_def)
  qed
qed

theorem tx_exclusive_witness:
  "\<exists>tx mu. tx_reach rbt_art buf_mur sample_db False mu [tx] sample_db \<and> tType tx = RWTX \<and> (\<exists>mu'. tx_unlock tx mu = Inr mu')"
proof -
  have "\<not> IsClosed (store sample_db)" by (simp add: sample_db_def new_db_def IsClosed_def)
  then obtain tx mu where tx: "Begin (Inr 7) RWTX (store sample_db) \<lparr>writer = False, readers = 0\<rparr> = Some (Inr tx, mu)" "tType tx = RWTX"
    by (simp add: Begin_def newTx_def tx_lock_def RW_Lock_def)
  have r: "tx_reach rbt_art buf_mur sample_db False mu [tx] sample_db" using tx_begin [OF tx_init tx(1)] .
  then show ?thesis using tx_exclusive [OF r, of tx] tx(2) by auto
qed

end
