(* ===== verification/Merge.thy ===== *)
theory Merge
  imports Reopen Hash_Ops
begin

text \<open>
  \<open>Merge\<close> of \<open>db.go\<close> with its five helpers.

  \<open>Merge\<close> moves the live entries of an archived log file to the active one and removes the
  file. Its loop over the file has no bound that a type system could see: it reads one file
  while it appends to another, and would not end if both were the same. It is a
  \<open>partial_function\<close> whose value \<open>None\<close> means that it does not return; that it returns on
  every state that satisfies the invariant is part of what is proved here.

  The clock is read for every entry; \<open>clock off\<close> is its value when the entry at \<open>off\<close> is met.
\<close>

subsection \<open>Moving one entry\<close>

definition mergeStr ::
    "('t, Value_t) art \<Rightarrow> u32 \<Rightarrow> int \<Rightarrow> LogEntry \<Rightarrow> ('t, 's) LazyDB \<Rightarrow> unit result \<times> ('t, 's) LazyDB" where
  "mergeStr A fid offset ent db =
     (case ART_Get A (strIndex db) (Key ent) of
        None \<Rightarrow> (Inr (), db)
      | Some val \<Rightarrow>
          if v_fid val = fid \<and> v_offset val = offset
          then (case put_entry A valueTypeString (strIndex db) ent False (store db) of
                  (r, t, st) \<Rightarrow> (r, db\<lparr>store := st, strIndex := t\<rparr>))
          else (Inr (), db))"

text \<open>
  The same for the types that keep one tree per key; the key of the tree is taken from the key
  of the entry. A tree that is missing is a nil pointer.
\<close>

definition merge_tree ::
    "('t, Value_t) art \<Rightarrow> valueType \<Rightarrow> (bytes \<Rightarrow> 't option) \<Rightarrow> u32 \<Rightarrow> int \<Rightarrow> LogEntry \<Rightarrow> Store
       \<Rightarrow> unit result \<times> (bytes \<times> 't) option \<times> Store" where
  "merge_tree A vt trees fid offset ent st =
     (case decodeKey (Key ent) of
        Inl e \<Rightarrow> (Inl e, None, st)
      | Inr (key, _) \<Rightarrow>
          (case trees key of
             None \<Rightarrow> (Inl Panic, None, st)
           | Some idxTree \<Rightarrow>
               (case ART_Get A idxTree (Key ent) of
                  None \<Rightarrow> (Inr (), None, st)
                | Some val \<Rightarrow>
                    if v_fid val = fid \<and> v_offset val = offset
                    then (case put_entry A vt idxTree ent False st of (r, t, st') \<Rightarrow> (r, Some (key, t), st'))
                    else (Inr (), None, st))))"

definition put_tree :: "(bytes \<times> 't) option \<Rightarrow> (bytes \<Rightarrow> 't option) \<Rightarrow> bytes \<Rightarrow> 't option" where
  "put_tree x trees = (case x of None \<Rightarrow> trees | Some (key, t) \<Rightarrow> trees(key \<mapsto> t))"

definition mergeHash ::
    "('t, Value_t) art \<Rightarrow> u32 \<Rightarrow> int \<Rightarrow> LogEntry \<Rightarrow> ('t, 's) LazyDB \<Rightarrow> unit result \<times> ('t, 's) LazyDB" where
  "mergeHash A fid offset ent db =
     (case merge_tree A valueTypeHash (hashIndex db) fid offset ent (store db) of
        (r, x, st) \<Rightarrow> (r, db\<lparr>store := st, hashIndex := put_tree x (hashIndex db)\<rparr>))"

definition mergeSet ::
    "('t, Value_t) art \<Rightarrow> u32 \<Rightarrow> int \<Rightarrow> LogEntry \<Rightarrow> ('t, 's) LazyDB \<Rightarrow> unit result \<times> ('t, 's) LazyDB" where
  "mergeSet A fid offset ent db =
     (case merge_tree A valueTypeSet (setIndex db) fid offset ent (store db) of
        (r, x, st) \<Rightarrow> (r, db\<lparr>store := st, setIndex := put_tree x (setIndex db)\<rparr>))"

definition mergeZSet ::
    "('t, Value_t) art \<Rightarrow> u32 \<Rightarrow> int \<Rightarrow> LogEntry \<Rightarrow> ('t, 's) LazyDB \<Rightarrow> unit result \<times> ('t, 's) LazyDB" where
  "mergeZSet A fid offset ent db =
     (case merge_tree A valueTypeZSet (\<lambda>k. map_option z_tree (zSetIndex db k)) fid offset ent (store db) of
        (r, x, st) \<Rightarrow>
          (r, db\<lparr>store := st, zSetIndex := (case x of
                 None \<Rightarrow> zSetIndex db
               | Some (key, t) \<Rightarrow> (zSetIndex db)(key := map_option (\<lambda>z. z\<lparr>z_tree := t\<rparr>) (zSetIndex db key)))\<rparr>))"

definition mergeList ::
    "('t, Value_t) art \<Rightarrow> u32 \<Rightarrow> int \<Rightarrow> LogEntry \<Rightarrow> ('t, 's) LazyDB \<Rightarrow> unit result \<times> ('t, 's) LazyDB" where
  "mergeList A fid offset ent db =
     (case merge_tree A valueTypeList (listIndex db) fid offset ent (store db) of
        (r, x, st) \<Rightarrow> (r, db\<lparr>store := st, listIndex := put_tree x (listIndex db)\<rparr>))"

definition merge_entry ::
    "('t, Value_t) art \<Rightarrow> valueType \<Rightarrow> u32 \<Rightarrow> int \<Rightarrow> LogEntry \<Rightarrow> ('t, 's) LazyDB \<Rightarrow> unit result \<times> ('t, 's) LazyDB" where
  "merge_entry A vt fid off ent db =
     (case vt of
        valueTypeString \<Rightarrow> mergeStr A fid off ent db
      | valueTypeHash \<Rightarrow> mergeHash A fid off ent db
      | valueTypeSet \<Rightarrow> mergeSet A fid off ent db
      | valueTypeZSet \<Rightarrow> mergeZSet A fid off ent db
      | valueTypeList \<Rightarrow> mergeList A fid off ent db)"

subsection \<open>Merging a file\<close>

partial_function (option) merge_file ::
    "('t, Value_t) art \<Rightarrow> (int \<Rightarrow> int) \<Rightarrow> valueType \<Rightarrow> LogFile \<Rightarrow> int \<Rightarrow> ('t, 's) LazyDB
       \<Rightarrow> (unit result \<times> ('t, 's) LazyDB) option" where
  "merge_file A clock vt lf offset db =
     (case ReadLogEntry lf (files (store db)) offset of
        Inl e \<Rightarrow> if e = EOF \<or> e = ErrLogEndOfFile then Some (Inr (), db) else Some (Inl e, db)
      | Inr (ent, siz) \<Rightarrow>
          if Stat ent = SDelete then merge_file A clock vt lf (offset + siz) db
          else if ExpiredAt ent \<noteq> 0 \<and> sint (ExpiredAt ent) \<le> sint (Unix (clock offset))
          then merge_file A clock vt lf (offset + siz) db
          else (case merge_entry A vt (Fid lf) offset ent db of
                  (Inl e, db') \<Rightarrow> Some (Inl e, db')
                | (Inr _, db') \<Rightarrow> merge_file A clock vt lf (offset + siz) db'))"

text \<open>
  After the loop: the file is closed and removed, the map forgets it and the discard table its
  record. Errors of the removal are ignored.
\<close>

definition drop_file :: "valueType \<Rightarrow> u32 \<Rightarrow> u32 \<Rightarrow> Store \<Rightarrow> unit result \<times> Store" where
  "drop_file vt targetFid fid st =
     (case archivedLogFile st of
        None \<Rightarrow> (Inl Panic, st)
      | Some ar \<Rightarrow>
          (case cm_Get (ar vt) targetFid of
             Inl e \<Rightarrow> (Inl e, st)
           | Inr None \<Rightarrow> (Inl Panic, st)
           | Inr (Some lf) \<Rightarrow>
               (let st1 = st\<lparr>files := snd (LogFile_Delete lf (files st))\<rparr>
                in case cm_Remove (ar vt) targetFid of
                     Inl e \<Rightarrow> (Inl e, st1)
                   | Inr cm \<Rightarrow>
                       (let st2 = st1\<lparr>archivedLogFile := Some (ar(vt := cm))\<rparr>
                        in case clear (discardsMap st2 vt) fid of
                             (r, d) \<Rightarrow> (r, st2\<lparr>discardsMap := (discardsMap st2)(vt := d)\<rparr>)))))"

text \<open>\<open>targetFid\<close> is unsigned, so only the file with this id is merged.\<close>

fun merge_files ::
    "('t, Value_t) art \<Rightarrow> (int \<Rightarrow> int) \<Rightarrow> valueType \<Rightarrow> u32 \<Rightarrow> u32 list \<Rightarrow> ('t, 's) LazyDB
       \<Rightarrow> (unit result \<times> ('t, 's) LazyDB) option" where
  "merge_files A clock vt targetFid [] db = Some (Inr (), db)"
| "merge_files A clock vt targetFid (fid # ccl) db =
     (if targetFid \<noteq> fid then merge_files A clock vt targetFid ccl db
      else case getArchivedLogFile vt targetFid (store db) of
             Inl e \<Rightarrow> Some (Inl e, db)
           | Inr None \<Rightarrow> merge_files A clock vt targetFid ccl db
           | Inr (Some lf) \<Rightarrow>
               (case merge_file A clock vt lf 0 db of
                  None \<Rightarrow> None
                | Some (Inl e, db1) \<Rightarrow> Some (Inl e, db1)
                | Some (Inr _, db1) \<Rightarrow>
                    (case drop_file vt targetFid fid (store db1) of
                       (Inl e, st) \<Rightarrow> Some (Inl e, db1\<lparr>store := st\<rparr>)
                     | (Inr _, st) \<Rightarrow> merge_files A clock vt targetFid ccl (db1\<lparr>store := st\<rparr>))))"

definition Merge ::
    "('t, Value_t) art \<Rightarrow> (int \<Rightarrow> int) \<Rightarrow> valueType \<Rightarrow> u32 \<Rightarrow> rat \<Rightarrow> ('t, 's) LazyDB
       \<Rightarrow> (unit result \<times> ('t, 's) LazyDB) option" where
  "Merge A clock vt targetFid gcRatio db =
     (case getActiveLogFile vt (store db) of
        (Inl e, st) \<Rightarrow> Some (Inl e, db\<lparr>store := st\<rparr>)
      | (Inr lf, st) \<Rightarrow>
          (case getCCL (discardsMap st vt) (Fid lf) gcRatio of
             Inl e \<Rightarrow> Some (Inl e, db\<lparr>store := st\<rparr>)
           | Inr ccl \<Rightarrow> merge_files A clock vt targetFid ccl (db\<lparr>store := st\<rparr>)))"

subsection \<open>Archived files\<close>

lemma stored_more [simp]: "ExpiredAt (stored le) = ExpiredAt le" "roomy (stored le) = roomy le"
  by (simp add: stored_def, simp add: roomy_def)

lemma archivedD:
  assumes "base_inv st" "archived st vt f = Some lf"
  shows "IoController lf = FileIOController (log_name (FType vt) f)" "Fid lf = f"
    "getArchivedLogFile vt f st = Inr (Some lf)" "\<And>x. active st vt = Some x \<Longrightarrow> f < Fid x"
    "readLogEntry vt f off st = map_sum id fst (ReadLogEntry lf (files st) off)"
proof -
  obtain fm am ar where s: "fidsMap st = Some fm" "activeLogFileMap st = Some am" "archivedLogFile st = Some ar"
    "\<And>t. cm_wf (ar t)" "\<And>t. active st t = am t" "\<And>t. archived st t = cm_view (ar t)"
    "0 < MaxLogFileSize (cfg st)" "IOType (cfg st) = FileIO" "\<And>t. discard_ok (discardsMap st t)"
    "\<And>t. type_inv (MaxLogFileSize (cfg st)) (files st) t (am t) (cm_view (ar t))"
    using base_invD [OF assms(1)] by blast
  obtain x where x: "am vt = Some x"
    using s(10) [of vt] assms(2) s(6) by (cases "am vt") (auto simp: type_inv_def)
  then show io: "IoController lf = FileIOController (log_name (FType vt) f)" "Fid lf = f"
    "\<And>x. active st vt = Some x \<Longrightarrow> f < Fid x"
    using s(10) [of vt] assms(2) s(5,6) by (auto simp: type_inv_def lf_ok_def)
  show g: "getArchivedLogFile vt f st = Inr (Some lf)"
    using s(3,4,6) assms(2) by (simp add: getArchivedLogFile_def cm.get_view)
  then show "readLogEntry vt f off st = map_sum id fst (ReadLogEntry lf (files st) off)"
    using x io(3) [of x] s(5) by (auto simp: readLogEntry_def)
qed

text \<open>An index node at the position of an entry of the file refers to that entry.\<close>

lemma node_entry:
  assumes inv: "store_inv st" and ar: "archived st vt f = Some lf"
    and c: "contents (files st) vt f = Some (file_image mx (es1 @ le # es2))" and ok: "file_ok mx (es1 @ le # es2)"
    and r: "refers st vt k v x" "v_fid v = f" "v_offset v = int (length (log_bytes es1))"
  shows "vt = valueTypeSet \<or> Key le = k" "bs (Value le) = fst x" "ExpiredAt le = snd x" "Stat le \<noteq> SDelete"
proof -
  have b: "base_inv st" using inv by (simp add: store_inv_def)
  obtain ls le' where ls: "log_view st vt ls" "(f, int (length (log_bytes es1)), le') \<in> set ls"
    and le': "vt = valueTypeSet \<or> Key le' = k" "bs (Value le') = fst x" "ExpiredAt le' = snd x" "Stat le' \<noteq> SDelete"
    using r by (auto simp: refers_def)
  obtain L where L: "logged st vt L" "ls = log_seq L" using ls(1) by (auto simp: log_view_def)
  have "readLogEntry vt f (int (length (log_bytes es1))) st = Inr (stored le')"
    using logged_located [OF b L(1), of f "int (length (log_bytes es1))" le'] ls(2) L(2)
      readLogEntry_located [OF b, of vt f "int (length (log_bytes es1))" le'] by simp
  moreover have "readLogEntry vt f (int (length (log_bytes es1))) st = Inr (stored le)"
    using archivedD(1,5) [OF b ar] read_image [OF c] scan_entry [OF ok] by simp
  ultimately have "stored le = stored le'" by simp
  then have "Key le = Key le'" "bs (Value le) = bs (Value le')" "ExpiredAt le = ExpiredAt le'" "Stat le = Stat le'"
    by (metis stored_layout(1), metis stored_layout(3), metis stored_more(1), metis stored_layout(2))
  then show "vt = valueTypeSet \<or> Key le = k" "bs (Value le) = fst x" "ExpiredAt le = snd x" "Stat le \<noteq> SDelete"
    using le' by simp_all
qed

text \<open>Every node that refers to the file is at the position of one of its entries.\<close>

lemma node_offset:
  assumes inv: "store_inv st" and c: "contents (files st) vt f = Some (file_image (MaxLogFileSize (cfg st)) es)"
    and ok: "file_ok (MaxLogFileSize (cfg st)) es" and r: "refers st vt k v x" "v_fid v = f"
  shows "v_offset v \<in> (fst \<circ> snd) ` set (positions f 0 es)"
proof -
  obtain L le where L: "logged st vt L" "(f, v_offset v, le) \<in> set (log_seq L)"
    using r by (auto simp: refers_def log_view_def)
  obtain g es' where "(g, es') \<in> set L" "(f, v_offset v, le) \<in> set (positions g 0 es')"
    using L(2) by (auto simp: log_seq_def)
  then have es': "(f, es') \<in> set L" "(f, v_offset v, le) \<in> set (positions f 0 es')"
    using positions_fid [of "(f, v_offset v, le)" g 0 es'] by auto
  have "contents (files st) vt f = Some (file_image (MaxLogFileSize (cfg st)) es')" "file_ok (MaxLogFileSize (cfg st)) es'"
    using stored_logD(1,3) [OF logged_stored [OF L(1)] es'(1)] .
  then have "(fst \<circ> snd) ` set (positions f 0 es) = (fst \<circ> snd) ` set (positions f 0 es')"
    using c ok by (intro image_unique) auto
  then show ?thesis using es'(2) by force
qed

text \<open>The nodes of a tree that refer to the file \<open>f\<close> are at these offsets.\<close>

definition at_offsets :: "('t, Value_t) art \<Rightarrow> 't \<Rightarrow> u32 \<Rightarrow> int set \<Rightarrow> bool" where
  "at_offsets A t f os \<longleftrightarrow> (\<forall>k v. ART_Get A t k = Some v \<and> v_fid v = f \<longrightarrow> v_offset v \<in> os)"

lemma index_rel_at:
  assumes inv: "store_inv st" and c: "contents (files st) vt f = Some (file_image (MaxLogFileSize (cfg st)) es)"
    and ok: "file_ok (MaxLogFileSize (cfg st)) es" and t: "index_rel A st vt t m"
  shows "at_offsets A t f ((fst \<circ> snd) ` set (positions f 0 es))"
  unfolding at_offsets_def
proof (intro allI impI)
  fix k v
  assume v: "ART_Get A t k = Some v \<and> v_fid v = f"
  then have "rel_option (points st vt k) (Some v) (m k)" using t by (metis index_rel_def)
  then obtain x where "refers st vt k v x" by (auto simp: option_rel_Some1 points_def)
  then show "v_offset v \<in> (fst \<circ> snd) ` set (positions f 0 es)" using node_offset [OF inv c ok] v by blast
qed

text \<open>A tree without a node in the file stands for the same map after the file is gone.\<close>

lemma index_rel_drop:
  assumes t: "index_rel A st vt t m" and none: "vt = vt0 \<Longrightarrow> at_offsets A t f {}"
    and r: "\<forall>t k v x. refers st t k v x \<longrightarrow> (t = vt0 \<longrightarrow> v_fid v \<noteq> f) \<longrightarrow> refers st' t k v x"
  shows "index_rel A st' vt t m"
proof -
  have "rel_option (points st' vt k) (ART_Get A t k) (m k)" for k
  proof (rule option.rel_mono_strong)
    show "rel_option (points st vt k) (ART_Get A t k) (m k)" using t by (simp add: index_rel_def)
  next
    fix v x
    assume v: "v \<in> set_option (ART_Get A t k)" "points st vt k v x"
    then have "vt = vt0 \<Longrightarrow> v_fid v \<noteq> f" using none by (auto simp: at_offsets_def)
    then show "points st' vt k v x" using v(2) r unfolding points_def by blast
  qed
  then show ?thesis by (simp add: index_rel_def)
qed

lemma drop_rel:
  fixes db :: "('t, 's) LazyDB"
  assumes rel: "db_rel A db a" and vt: "vt = valueTypeString \<or> vt = valueTypeHash \<or> vt = valueTypeZSet"
    and none: "vt = valueTypeString \<Longrightarrow> at_offsets A (strIndex db) f {}"
      "\<And>key t. vt = valueTypeHash \<Longrightarrow> hashIndex db key = Some t \<Longrightarrow> at_offsets A t f {}"
      "\<And>key z. vt = valueTypeZSet \<Longrightarrow> zSetIndex db key = Some z \<Longrightarrow> at_offsets A (z_tree z) f {}"
    and inv: "store_inv st'"
    and r: "\<forall>t k v x. refers (store db) t k v x \<longrightarrow> (t = vt \<longrightarrow> v_fid v \<noteq> f) \<longrightarrow> refers st' t k v x"
  shows "db_rel A (db\<lparr>store := st'\<rparr>) a"
proof -
  note up = index_rel_drop [OF _ _ r]
  have "index_rel A st' valueTypeString (strIndex db) (a_str a)" using db_relD(2) [OF rel] none(1) by (intro up) simp_all
  moreover have "rel_option (index_rel A st' valueTypeHash) (hashIndex db k) (a_hash a k)" for k
    using db_relD(3) [OF rel] by (rule option.rel_mono_strong) (use none(2) in \<open>auto intro: up\<close>)
  moreover have "rel_option (index_rel A st' u) x y" if "rel_option (index_rel A (store db) u) x y" "u \<noteq> vt" for u x y
    using that(1) by (rule option.rel_mono_strong) (use that(2) in \<open>auto intro: up\<close>)
  moreover have "rel_option (\<lambda>z. index_rel A st' valueTypeZSet (z_tree z)) (zSetIndex db k) (a_zset a k)" for k
  proof -
    have "rel_option (\<lambda>z. index_rel A (store db) valueTypeZSet (z_tree z)) (zSetIndex db k) (a_zset a k)"
      using rel by (simp add: db_rel_def)
    then show ?thesis by (rule option.rel_mono_strong) (use none(3) in \<open>auto intro: up\<close>)
  qed
  ultimately show ?thesis using rel inv vt by (auto simp: db_rel_def)
qed

subsection \<open>Moving the entries of strings\<close>

context value_index
begin

text \<open>A write moves the node of its key to the active file and leaves the others.\<close>

lemma put_entry_node:
  assumes "store_inv st" "put_ok st vt le" "put_entry A vt t le False st = (Inr (), t', st')"
  shows "\<exists>v lf. ART_Get A t' = (ART_Get A t)(Key le \<mapsto> v) \<and> active st' vt = Some lf \<and> v_fid v = Fid lf"
proof -
  obtain pos st1 lf where w: "writeLogEntry vt le st = (Inr pos, st1)" "active st1 vt = Some lf" "Fid lf = vp_fid pos"
    using log_write [OF assms(1,2)] by blast
  then have u: "updateIndexTree A vt t le pos False st1 = (Inr (), t', st')"
    using assms(3) by (simp add: put_entry_def)
  obtain siz where siz: "(if vt = valueTypeString \<or> vt = valueTypeList then map_sum id (int \<circ> snd) (EncodeEntry (Some le))
      else Inr (vp_entrySize pos)) = Inr siz"
    using u unfolding updateIndexTree_def by (auto split: sum.splits)
  define v where "v = \<lparr>v_value = None, v_vType = valueTypeString, v_fid = vp_fid pos, v_offset = vp_offset pos,
    v_entrySize = siz, v_expiredAt = (if ExpiredAt le \<noteq> 0 then ExpiredAt le else 0)\<rparr>"
  have "t' = fst (ART_Put A t (Key le) v)" "st' = st1"
    using u unfolding updateIndexTree_def siz v_def by (auto simp: Let_def split: prod.splits)
  moreover have "v_fid v = vp_fid pos" by (simp add: v_def)
  ultimately show ?thesis using w(2,3) idx.put_get by auto
qed

lemma str_node_entry:
  assumes rel: "db_rel A db a" and ar: "archived (store db) valueTypeString f = Some lf"
    and c: "contents (files (store db)) valueTypeString f = Some (file_image mx (es1 @ le # es2))" and ok: "file_ok mx (es1 @ le # es2)"
    and v: "ART_Get A (strIndex db) k = Some v" "v_fid v = f" "v_offset v = int (length (log_bytes es1))"
  shows "Key le = k" "a_str a k = Some (bs (Value le), ExpiredAt le)" "Stat le \<noteq> SDelete"
proof -
  have "rel_option (points (store db) valueTypeString k) (ART_Get A (strIndex db) k) (a_str a k)"
    using db_relD(2) [OF rel] by (simp add: index_rel_def)
  then obtain x where x: "a_str a k = Some x" "refers (store db) valueTypeString k v x"
    using v(1) by (auto simp: option_rel_Some1 points_def)
  note n = node_entry [OF db_relD(1) [OF rel] ar c ok x(2) v(2,3)]
  show "Key le = k" "a_str a k = Some (bs (Value le), ExpiredAt le)" "Stat le \<noteq> SDelete" using n x(1) by simp_all
qed

lemma mergeStr_rel:
  assumes rel: "db_rel A db a" and ar: "archived (store db) valueTypeString f = Some lf"
    and c: "contents (files (store db)) valueTypeString f = Some (file_image mx (es1 @ le # es2))" and ok: "file_ok mx (es1 @ le # es2)"
    and cap: "capacity (store db) valueTypeString (Suc n)" and le: "roomy le" "Stat le \<noteq> SDelete"
    and os: "at_offsets A (strIndex db) f (insert (int (length (log_bytes es1))) os)"
  shows "\<exists>db'. mergeStr A f (int (length (log_bytes es1))) (stored le) db = (Inr (), db') \<and> db_rel A db' a \<and>
    store_ext valueTypeString (store db) (store db') \<and> capacity (store db') valueTypeString n \<and> at_offsets A (strIndex db') f os"
proof -
  let ?off = "int (length (log_bytes es1))"
  note inv = db_relD(1) [OF rel]
  note node = str_node_entry [OF rel ar c ok]
  have cle: "capacity (store db) valueTypeString n" using capacity_le [OF cap] by simp
  show ?thesis
  proof (cases "\<exists>v. ART_Get A (strIndex db) (Key le) = Some v \<and> v_fid v = f \<and> v_offset v = ?off")
    case False
    then have "at_offsets A (strIndex db) f os" using os node(1) unfolding at_offsets_def by (metis insertE)
    moreover have "mergeStr A f ?off (stored le) db = (Inr (), db)"
      using False by (auto simp: mergeStr_def split: option.split)
    ultimately show ?thesis using rel cle by simp
  next
    case True
    then obtain v where v: "ART_Get A (strIndex db) (Key le) = Some v" "v_fid v = f" "v_offset v = ?off" by blast
    have pk: "put_ok (store db) valueTypeString (stored le)" using roomy_put_ok [OF cap] le(1) by simp
    obtain t' st' where p: "put_entry A valueTypeString (strIndex db) (stored le) False (store db) = (Inr (), t', st')" "store_inv st'"
      "store_ext valueTypeString (store db) st'" "capacity st' valueTypeString n"
      "index_rel A st' valueTypeString t' ((a_str a)(Key le \<mapsto> (bs (Value le), ExpiredAt le)))"
      using put_entry_rel [OF inv db_relD(2) [OF rel] pk, of False] le(2) cap by auto
    have same: "(a_str a)(Key le \<mapsto> (bs (Value le), ExpiredAt le)) = a_str a" using node(2) [OF v] by auto
    obtain v' lf' where n: "ART_Get A t' = (ART_Get A (strIndex db))(Key le \<mapsto> v')" "active st' valueTypeString = Some lf'" "v_fid v' = Fid lf'"
      using put_entry_node [OF inv pk p(1)] by auto
    have "archived st' valueTypeString f = Some lf" using p(3) ar by (simp add: store_ext_def others_same_def)
    then have "f < Fid lf'" using archivedD(4) p(2) n(2) by (auto simp: store_inv_def)
    then have "at_offsets A t' f os" using os node(1) n(3) unfolding at_offsets_def n(1) by (metis fun_upd_apply insertE less_irrefl option.inject)
    moreover have "mergeStr A f ?off (stored le) db = (Inr (), db\<lparr>store := st', strIndex := t'\<rparr>)"
      using v p(1) by (simp add: mergeStr_def)
    moreover have "db_rel A (db\<lparr>store := st', strIndex := t'\<rparr>) a"
      using db_rel_str [OF rel p(2,3,5)] same by simp
    ultimately show ?thesis using p(3,4) by simp
  qed
qed

end

subsection \<open>Removing a file\<close>

lemma log_seq_filter: "log_seq (filter (\<lambda>x. fst x \<noteq> f) L) = filter (\<lambda>x. fst x \<noteq> f) (log_seq L)"
proof (induction L)
  case (Cons p L)
  obtain g es where p: "p = (g, es)" by (cases p)
  have "filter (\<lambda>x. fst x \<noteq> f) (positions g 0 es) = (if g = f then [] else positions g 0 es)"
    using positions_fid [of _ g 0 es] by (auto simp: filter_empty_conv filter_id_conv)
  then show ?case using Cons p by (simp add: log_seq_def)
qed (simp add: log_seq_def)

lemma map_of_filter_key: "map_of (filter (\<lambda>x. fst x \<noteq> f) L) g = (if g = f then None else map_of L g)"
  by (induction L) auto

lemma logged_drop:
  assumes L: "logged st vt L" and f: "archived st vt f = Some lf"
    and st': "cfg st' = cfg st" "active st' vt = active st vt" "archived st' vt = (archived st vt)(f := None)"
      "\<And>g. contents (files st') vt g = (if g = f then None else contents (files st) vt g)"
  shows "logged st' vt (filter (\<lambda>x. fst x \<noteq> f) L)"
proof -
  let ?L = "filter (\<lambda>x. fst x \<noteq> f) L"
  have "archived st vt f = None \<longleftrightarrow> f \<notin> fst ` set (butlast L)" using L by (simp add: logged_def)
  then have "f \<in> fst ` set (butlast L)" using f by simp
  then obtain L0 g es where L0: "L = L0 @ [(g, es)]" by (cases L rule: rev_cases) auto
  have s: "sorted_wrt (<) (map fst L)" using L by (simp add: logged_def)
  have "g \<noteq> f" using s \<open>f \<in> fst ` set (butlast L)\<close> by (auto simp: L0 sorted_wrt_append)
  then have Lf: "?L = filter (\<lambda>x. fst x \<noteq> f) L0 @ [(g, es)]" by (simp add: L0)
  have "sorted_wrt (<) (map fst ?L)" using s by (induction L) auto
  moreover have "archived st' vt h = None \<longleftrightarrow> h \<notin> fst ` set (butlast ?L)" for h
  proof -
    have "archived st vt h = None \<longleftrightarrow> h \<notin> fst ` set L0" using L by (simp add: logged_def L0)
    then show ?thesis unfolding Lf by (auto simp: st'(3))
  qed
  moreover obtain x where "active st vt = Some x" "g = Fid x" "Offset x = int (length (log_bytes es))"
    using L by (auto simp: logged_def L0 split: option.splits)
  moreover have "contents (files st') vt h = map_option (file_image (MaxLogFileSize (cfg st'))) (map_of ?L h)" for h
    unfolding map_of_filter_key using L by (simp add: logged_def st')
  moreover have "\<forall>x \<in> set ?L. file_ok (MaxLogFileSize (cfg st')) (snd x)" using L by (simp add: logged_def st')
  ultimately show ?thesis
    unfolding logged_def st'(2) using Lf by auto
qed

lemma drop_file_ok:
  assumes inv: "store_inv st" and ar: "archived st vt f = Some lf" and room: "freeList (discardsMap st vt) \<noteq> []"
  shows "\<exists>st'. drop_file vt f f st = (Inr (), st') \<and> store_inv st' \<and> contents (files st') vt f = None \<and>
    disc_tab (discardsMap st' vt) = (disc_tab (discardsMap st vt))(f := None) \<and>
    archived st' vt f = None \<and> cfg st' = cfg st \<and>
    (\<forall>t ls. log_view st t ls \<longrightarrow> log_view st' t (if t = vt then filter (\<lambda>x. fst x \<noteq> f) ls else ls)) \<and>
    (\<forall>t k v x. refers st t k v x \<longrightarrow> (t = vt \<longrightarrow> v_fid v \<noteq> f) \<longrightarrow> refers st' t k v x)"
proof -
  have b: "base_inv st" using inv by (simp add: store_inv_def)
  obtain fm am ar' where s: "fidsMap st = Some fm" "activeLogFileMap st = Some am" "archivedLogFile st = Some ar'"
    "\<And>t. cm_wf (ar' t)" "\<And>t. active st t = am t" "\<And>t. archived st t = cm_view (ar' t)"
    "0 < MaxLogFileSize (cfg st)" "IOType (cfg st) = FileIO" "\<And>t. discard_ok (discardsMap st t)"
    "\<And>t. type_inv (MaxLogFileSize (cfg st)) (files st) t (am t) (cm_view (ar' t))"
    using base_invD [OF b] by blast
  note io = archivedD [OF b ar]
  obtain x where x: "am vt = Some x" using s(10) [of vt] ar s(6) by (cases "am vt") (auto simp: type_inv_def)
  have fx: "f < Fid x" using io(4) [of x] x s(5) by simp
  let ?n = "log_name (FType vt) f"
  have "lf_ok (MaxLogFileSize (cfg st)) (files st) vt lf"
    using s(10) [of vt] ar s(6) x unfolding type_inv_def by auto
  then obtain c where "files st ?n = Some c"
    using io(2) by (auto simp: lf_ok_def contents_def)
  then have del: "LogFile_Delete lf (files st) = (Inr (), (files st)(?n := None))"
    using io(1) by (simp add: LogFile_Delete_def IO_Delete_def)
  obtain cm where cm: "cm_Remove (ar' vt) f = Inr cm" "cm_wf cm" "cm_view cm = (cm_view (ar' vt))(f := None)"
    using cm.remove_view [OF s(4)] by blast
  obtain d where d: "clear (discardsMap st vt) f = (Inr (), d)" "discard_ok d"
    "disc_tab d = (disc_tab (discardsMap st vt))(f := None)"
    using clear_tab [of "discardsMap st vt" f] s(9) [of vt] room by (auto simp: discard_ok_def)
  define st' where "st' = st\<lparr>files := (files st)(?n := None), archivedLogFile := Some (ar'(vt := cm)),
    discardsMap := (discardsMap st)(vt := d)\<rparr>"
  have e: "drop_file vt f f st = (Inr (), st')"
    using s(3) cm.get_view [OF s(4), of vt f] ar s(6) del cm(1) d(1) by (simp add: drop_file_def Let_def st'_def)
  have sel: "cfg st' = cfg st" "active st' t = active st t" "archived st' t = (if t = vt then (archived st t)(f := None) else archived st t)"
    "contents (files st') t g = (if t = vt \<and> g = f then None else contents (files st) t g)" for t g
  proof -
    have "archived st' t = cm_view ((ar'(vt := cm)) t)" unfolding archived_def st'_def by simp
    then show "archived st' t = (if t = vt then (archived st t)(f := None) else archived st t)" using s(6) cm(3) by simp
  qed (simp_all add: st'_def active_def)
  have lg: "logged st' t (if t = vt then filter (\<lambda>x. fst x \<noteq> f) L else L)" if l: "logged st t L" for t L
  proof (cases "t = vt")
    case True
    have "logged st' vt (filter (\<lambda>x. fst x \<noteq> f) L)" using l ar True sel by (intro logged_drop) simp_all
    then show ?thesis using True by simp
  next
    case False
    then show ?thesis using l by (simp add: logged_def sel)
  qed
  have lv: "log_view st' t (if t = vt then filter (\<lambda>x. fst x \<noteq> f) ls else ls)" if l: "log_view st t ls" for t ls
  proof -
    obtain L where L: "logged st t L" "ls = log_seq L" using l by (auto simp: log_view_def)
    then show ?thesis using lg [OF L(1)] unfolding log_view_def by (auto simp: log_seq_filter [symmetric])
  qed
  have "type_inv (MaxLogFileSize (cfg st)) (files st') t (active st' t) (archived st' t)" for t
  proof (cases "t = vt")
    case True
    have "lf_ok (MaxLogFileSize (cfg st)) (files st') vt y" if "lf_ok (MaxLogFileSize (cfg st)) (files st) vt y" "Fid y \<noteq> f" for y
      using that by (simp add: lf_ok_def sel)
    then show ?thesis using s(10) [of vt] x fx by (auto simp: type_inv_def sel s(5,6) True split: if_splits)
  next
    case False
    then show ?thesis using s(10) [of t] s(5,6) type_inv_frame [of "files st'" t "files st"] by (simp add: sel)
  qed
  moreover have "is_open st'" using s(1-4) cm(2) by (simp add: is_open_def st'_def)
  ultimately have "base_inv st'" using s(7-9) d(2) by (auto simp: base_inv_def sel) (auto simp: st'_def)
  then have "store_inv st'" using inv lv unfolding store_inv_def by meson
  moreover have "refers st' t k v y" if r: "refers st t k v y" "t = vt \<Longrightarrow> v_fid v \<noteq> f" for t k v y
  proof -
    obtain ls le where ls: "log_view st t ls" "(v_fid v, v_offset v, le) \<in> set ls" "t = valueTypeSet \<or> Key le = k"
      "bs (Value le) = fst y" "ExpiredAt le = snd y" "Stat le \<noteq> SDelete" "v_entrySize v = int (entry_size le)"
      using r(1) by (auto simp: refers_def)
    then show ?thesis
      unfolding refers_def using lv [OF ls(1)] r(2)
      by (intro exI [of _ "if t = vt then filter (\<lambda>x. fst x \<noteq> f) ls else ls"] exI [of _ le]) auto
  qed
  moreover have "discardsMap st' vt = d" by (simp add: st'_def)
  moreover have "contents (files st') vt f = None" "archived st' vt f = None" by (simp_all add: sel)
  ultimately show ?thesis using e d(3) lv sel(1) by (intro exI [of _ st']) simp
qed

lemma merge_files_other: "fid \<notin> set ccl \<Longrightarrow> merge_files A clock vt fid ccl db = Some (Inr (), db)"
  by (induction ccl) auto

lemma merge_files_one:
  assumes "fid \<in> set ccl" "distinct ccl" "getArchivedLogFile vt fid (store db) = Inr (Some lf)"
    "merge_file A clock vt lf 0 db = Some (Inr (), db1)" "drop_file vt fid fid (store db1) = (Inr (), st)"
  shows "merge_files A clock vt fid ccl db = Some (Inr (), db1\<lparr>store := st\<rparr>)"
  using assms by (induction ccl) (auto simp: merge_files_other)

lemma archived_candidate:
  assumes L: "logged st vt L" "(fid, es) \<in> set L" and a: "active st vt = Some lf" "fid \<noteq> Fid lf"
  shows "archived st vt fid \<noteq> None"
proof -
  obtain L0 es0 where "L = L0 @ [(Fid lf, es0)]" using logged_active [OF L(1) a(1)] by blast
  then have "fid \<in> fst ` set (butlast L)" using L(2) a(2) by force
  moreover have "archived st vt fid = None \<longleftrightarrow> fid \<notin> fst ` set (butlast L)" using L(1) by (simp add: logged_def)
  ultimately show ?thesis by simp
qed

lemma getCCL_candidates:
  assumes "base_inv st" "0 \<le> ratio" "candidate (discardsMap st vt) f ratio fid"
  shows "\<exists>ccl. getCCL (discardsMap st vt) f ratio = Inr ccl \<and> distinct ccl \<and> fid \<in> set ccl"
  using getCCL_spec [OF _ _ assms(2), of "discardsMap st vt" f] assms(1,3) by (auto simp: base_inv_def discard_ok_def)

subsection \<open>Merging a file of any type\<close>

text \<open>
  What the loop of \<open>Merge\<close> relies on, for a type \<open>vt\<close>. \<open>nodes_at db f os\<close>: the index nodes of the type
  that refer to the file \<open>f\<close> are at the offsets \<open>os\<close>; \<open>item_of a x\<close>: the abstract database has
  the item \<open>x\<close> under some key of the type; \<open>mergeable a le\<close>: an entry that the loop may meet. Moving an entry keeps the
  abstract database and leaves no node at its place; an entry that is skipped has none.
\<close>

locale merge_type = value_index A for A :: "('t, Value_t) art" +
  fixes vt :: valueType and nodes_at :: "('t, 's) LazyDB \<Rightarrow> u32 \<Rightarrow> int set \<Rightarrow> bool"
    and item_of :: "adb \<Rightarrow> item \<Rightarrow> bool" and mergeable :: "adb \<Rightarrow> LogEntry \<Rightarrow> bool"
  assumes all_at: "db_rel A db a \<Longrightarrow>
      contents (files (store db)) vt f = Some (file_image (MaxLogFileSize (cfg (store db))) es) \<Longrightarrow>
      file_ok (MaxLogFileSize (cfg (store db))) es \<Longrightarrow> nodes_at db f ((fst \<circ> snd) ` set (positions f 0 es))"
    and skip: "db_rel A db a \<Longrightarrow> archived (store db) vt f = Some lf \<Longrightarrow>
      contents (files (store db)) vt f = Some (file_image mx (es1 @ le # es2)) \<Longrightarrow> file_ok mx (es1 @ le # es2) \<Longrightarrow>
      nodes_at db f (insert (int (length (log_bytes es1))) os) \<Longrightarrow>
      Stat le = SDelete \<or> \<not> item_of a (bs (Value le), ExpiredAt le) \<Longrightarrow> nodes_at db f os"
    and move: "db_rel A db a \<Longrightarrow> archived (store db) vt f = Some lf \<Longrightarrow>
      contents (files (store db)) vt f = Some (file_image mx (es1 @ le # es2)) \<Longrightarrow> file_ok mx (es1 @ le # es2) \<Longrightarrow>
      nodes_at db f (insert (int (length (log_bytes es1))) os) \<Longrightarrow>
      capacity (store db) vt (Suc n) \<Longrightarrow> roomy le \<Longrightarrow> Stat le \<noteq> SDelete \<Longrightarrow> mergeable a le \<Longrightarrow>
      \<exists>db'. merge_entry A vt f (int (length (log_bytes es1))) (stored le) db = (Inr (), db') \<and> db_rel A db' a \<and>
        store_ext vt (store db) (store db') \<and> capacity (store db') vt n \<and> nodes_at db' f os"
    and drop_nodes: "db_rel A db a \<Longrightarrow> nodes_at db f {} \<Longrightarrow> store_inv st' \<Longrightarrow>
      \<forall>t k v x. refers (store db) t k v x \<longrightarrow> (t = vt \<longrightarrow> v_fid v \<noteq> f) \<longrightarrow> refers st' t k v x \<Longrightarrow>
      db_rel A (db\<lparr>store := st'\<rparr>) a"
begin

lemma merge_file_rel:
  assumes "db_rel A db a" "archived (store db) vt f = Some lf"
    "contents (files (store db)) vt f = Some (file_image mx (es1 @ es2))" "file_ok mx (es1 @ es2)"
    "capacity (store db) vt (n + length es2)" "\<forall>le \<in> set es2. roomy le \<and> (Stat le \<noteq> SDelete \<longrightarrow> mergeable a le)"
    "\<forall>x off. item_of a x \<longrightarrow> snd x = 0 \<or> sint (Unix (clock off)) < sint (snd x)"
    "nodes_at db f ((fst \<circ> snd) ` set (positions f (int (length (log_bytes es1))) es2))"
  shows "\<exists>db'. merge_file A clock vt lf (int (length (log_bytes es1))) db = Some (Inr (), db') \<and> db_rel A db' a \<and>
    store_ext vt (store db) (store db') \<and> capacity (store db') vt n \<and> nodes_at db' f {}"
  using assms
proof (induction es2 arbitrary: es1 db)
  case Nil
  obtain e where "ReadLogEntry_from (FileIO_Read (file_image mx es1)) (int (length (log_bytes es1))) = Inl e"
    "e = EOF \<or> e = ErrLogEndOfFile"
    using scan_end by blast
  moreover have "base_inv (store db)" using db_relD(1) [OF Nil(1)] by (simp add: store_inv_def)
  ultimately have "ReadLogEntry lf (files (store db)) (int (length (log_bytes es1))) = Inl e" "e = EOF \<or> e = ErrLogEndOfFile"
    using read_image [OF Nil(3)] archivedD(1) [OF _ Nil(2)] by auto
  then show ?case using Nil(1,5,8) by (subst merge_file.simps) auto
next
  case (Cons le es2)
  let ?off = "int (length (log_bytes es1))" and ?es1 = "es1 @ [le]"
  let ?os = "(fst \<circ> snd) ` set (positions f (int (length (log_bytes ?es1))) es2)"
  have b: "base_inv (store db)" using db_relD(1) [OF Cons.prems(1)] by (simp add: store_inv_def)
  have os: "nodes_at db f (insert ?off ?os)" using Cons.prems(8) by simp
  have rd: "ReadLogEntry lf (files (store db)) ?off = Inr (stored le, int (entry_size le))"
    using read_image [OF Cons.prems(3)] archivedD(1) [OF b Cons.prems(2)] scan_entry [OF Cons.prems(4)] by simp
  have fid: "Fid lf = f" using archivedD(2) [OF b Cons.prems(2)] .
  have step: "\<exists>db'. merge_file A clock vt lf (int (length (log_bytes ?es1))) db1 = Some (Inr (), db') \<and> db_rel A db' a \<and>
      store_ext vt (store db) (store db') \<and> capacity (store db') vt n \<and> nodes_at db' f {}"
    if d: "db_rel A db1 a" "store_ext vt (store db) (store db1)" "capacity (store db1) vt (n + length es2)" "nodes_at db1 f ?os" for db1 :: "('t, 's) LazyDB"
  proof -
    have "archived (store db1) vt f = Some lf" "contents (files (store db1)) vt f = Some (file_image mx (?es1 @ es2))"
      using d(2) Cons.prems(2,3) by (simp_all add: store_ext_def others_same_def)
    then show ?thesis
      using Cons.IH [of db1 ?es1] Cons.prems(4,6,7) d store_ext_trans [OF d(2)] by fastforce
  qed
  show ?case
  proof (cases "Stat le = SDelete \<or> (ExpiredAt le \<noteq> 0 \<and> sint (ExpiredAt le) \<le> sint (Unix (clock ?off)))")
    case True
    then have "Stat le = SDelete \<or> \<not> item_of a (bs (Value le), ExpiredAt le)"
      using Cons.prems(7) [rule_format, of "(bs (Value le), ExpiredAt le)" ?off] by auto
    then have "nodes_at db f ?os" by (rule skip [OF Cons.prems(1-4) os])
    moreover have "capacity (store db) vt (n + length es2)" using capacity_le [OF Cons.prems(5)] by simp
    moreover have "merge_file A clock vt lf ?off db = merge_file A clock vt lf (int (length (log_bytes ?es1))) db"
      using rd True by (subst merge_file.simps) auto
    ultimately show ?thesis using step [of db] Cons.prems(1) by simp
  next
    case False
    obtain db1 where m: "merge_entry A vt f ?off (stored le) db = (Inr (), db1)" "db_rel A db1 a"
      "store_ext vt (store db) (store db1)" "capacity (store db1) vt (n + length es2)" "nodes_at db1 f ?os"
      using move [OF Cons.prems(1-4) os, of "n + length es2"] Cons.prems(5,6) False by auto
    have "merge_file A clock vt lf ?off db = merge_file A clock vt lf (int (length (log_bytes ?es1))) db1"
      using rd False m(1) fid by (subst merge_file.simps) auto
    then show ?thesis using step [OF m(2-5)] by simp
  qed
qed

lemma Merge_rel:
  fixes db :: "('t, 's) LazyDB"
  assumes rel: "db_rel A db a" and L: "logged (store db) vt L" "(fid, es) \<in> set L"
    and ar: "active (store db) vt = Some lfa" "candidate (discardsMap (store db) vt) (Fid lfa) ratio fid" "0 \<le> ratio"
    and cap: "capacity (store db) vt (Suc (length es))"
    and es: "\<forall>le \<in> set es. roomy le \<and> (Stat le \<noteq> SDelete \<longrightarrow> mergeable a le)"
    and alive: "\<forall>x off. item_of a x \<longrightarrow> snd x = 0 \<or> sint (Unix (clock off)) < sint (snd x)"
  shows "\<exists>db'. Merge A clock vt fid ratio db = Some (Inr (), db') \<and> db_rel A db' a \<and>
    contents (files (store db')) vt fid = None \<and> archived (store db') vt fid = None"
proof -
  let ?st = "store db" and ?mx = "MaxLogFileSize (cfg (store db))"
  have inv: "store_inv ?st" and b: "base_inv ?st" using db_relD(1) [OF rel] by (simp_all add: store_inv_def)
  obtain ccl where ccl: "getCCL (discardsMap ?st vt) (Fid lfa) ratio = Inr ccl" "distinct ccl" "fid \<in> set ccl"
    using getCCL_candidates [OF b ar(3,2)] by blast
  obtain lf where lf: "archived ?st vt fid = Some lf"
    using archived_candidate [OF L ar(1)] ar(2) by (auto simp: candidate_def)
  note c = stored_logD(1,3) [OF logged_stored [OF L(1)] L(2)]
  obtain db1 where m: "merge_file A clock vt lf 0 db = Some (Inr (), db1)" "db_rel A db1 a"
    "store_ext vt ?st (store db1)" "capacity (store db1) vt 1" "nodes_at db1 fid {}"
    using merge_file_rel [OF rel lf, of ?mx "[]" es 1 clock, OF _ _ _ es alive] all_at [OF rel c] c cap by auto
  have lf1: "archived (store db1) vt fid = Some lf" using m(3) lf by (simp add: store_ext_def others_same_def)
  have "freeList (discardsMap (store db1) vt) \<noteq> []" using m(4) by (auto simp: capacity_def split: option.splits)
  then obtain st' where d: "drop_file vt fid fid (store db1) = (Inr (), st')" "store_inv st'"
    "contents (files st') vt fid = None" "archived st' vt fid = None"
    "\<forall>t k v x. refers (store db1) t k v x \<longrightarrow> (t = vt \<longrightarrow> v_fid v \<noteq> fid) \<longrightarrow> refers st' t k v x"
    using drop_file_ok [OF db_relD(1) [OF m(2)] lf1] by blast
  have "Merge A clock vt fid ratio db = merge_files A clock vt fid ccl db"
    using ccl(1) ar(1) by (simp add: Merge_def getActiveLogFile_def)
  also have "\<dots> = Some (Inr (), db1\<lparr>store := st'\<rparr>)"
    using merge_files_one [OF ccl(3,2) archivedD(3) [OF b lf] m(1) d(1)] .
  finally show ?thesis using drop_nodes [OF m(2,5) d(2,5)] d(3,4) by simp
qed

end

text \<open>The strings: one tree; every entry may be merged.\<close>

definition str_item :: "adb \<Rightarrow> item \<Rightarrow> bool" where
  "str_item a x \<longleftrightarrow> (\<exists>k. a_str a k = Some x)"

context value_index
begin

lemma merge_strings:
  "merge_type A valueTypeString (\<lambda>(db :: ('t, 's) LazyDB). at_offsets A (strIndex db)) str_item (\<lambda>a le. True)"
proof
  fix db :: "('t, 's) LazyDB" and a f lf mx es1 le es2 os
  assume p: "db_rel A db a" "archived (store db) valueTypeString f = Some lf"
    "contents (files (store db)) valueTypeString f = Some (file_image mx (es1 @ le # es2))" "file_ok mx (es1 @ le # es2)"
    and os: "at_offsets A (strIndex db) f (insert (int (length (log_bytes es1))) os)"
  show "at_offsets A (strIndex db) f os" if "Stat le = SDelete \<or> \<not> str_item a (bs (Value le), ExpiredAt le)"
    unfolding at_offsets_def
  proof (intro allI impI)
    fix k v
    assume v: "ART_Get A (strIndex db) k = Some v \<and> v_fid v = f"
    then have "v_offset v \<noteq> int (length (log_bytes es1))"
      using str_node_entry(2,3) [OF p, of k v] that by (auto simp: str_item_def)
    then show "v_offset v \<in> os" using os v unfolding at_offsets_def by blast
  qed
  fix n
  assume "capacity (store db) valueTypeString (Suc n)" "roomy le" "Stat le \<noteq> SDelete"
  then show "\<exists>db'. merge_entry A valueTypeString f (int (length (log_bytes es1))) (stored le) db = (Inr (), db') \<and> db_rel A db' a \<and>
      store_ext valueTypeString (store db) (store db') \<and> capacity (store db') valueTypeString n \<and> at_offsets A (strIndex db') f os"
    using mergeStr_rel [OF p, of n os] os by (simp add: merge_entry_def)
next
  fix db :: "('t, 's) LazyDB" and a f es
  assume "db_rel A db a" "contents (files (store db)) valueTypeString f = Some (file_image (MaxLogFileSize (cfg (store db))) es)"
    "file_ok (MaxLogFileSize (cfg (store db))) es"
  then show "at_offsets A (strIndex db) f ((fst \<circ> snd) ` set (positions f 0 es))"
    by (intro index_rel_at [OF db_relD(1) _ _ db_relD(2)])
next
  fix db :: "('t, 's) LazyDB" and a f st'
  assume "db_rel A db a" "at_offsets A (strIndex db) f {}" "store_inv st'"
    "\<forall>t k v x. refers (store db) t k v x \<longrightarrow> (t = valueTypeString \<longrightarrow> v_fid v \<noteq> f) \<longrightarrow> refers st' t k v x"
  then show "db_rel A (db\<lparr>store := st'\<rparr>) a" by (intro drop_rel [where vt = valueTypeString and f = f]) simp_all
qed

end

interpretation rbt_merge_str: merge_type rbt_art valueTypeString
  "\<lambda>(db :: ((bytes, Value_t) rbt, 's) LazyDB). at_offsets rbt_art (strIndex db)" str_item "\<lambda>a le. True"
  by (rule rbt_values.merge_strings)

text \<open>A file with nothing but deletions: the loop writes nothing.\<close>

lemma merge_file_deletions:
  assumes "base_inv (store db)" "archived (store db) vt f = Some lf"
    "contents (files (store db)) vt f = Some (file_image mx (es1 @ es2))" "file_ok mx (es1 @ es2)" "\<forall>le \<in> set es2. Stat le = SDelete"
  shows "merge_file A clock vt lf (int (length (log_bytes es1))) db = Some (Inr (), db)"
  using assms
proof (induction es2 arbitrary: es1)
  case Nil
  obtain e where "ReadLogEntry_from (FileIO_Read (file_image mx es1)) (int (length (log_bytes es1))) = Inl e"
    "e = EOF \<or> e = ErrLogEndOfFile"
    using scan_end by blast
  then show ?case
    using read_image [OF Nil(3)] archivedD(1) [OF Nil(1,2)] by (subst merge_file.simps) auto
next
  case (Cons le es2)
  have "ReadLogEntry lf (files (store db)) (int (length (log_bytes es1))) = Inr (stored le, int (entry_size le))"
    using read_image [OF Cons.prems(3)] archivedD(1) [OF Cons.prems(1,2)] scan_entry [OF Cons.prems(4)] by simp
  moreover have "merge_file A clock vt lf (int (length (log_bytes (es1 @ [le])))) db = Some (Inr (), db)"
    using Cons.IH [of "es1 @ [le]"] Cons.prems by simp
  ultimately show ?case using Cons.prems(5) by (subst merge_file.simps) simp
qed

lemma Merge_deletions:
  assumes inv: "store_inv (store db)" and L: "logged (store db) vt L" "(fid, es) \<in> set L" and es: "\<forall>le \<in> set es. Stat le = SDelete"
    and ar: "active (store db) vt = Some lfa" "candidate (discardsMap (store db) vt) (Fid lfa) ratio fid" "0 \<le> ratio"
    and room: "freeList (discardsMap (store db) vt) \<noteq> []"
  shows "\<exists>st. Merge A clock vt fid ratio db = Some (Inr (), db\<lparr>store := st\<rparr>) \<and> store_inv st \<and>
    (\<forall>t ls. log_view (store db) t ls \<longrightarrow> log_view st t (if t = vt then filter (\<lambda>x. fst x \<noteq> fid) ls else ls)) \<and>
    (\<forall>t k v x. refers (store db) t k v x \<longrightarrow> (t = vt \<longrightarrow> v_fid v \<noteq> fid) \<longrightarrow> refers st t k v x)"
proof -
  have b: "base_inv (store db)" using inv by (simp add: store_inv_def)
  obtain lf where lf: "archived (store db) vt fid = Some lf"
    using archived_candidate [OF L ar(1)] ar(2) by (auto simp: candidate_def)
  note c = stored_logD(1,3) [OF logged_stored [OF L(1)] L(2)]
  have m: "merge_file A clock vt lf 0 db = Some (Inr (), db)"
    using merge_file_deletions [OF b lf, of _ "[]" es A clock] c es by simp
  obtain ccl where ccl: "getCCL (discardsMap (store db) vt) (Fid lfa) ratio = Inr ccl" "distinct ccl" "fid \<in> set ccl"
    using getCCL_candidates [OF b ar(3,2)] by blast
  obtain st where st: "drop_file vt fid fid (store db) = (Inr (), st)" "store_inv st"
    "\<forall>t ls. log_view (store db) t ls \<longrightarrow> log_view st t (if t = vt then filter (\<lambda>x. fst x \<noteq> fid) ls else ls)"
    "\<forall>t k v x. refers (store db) t k v x \<longrightarrow> (t = vt \<longrightarrow> v_fid v \<noteq> fid) \<longrightarrow> refers st t k v x"
    using drop_file_ok [OF inv lf room] by blast
  have "Merge A clock vt fid ratio db = Some (Inr (), db\<lparr>store := st\<rparr>)"
    using merge_files_one [OF ccl(3,2) archivedD(3) [OF b lf] m st(1)] ccl(1) ar(1) by (simp add: Merge_def getActiveLogFile_def)
  then show ?thesis using st(2-4) by blast
qed

subsection \<open>A file to compact\<close>

lemma half_discarded:
  assumes "f \<noteq> 0"
  shows "\<exists>d. discard_ok d \<and> 2 < length (freeList d) \<and> (\<forall>a. a \<noteq> f \<longrightarrow> candidate d a (1/2) f)"
proof -
  obtain d0 where d0: "discard_wf d0" "recorded d0" "disc_tab d0 = [f \<mapsto> (100, 0)]"
    using setTotal_tab [of "fresh_discard 8" f 100] fresh_discard_simps(1) [of 8] assms by fastforce
  then have "disc_tab d0 f \<noteq> None" by simp
  then have l: "location d0 f \<noteq> None" by (simp add: disc_tab_def)
  obtain d where d: "discard_wf d" "recorded d" "disc_tab d = [f \<mapsto> (100, 51)]"
    using incrDiscard_tab [OF d0(1), of f 51] d0(2,3) l by auto
  have n: "location d g = None" if "g \<noteq> f" for g
    using fun_cong [OF d(3), of g] that by (simp add: disc_tab_def split: option.splits)
  have "ran (location d) \<subseteq> {the (location d f)}"
  proof
    fix x
    assume "x \<in> ran (location d)"
    then obtain g where "location d g = Some x" by (auto simp: ran_def)
    then show "x \<in> {the (location d f)}" using n [of g] by (cases "g = f") auto
  qed
  then have "finite (ran (location d))" "card (ran (location d)) \<le> 1"
    by (auto dest: finite_subset) (metis card.empty card_insert_disjoint card_mono empty_iff finite.intros One_nat_def)
  moreover have "card slots = 682" by (simp add: slots_def card_image inj_on_def)
  moreover have "slots = set (freeList d) \<union> ran (location d)" using d(1) by (simp add: discard_wf_def)
  ultimately have "681 \<le> card (set (freeList d))" using card_Un_le [of "set (freeList d)" "ran (location d)"] by simp
  then have "2 < length (freeList d)" using card_length [of "freeList d"] by linarith
  moreover have "candidate d a (1/2) f" if "a \<noteq> f" for a
    using that d(3) f64_quot_half [of 100 51] by (simp add: candidate_def)
  ultimately show ?thesis using d(1,2) by (auto simp: discard_ok_def)
qed

lemma sample_capacity:
  "active st vt = Some lf \<Longrightarrow> unat (Fid lf) < 100 \<Longrightarrow> 2 < length (freeList (discardsMap st vt)) \<Longrightarrow> capacity st vt 2"
  by (simp add: capacity_def)

subsection \<open>Properties\<close>

text \<open>
  C17. Merge of an archived string file that is a candidate for compaction returns without an
  error: afterwards the file and its handle are gone and the database stands for the same
  contents, since every entry that an index refers to has been moved to the active file. The
  log must have room for the entries and no stored value may have expired.
\<close>

theorem Merge_refines:
  fixes db :: "('t, 's) LazyDB"
  assumes "art_engine A" and rel: "db_rel A db a" and L: "logged (store db) valueTypeString L" "(fid, es) \<in> set L"
    and ar: "active (store db) valueTypeString = Some lfa" "candidate (discardsMap (store db) valueTypeString) (Fid lfa) ratio fid" "0 \<le> ratio"
    and cap: "capacity (store db) valueTypeString (Suc (length es))" and es: "\<forall>le \<in> set es. roomy le"
    and alive: "\<forall>k x off. a_str a k = Some x \<longrightarrow> snd x = 0 \<or> sint (Unix (clock off)) < sint (snd x)"
  shows "\<exists>db'. Merge A clock valueTypeString fid ratio db = Some (Inr (), db') \<and> db_rel A db' a \<and>
    contents (files (store db')) valueTypeString fid = None \<and> archived (store db') valueTypeString fid = None"
proof (rule merge_type.Merge_rel [OF value_index.merge_strings [OF value_index.intro [OF assms(1)]] rel L ar cap])
  show "\<forall>x off. str_item a x \<longrightarrow> snd x = 0 \<or> sint (Unix (clock off)) < sint (snd x)"
    using alive by (auto simp: str_item_def)
qed (use es in simp)

theorem Merge_refines_witness:
  "\<exists>(db :: ((bytes, Value_t) rbt, unit) LazyDB) db' c.
     contents (files (store db)) valueTypeString 1 = Some c \<and> Get rbt_art 0 (replicate 20 1) db = Inr (Some [2]) \<and>
     Merge rbt_art (\<lambda>_. 0) valueTypeString 1 (1/2) db = Some (Inr (), db') \<and>
     contents (files (store db')) valueTypeString 1 = None \<and> Get rbt_art 0 (replicate 20 1) db' = Inr (Some [2])"
proof -
  let ?e = "mk_entry (replicate 20 1) (Some [2])" and ?vt = valueTypeString
  let ?L = "[(1, [?e]), (2, [])] :: (u32 \<times> LogEntry list) list" and ?a = "empty_adb\<lparr>a_str := [replicate 20 1 \<mapsto> ([2], 0)]\<rparr>"
  have e: "roomy ?e" "Stat ?e \<noteq> SDelete" using roomy_mk [of "replicate 20 1" "Some [2]"] by (simp_all add: bs_def SDelete_def)
  obtain d where d: "discard_ok d" "2 < length (freeList d)" "\<forall>a. a \<noteq> 1 \<longrightarrow> candidate d a (1/2) 1"
    using half_discarded [of 1] by auto
  have rp: "replay (log_seq ?L) = [replicate 20 1 \<mapsto> ([2], 0)]" using e(2) replay_simps(2) [of "[]" 1 0 ?e] by (simp add: bs_def)
  have exp: "\<forall>k x. ([replicate 20 1 \<mapsto> ([2], 0)] :: imap) k = Some x \<longrightarrow> snd x = 0" by auto
  have "file_ok mx [?e]" for mx using file_ok_append [of mx "[]" ?e] e(1) by (auto simp: roomy_def)
  then obtain db :: "((bytes, Value_t) rbt, unit) LazyDB" where db: "db_rel rbt_art db ?a"
    "logged (store db) ?vt ?L" "discardsMap (store db) ?vt = d" "active (store db) ?vt = reopened_active ?vt ?L"
    using string_db_exists [of ?L _ d] d(1) exp unfolding rp by auto
  obtain lf where lf: "active (store db) ?vt = Some lf" "Fid lf = 2" using db(4) by (auto simp: reopened_active_def fresh_lf_def)
  have "capacity (store db) ?vt 2" using sample_capacity [OF lf(1)] lf(2) d(2) db(3) by simp
  then have "capacity (store db) ?vt (Suc (length [?e]))" by (simp add: numeral_2_eq_2)
  moreover have "\<forall>k x off. a_str ?a k = Some x \<longrightarrow> snd x = 0 \<or> sint (Unix 0) < sint (snd x)" by auto
  ultimately obtain db' where db': "Merge rbt_art (\<lambda>_. 0) ?vt 1 (1/2) db = Some (Inr (), db')" "db_rel rbt_art db' ?a"
    "contents (files (store db')) ?vt 1 = None"
    using Merge_refines [OF art_engine_rbt db(1,2) _ lf(1), of 1 "[?e]" "1/2" "\<lambda>_. 0"] lf(2) d(3) db(3) e(1) by auto
  have "Get rbt_art 0 (replicate 20 1) x = Inr (Some [2])" if "db_rel rbt_art x ?a" for x :: "((bytes, Value_t) rbt, unit) LazyDB"
    using rbt_values.str_get_rel [OF that] by (simp add: Get_def lookup_item_def live_def)
  then show ?thesis
    using db(1) db' stored_logD(1) [OF logged_stored [OF db(2)], of 1 "[?e]"] by auto
qed

text \<open>
  C34. Merge forgets deletions. A key is put in file 1 and deleted in file 2; merging file 2
  drops the delete entry although file 1 still holds the value. The key stays deleted until
  the database is closed; when it is opened again, the value is back.
\<close>

theorem Merge_revives:
  "\<exists>(db :: ((bytes, Value_t) rbt, unit) LazyDB) db' dir (db'' :: ((bytes, Value_t) rbt, unit) LazyDB).
     db_rel rbt_art db empty_adb \<and> durable db empty_adb \<and>
     Merge rbt_art (\<lambda>_. 0) valueTypeString 2 (1/2) db = Some (Inr (), db') \<and>
     Get rbt_art 0 (replicate 20 1) db' = Inl ErrKeyNotFound \<and> dir_ok dir (files (store db')) \<and>
     Open rbt_art (cfg (store db')) dir (files (store db')) (\<lambda>vt. Some (d_file (discardsMap (store db') vt))) = Inr db'' \<and>
     Get rbt_art 0 (replicate 20 1) db'' = Inr (Some [2])"
proof -
  let ?k = "replicate 20 1 :: bytes" and ?vt = valueTypeString
  let ?e = "mk_entry ?k (Some [2])" and ?x = "del_entry ?k"
  let ?L = "[(1, [?e]), (2, [?x]), (3, [])] :: (u32 \<times> LogEntry list) list" and ?ls = "[(1, 0, ?e)] :: (u32 \<times> int \<times> LogEntry) list"
  have e: "roomy ?e" "Stat ?e \<noteq> SDelete" "roomy ?x" "Stat ?x = SDelete"
    using roomy_mk [of ?k "Some [2]"] roomy_del [of ?k] by (simp_all add: bs_def SDelete_def)
  have ls: "log_seq ?L = ?ls @ [(2, 0, ?x)]" by simp
  have rp: "replay ?ls = [?k \<mapsto> ([2], 0)]" using e(2) replay_simps(2) [of "[]" 1 0 ?e] by (simp add: bs_def)
  have rp': "replay (log_seq ?L) = Map.empty" unfolding ls replay_simps(2) rp using e(4) by auto
  obtain d where d: "discard_ok d" "2 < length (freeList d)" "\<forall>a. a \<noteq> 2 \<longrightarrow> candidate d a (1/2) 2"
    using half_discarded [of 2] by auto
  have "file_ok mx [?e]" "file_ok mx [?x]" for mx
    using file_ok_append [of mx "[]" ?e] file_ok_append [of mx "[]" ?x] e(1,3) by (auto simp: roomy_def)
  then obtain db :: "((bytes, Value_t) rbt, unit) LazyDB" where db: "db_rel rbt_art db (empty_adb\<lparr>a_str := Map.empty\<rparr>)"
    "logged (store db) ?vt ?L" "log_view (store db) valueTypeHash []" "discardsMap (store db) ?vt = d"
    "active (store db) ?vt = reopened_active ?vt ?L"
    using string_db_exists [of ?L _ d] d(1) unfolding rp' by auto
  have ea: "empty_adb\<lparr>a_str := Map.empty\<rparr> = empty_adb" by (simp add: empty_adb_def)
  have lv: "log_view (store db) ?vt (log_seq ?L)" using db(2) unfolding log_view_def by blast
  obtain lfa where lfa: "active (store db) ?vt = Some lfa" "Fid lfa = 3" using db(5) by (auto simp: reopened_active_def fresh_lf_def)
  have "freeList (discardsMap (store db) ?vt) \<noteq> []" "candidate (discardsMap (store db) ?vt) (Fid lfa) (1/2) 2"
    using d(2,3) db(4) lfa(2) by auto
  then obtain st where st: "Merge rbt_art (\<lambda>_. 0) ?vt 2 (1/2) db = Some (Inr (), db\<lparr>store := st\<rparr>)" "store_inv st"
    "\<forall>t ls. log_view (store db) t ls \<longrightarrow> log_view st t (if t = ?vt then filter (\<lambda>x. fst x \<noteq> 2) ls else ls)"
    "\<forall>t k v x. refers (store db) t k v x \<longrightarrow> (t = ?vt \<longrightarrow> v_fid v \<noteq> 2) \<longrightarrow> refers st t k v x"
    using Merge_deletions [OF db_relD(1) [OF db(1)] db(2), of 2 "[?x]" lfa "1/2" rbt_art "\<lambda>_. 0"] lfa(1) e(4) by auto
  let ?db = "db\<lparr>store := st\<rparr>"
  have "at_offsets rbt_art (strIndex db) 2 {}"
    using db_relD(2) [OF db(1)] by (auto simp: at_offsets_def index_rel_def)
  then have rel': "db_rel rbt_art ?db (empty_adb\<lparr>a_str := Map.empty\<rparr>)" by (intro drop_rel [OF db(1) _ _ _ _ st(2,4)]) simp_all
  have "log_view st ?vt ?ls" using st(3) lv unfolding ls by fastforce
  then have dur: "durable ?db (empty_adb\<lparr>a_str := [?k \<mapsto> ([2], 0)]\<rparr>)" using rp by (auto simp: durable_def)
  have h: "log_view (store ?db) valueTypeHash []" using st(3) db(3) by fastforce
  obtain dir where dir: "dir_ok dir (files (store ?db))" 
    using store_inv_log [OF st(2)] dir_exists [of st] by (simp add: choice_iff) metis
  obtain db'' :: "((bytes, Value_t) rbt, unit) LazyDB" where
    "Open rbt_art (cfg (store ?db)) dir (files (store ?db)) (\<lambda>vt. Some (d_file (discardsMap (store ?db) vt))) = Inr db''"
    "\<forall>now k. Get rbt_art now k db'' = lookup_item (Unix now) (a_str (empty_adb\<lparr>a_str := [?k \<mapsto> ([2], 0)]\<rparr>)) k"
    using rbt_values.Open_rel [OF _ dur dir h] st(2) by auto
  moreover have "Get rbt_art 0 ?k ?db = Inl ErrKeyNotFound"
    using rbt_values.str_get_rel [OF rel'] by (simp add: Get_def lookup_item_def)
  moreover have "durable db empty_adb" using lv rp' unfolding durable_def by (metis adb.select_convs(1) empty_adb_def)
  ultimately show ?thesis using db(1) st(1) dir unfolding ea by (fastforce simp: lookup_item_def live_def)
qed

end
