(* ===== verification/Merge_Keyed.thy ===== *)
theory Merge_Keyed
  imports Merge
begin

text \<open>
  \<open>Merge\<close> of a file of hashes or of sorted sets (\<open>mergeHash\<close>, \<open>mergeZSet\<close> of \<open>db.go\<close>): the types that keep a
  tree per key and whose entries are written under the keys that the merge decodes. The trees
  of all keys share the log files of the type; an entry is moved in the tree of the key that its own key names. Lists
  and sets keep a tree per key too, but their entries are written under other keys.
\<close>

subsection \<open>The trees of a type\<close>

definition keyed :: "valueType \<Rightarrow> bool" where
  "keyed vt \<longleftrightarrow> vt = valueTypeHash \<or> vt = valueTypeZSet"

definition trees :: "valueType \<Rightarrow> ('t, 's) LazyDB \<Rightarrow> bytes \<Rightarrow> 't option" where
  "trees vt db = (if vt = valueTypeZSet then (\<lambda>k. map_option z_tree (zSetIndex db k)) else hashIndex db)"

definition imaps :: "valueType \<Rightarrow> adb \<Rightarrow> bytes \<Rightarrow> imap option" where
  "imaps vt a = (if vt = valueTypeZSet then a_zset a else a_hash a)"

definition move_tree :: "valueType \<Rightarrow> bytes \<Rightarrow> 't \<Rightarrow> Store \<Rightarrow> ('t, 's) LazyDB \<Rightarrow> ('t, 's) LazyDB" where
  "move_tree vt key t st db =
     (if vt = valueTypeZSet
      then db\<lparr>store := st, zSetIndex := (zSetIndex db)(key := map_option (\<lambda>z. z\<lparr>z_tree := t\<rparr>) (zSetIndex db key))\<rparr>
      else db\<lparr>store := st, hashIndex := (hashIndex db)(key \<mapsto> t)\<rparr>)"

lemma trees_store [simp]: "trees vt (db\<lparr>store := st\<rparr>) = trees vt db" "store (move_tree vt key t st db) = st"
  by (simp_all add: trees_def move_tree_def)

lemma trees_move_tree [simp]: "trees vt db key \<noteq> None \<Longrightarrow> trees vt (move_tree vt key t st db) = (trees vt db)(key \<mapsto> t)"
  by (auto simp: fun_eq_iff trees_def move_tree_def)

lemma keyed_rel: "db_rel A db a \<Longrightarrow> keyed vt \<Longrightarrow> rel_option (index_rel A (store db) vt) (trees vt db key) (imaps vt a key)"
  by (auto simp: db_rel_def keyed_def trees_def imaps_def option.rel_map)

lemma db_rel_tree:
  assumes "db_rel A db a" "keyed vt" "store_inv st'" "store_ext vt (store db) st'" "index_rel A st' vt t m"
    and "imaps vt a key = Some m" "trees vt db key \<noteq> None"
  shows "db_rel A (move_tree vt key t st' db) a"
proof (cases "vt = valueTypeZSet")
  case True
  then obtain z where z: "zSetIndex db key = Some z" "a_zset a key = Some m" using assms(6,7) by (auto simp: trees_def imaps_def)
  have "a\<lparr>a_zset := (a_zset a)(key \<mapsto> m)\<rparr> = a" using z(2) by (simp add: map_upd_triv)
  then show ?thesis using db_rel_zset [OF assms(1,3), of "z\<lparr>z_tree := t\<rparr>" m key] assms(4,5) True z(1) by (simp add: move_tree_def)
next
  case False
  then have vt: "vt = valueTypeHash" "a_hash a key = Some m" using assms(2,6) by (auto simp: keyed_def imaps_def)
  have "a\<lparr>a_hash := (a_hash a)(key \<mapsto> m)\<rparr> = a" using vt(2) by (simp add: map_upd_triv)
  then show ?thesis using db_rel_hash [OF assms(1,3), of "Some t" "Some m" key] assms(4,5) vt(1) by (simp add: move_tree_def)
qed

lemma merge_entry_keyed:
  assumes "keyed vt"
  shows "merge_entry A vt f off le db =
    (case merge_tree A vt (trees vt db) f off le (store db) of
       (r, x, st) \<Rightarrow> (r, case x of None \<Rightarrow> db\<lparr>store := st\<rparr> | Some (key, t) \<Rightarrow> move_tree vt key t st db))"
  using assms by (auto simp: keyed_def merge_entry_def mergeHash_def mergeZSet_def trees_def move_tree_def put_tree_def
    split: prod.splits option.splits)

subsection \<open>Entries of the trees\<close>

definition keyed_item :: "valueType \<Rightarrow> adb \<Rightarrow> item \<Rightarrow> bool" where
  "keyed_item vt a x \<longleftrightarrow> (\<exists>key m k. imaps vt a key = Some m \<and> m k = Some x)"

text \<open>The fields of a hash and the members of a sorted set are under keys that name it, as \<open>HSet\<close> and \<open>ZAdd\<close> write them.\<close>

definition keyed_typed :: "valueType \<Rightarrow> adb \<Rightarrow> bool" where
  "keyed_typed vt a \<longleftrightarrow> (\<forall>key m k. imaps vt a key = Some m \<and> m k \<noteq> None \<longrightarrow> length key < 2 ^ 32 \<and> (\<exists>fld. k = encoded key fld))"

lemma keyed_typedD:
  "keyed_typed vt a \<Longrightarrow> imaps vt a key = Some m \<Longrightarrow> m k = Some x \<Longrightarrow> length key < 2 ^ 32 \<and> (\<exists>fld. k = encoded key fld)"
  unfolding keyed_typed_def by (metis option.distinct(1))

text \<open>An entry of a hash or sorted set that exists.\<close>

definition keyed_entry :: "valueType \<Rightarrow> adb \<Rightarrow> LogEntry \<Rightarrow> bool" where
  "keyed_entry vt a le \<longleftrightarrow> (\<exists>key fld. length key < 2 ^ 32 \<and> Key le = encoded key fld \<and> imaps vt a key \<noteq> None)"

definition keyed_nodes_at :: "('t, Value_t) art \<Rightarrow> valueType \<Rightarrow> ('t, 's) LazyDB \<Rightarrow> u32 \<Rightarrow> int set \<Rightarrow> bool" where
  "keyed_nodes_at A vt db f os \<longleftrightarrow> (\<forall>key t. trees vt db key = Some t \<longrightarrow> at_offsets A t f os)"

lemma keyed_nodes_atI:
  "(\<And>key t k v. trees vt db key = Some t \<Longrightarrow> ART_Get A t k = Some v \<Longrightarrow> v_fid v = f \<Longrightarrow> v_offset v \<in> os) \<Longrightarrow> keyed_nodes_at A vt db f os"
  by (auto simp: keyed_nodes_at_def at_offsets_def)

lemma keyed_nodes_atD:
  "keyed_nodes_at A vt db f os \<Longrightarrow> trees vt db key = Some t \<Longrightarrow> ART_Get A t k = Some v \<Longrightarrow> v_fid v = f \<Longrightarrow> v_offset v \<in> os"
  by (auto simp: keyed_nodes_at_def at_offsets_def)

context value_index
begin

lemma keyed_index_tree:
  assumes "db_rel A db a" "keyed vt" "trees vt db key = Some t"
  obtains m where "imaps vt a key = Some m" "index_rel A (store db) vt t m"
  using keyed_rel [OF assms(1,2), of key] assms(3) by (auto simp: option_rel_Some1)

lemma keyed_node_entry:
  assumes rel: "db_rel A db a" and vt: "keyed vt" and ar: "archived (store db) vt f = Some lf"
    and c: "contents (files (store db)) vt f = Some (file_image mx (es1 @ le # es2))" and ok: "file_ok mx (es1 @ le # es2)"
    and t: "trees vt db key = Some t" and v: "ART_Get A t k = Some v" "v_fid v = f" "v_offset v = int (length (log_bytes es1))"
  shows "Key le = k" "Stat le \<noteq> SDelete" "\<exists>m. imaps vt a key = Some m \<and> m k = Some (bs (Value le), ExpiredAt le)"
proof -
  obtain m where m: "imaps vt a key = Some m" "index_rel A (store db) vt t m" using rel vt t by (rule keyed_index_tree)
  then have "rel_option (points (store db) vt k) (ART_Get A t k) (m k)" by (simp add: index_rel_def)
  then obtain x where x: "m k = Some x" "refers (store db) vt k v x"
    using v(1) by (auto simp: option_rel_Some1 points_def)
  note n = node_entry [OF db_relD(1) [OF rel] ar c ok x(2) v(2,3)]
  show "Key le = k" "Stat le \<noteq> SDelete" "\<exists>m. imaps vt a key = Some m \<and> m k = Some (bs (Value le), ExpiredAt le)"
    using n x(1) m(1) vt by (auto simp: keyed_def)
qed

text \<open>A node at the place of an entry is in the tree that the key of the entry names.\<close>

lemma keyed_node_own:
  assumes rel: "db_rel A db a" and vt: "keyed vt" and ar: "archived (store db) vt f = Some lf"
    and c: "contents (files (store db)) vt f = Some (file_image mx (es1 @ le # es2))" and ok: "file_ok mx (es1 @ le # es2)"
    and typed: "keyed_typed vt a" and key: "length key < 2 ^ 32" "Key le = encoded key fld"
    and v: "trees vt db key' = Some t'" "ART_Get A t' k = Some v" "v_fid v = f" "v_offset v = int (length (log_bytes es1))"
  shows "key' = key \<and> k = Key le"
proof -
  note nd = keyed_node_entry [OF rel vt ar c ok v]
  obtain m' where m': "imaps vt a key' = Some m'" "m' k = Some (bs (Value le), ExpiredAt le)" using nd(3) by blast
  obtain fld' where k: "length key' < 2 ^ 32" "k = encoded key' fld'" using keyed_typedD [OF typed m'] by blast
  have "encoded key' fld' = encoded key fld" unfolding k(2) [symmetric] nd(1) [symmetric] by (rule key(2))
  then show ?thesis using encoded_inj [OF k(1) key(1)] nd(1) by blast
qed

text \<open>Moving an entry.\<close>

lemma merge_keyed_rel:
  fixes db :: "('t, 's) LazyDB"
  assumes rel: "db_rel A db a" and vt: "keyed vt" and ar: "archived (store db) vt f = Some lf"
    and c: "contents (files (store db)) vt f = Some (file_image mx (es1 @ le # es2))" and ok: "file_ok mx (es1 @ le # es2)"
    and os: "keyed_nodes_at A vt db f (insert (int (length (log_bytes es1))) os)"
    and cap: "capacity (store db) vt (Suc n)" and le: "roomy le" "Stat le \<noteq> SDelete"
    and typed: "keyed_typed vt a" "keyed_entry vt a le"
  shows "\<exists>db'. merge_entry A vt f (int (length (log_bytes es1))) (stored le) db = (Inr (), db') \<and> db_rel A db' a \<and>
    store_ext vt (store db) (store db') \<and> capacity (store db') vt n \<and> keyed_nodes_at A vt db' f os"
proof -
  let ?off = "int (length (log_bytes es1))" 
  note inv = db_relD(1) [OF rel] and node = keyed_node_entry [OF rel vt ar c ok]
  obtain key fld m where key: "length key < 2 ^ 32" "Key le = encoded key fld" "imaps vt a key = Some m"
    using typed(2) by (auto simp: keyed_entry_def)
  obtain t where t: "trees vt db key = Some t" "index_rel A (store db) vt t m"
    using keyed_rel [OF rel vt, of key] key(3) by (auto simp: option_rel_Some2)
  have dec: "decodeKey (Key (stored le)) = Inr (key, fld)" using decodeKey_encoded [OF key(1)] key(2) by simp
  have own: "key' = key \<and> k = Key le"
    if "trees vt db key' = Some t'" "ART_Get A t' k = Some v" "v_fid v = f" "v_offset v = ?off" for key' t' k v
    using keyed_node_own [OF rel vt ar c ok typed(1) key(1,2) that] .
  have cle: "capacity (store db) vt n" using capacity_le [OF cap] by simp
  show ?thesis
  proof (cases "\<exists>v. ART_Get A t (Key le) = Some v \<and> v_fid v = f \<and> v_offset v = ?off")
    case False
    have "keyed_nodes_at A vt db f os"
    proof (rule keyed_nodes_atI)
      fix key' t' k v
      assume v: "trees vt db key' = Some t'" "ART_Get A t' k = Some v" "v_fid v = f"
      then have "v_offset v \<noteq> ?off" using own [OF v] False t(1) by auto
      then show "v_offset v \<in> os" using keyed_nodes_atD [OF os v] by simp
    qed
    moreover have "merge_entry A vt f ?off (stored le) db = (Inr (), db)"
      using False dec t(1) by (auto simp: merge_entry_keyed [OF vt] merge_tree_def split: option.split)
    ultimately show ?thesis using rel cle by simp
  next
    case True
    then obtain v where v: "ART_Get A t (Key le) = Some v" "v_fid v = f" "v_offset v = ?off" by blast
    have pk: "put_ok (store db) vt (stored le)" using roomy_put_ok [OF cap] le(1) by simp
    obtain t' st' where p: "put_entry A vt t (stored le) False (store db) = (Inr (), t', st')" "store_inv st'"
      "store_ext vt (store db) st'" "capacity st' vt n" "index_rel A st' vt t' (m(Key le \<mapsto> (bs (Value le), ExpiredAt le)))"
      using put_entry_rel [OF inv t(2) pk, of False] le(2) cap by auto
    have same: "m(Key le \<mapsto> (bs (Value le), ExpiredAt le)) = m" using node(3) [OF t(1) v] key(3) by auto
    obtain v' lf' where n: "ART_Get A t' = (ART_Get A t)(Key le \<mapsto> v')" "active st' vt = Some lf'" "v_fid v' = Fid lf'"
      using put_entry_node [OF inv pk p(1)] by auto
    have "archived st' vt f = Some lf" using p(3) ar by (simp add: store_ext_def others_same_def)
    then have "f < Fid lf'" using archivedD(4) p(2) n(2) by (auto simp: store_inv_def)
    then have new: "v_fid v' \<noteq> f" using n(3) by simp
    let ?db = "move_tree vt key t' st' db"
    have "v_offset w \<in> os" if w: "trees vt ?db key' = Some u" "ART_Get A u k = Some w" "v_fid w = f" for key' u k w
    proof -
      obtain u' where u': "trees vt db key' = Some u'" "ART_Get A u' k = Some w" "key' \<noteq> key \<or> k \<noteq> Key le"
        using w t(1) n(1) new by (cases "key' = key") (auto split: if_splits)
      then have "v_offset w \<noteq> ?off" using own [OF u'(1,2) w(3)] by blast
      then show ?thesis using keyed_nodes_atD [OF os u'(1,2) w(3)] by simp
    qed
    then have "keyed_nodes_at A vt ?db f os" by (rule keyed_nodes_atI)
    moreover have "merge_entry A vt f ?off (stored le) db = (Inr (), ?db)"
      using v p(1) dec t(1) by (simp add: merge_entry_keyed [OF vt] merge_tree_def)
    moreover have "db_rel A ?db a" using db_rel_tree [OF rel vt p(2,3)] p(5) same key(3) t(1) by simp
    ultimately show ?thesis using p(3,4) by simp
  qed
qed

lemma merge_keyed:
  assumes vt: "keyed vt"
  shows "merge_type A vt (keyed_nodes_at A vt :: ('t, 's) LazyDB \<Rightarrow> _) (keyed_item vt) (\<lambda>a le. keyed_typed vt a \<and> keyed_entry vt a le)"
proof
  fix db :: "('t, 's) LazyDB" and a f lf mx es1 le es2 os
  assume p: "db_rel A db a" "archived (store db) vt f = Some lf"
    "contents (files (store db)) vt f = Some (file_image mx (es1 @ le # es2))" "file_ok mx (es1 @ le # es2)"
    and os: "keyed_nodes_at A vt db f (insert (int (length (log_bytes es1))) os)"
  show "keyed_nodes_at A vt db f os" if skip: "Stat le = SDelete \<or> \<not> keyed_item vt a (bs (Value le), ExpiredAt le)"
  proof (rule keyed_nodes_atI)
    fix key t k v
    assume v: "trees vt db key = Some t" "ART_Get A t k = Some v" "v_fid v = f"
    then have "v_offset v \<noteq> int (length (log_bytes es1))"
      using keyed_node_entry(2,3) [OF p(1) vt p(2-4) v] skip by (auto simp: keyed_item_def)
    then show "v_offset v \<in> os" using keyed_nodes_atD [OF os v] by simp
  qed
  fix n
  assume "capacity (store db) vt (Suc n)" "roomy le" "Stat le \<noteq> SDelete" "keyed_typed vt a \<and> keyed_entry vt a le"
  then show "\<exists>db'. merge_entry A vt f (int (length (log_bytes es1))) (stored le) db = (Inr (), db') \<and> db_rel A db' a \<and>
      store_ext vt (store db) (store db') \<and> capacity (store db') vt n \<and> keyed_nodes_at A vt db' f os"
    using merge_keyed_rel [OF p(1) vt p(2-4) os, of n] by simp
next
  fix db :: "('t, 's) LazyDB" and a f es
  assume p: "db_rel A db a" "contents (files (store db)) vt f = Some (file_image (MaxLogFileSize (cfg (store db))) es)"
    "file_ok (MaxLogFileSize (cfg (store db))) es"
  show "keyed_nodes_at A vt db f ((fst \<circ> snd) ` set (positions f 0 es))"
    unfolding keyed_nodes_at_def
  proof (intro allI impI)
    fix key t
    assume "trees vt db key = Some t"
    then obtain m where "index_rel A (store db) vt t m" using p(1) vt by (auto elim: keyed_index_tree)
    then show "at_offsets A t f ((fst \<circ> snd) ` set (positions f 0 es))" by (rule index_rel_at [OF db_relD(1) [OF p(1)] p(2,3)])
  qed
next
  fix db :: "('t, 's) LazyDB" and a f st'
  assume "db_rel A db a" "keyed_nodes_at A vt db f {}" "store_inv st'"
    "\<forall>t k v x. refers (store db) t k v x \<longrightarrow> (t = vt \<longrightarrow> v_fid v \<noteq> f) \<longrightarrow> refers st' t k v x"
  then show "db_rel A (db\<lparr>store := st'\<rparr>) a"
    using vt by (intro drop_rel [where vt = vt and f = f]) (auto simp: keyed_def keyed_nodes_at_def trees_def)
qed

end

interpretation rbt_merge_hash: merge_type rbt_art valueTypeHash "keyed_nodes_at rbt_art valueTypeHash" "keyed_item valueTypeHash"
  "\<lambda>a le. keyed_typed valueTypeHash a \<and> keyed_entry valueTypeHash a le"
  by (rule rbt_values.merge_keyed) (simp add: keyed_def)

interpretation rbt_merge_zset: merge_type rbt_art valueTypeZSet "keyed_nodes_at rbt_art valueTypeZSet" "keyed_item valueTypeZSet"
  "\<lambda>a le. keyed_typed valueTypeZSet a \<and> keyed_entry valueTypeZSet a le"
  by (rule rbt_values.merge_keyed) (simp add: keyed_def)

subsection \<open>The skip lists\<close>

text \<open>Compaction of any type, whatever its outcome, leaves the skip lists of the sorted sets as they are.\<close>

definition skls :: "('t, 's) LazyDB \<Rightarrow> bytes \<Rightarrow> 's option" where
  "skls db key = map_option z_skl (zSetIndex db key)"

lemma skls_store [simp]: "skls (db\<lparr>store := st\<rparr>) = skls db"
  by (simp add: skls_def fun_eq_iff)

lemma skls_entry: "skls (snd (merge_entry A vt f off le db)) = skls db"
  by (auto simp: fun_eq_iff skls_def merge_entry_def mergeStr_def mergeHash_def mergeSet_def mergeZSet_def mergeList_def
    option.map_comp comp_def split: valueType.split option.split prod.split)

lemma skls_file: "merge_file A clock vt lf off db = Some x \<Longrightarrow> skls (snd x) = skls db"
proof (rule merge_file.raw_induct [where P = "\<lambda>A clock vt lf off db x. skls (snd x) = skls db"])
  fix go A clock vt and lf :: LogFile and off and db :: "('a, 'b) LazyDB" and x
  assume IH: "\<And>A clock vt lf off db x. go A clock vt lf off db = Some x \<Longrightarrow> skls (snd x) = skls db"
    and x: "(case ReadLogEntry lf (files (store db)) off of
        Inl e \<Rightarrow> if e = EOF \<or> e = ErrLogEndOfFile then Some (Inr (), db) else Some (Inl e, db)
      | Inr (ent, siz) \<Rightarrow>
          if Stat ent = SDelete then go A clock vt lf (off + siz) db
          else if ExpiredAt ent \<noteq> 0 \<and> sint (ExpiredAt ent) \<le> sint (Unix (clock off))
          then go A clock vt lf (off + siz) db
          else (case merge_entry A vt (Fid lf) off ent db of
                  (Inl e, db') \<Rightarrow> Some (Inl e, db')
                | (Inr _, db') \<Rightarrow> go A clock vt lf (off + siz) db')) = Some x"
  show "skls (snd x) = skls db"
  proof (cases "ReadLogEntry lf (files (store db)) off")
    case (Inl e)
    then show ?thesis using x by (auto split: if_splits)
  next
    case (Inr p)
    obtain ent siz where p: "p = (ent, siz)" by (cases p)
    obtain r db1 where m: "merge_entry A vt (Fid lf) off ent db = (r, db1)" by (cases "merge_entry A vt (Fid lf) off ent db")
    then have "skls db1 = skls db" using skls_entry [of A vt "Fid lf" off ent db] by simp
    moreover have "x = (r, db1) \<or> go A clock vt lf (off + siz) db = Some x \<or> go A clock vt lf (off + siz) db1 = Some x"
      using x unfolding Inr p by (cases r) (auto simp: m split: if_splits)
    ultimately show ?thesis using IH by (metis snd_conv)
  qed
qed

lemma skls_files: "merge_files A clock vt fid ccl db = Some x \<Longrightarrow> skls (snd x) = skls db"
proof (induction ccl arbitrary: db)
  case (Cons f ccl)
  then show ?case
    by (fastforce split: sum.splits prod.splits if_splits option.splits dest: skls_file)
qed auto

lemma skls_Merge: "Merge A clock vt fid ratio db = Some (r, db') \<Longrightarrow> skls db' = skls db"
  by (auto simp: Merge_def split: sum.splits prod.splits dest!: skls_files)

subsection \<open>Properties\<close>

text \<open>
  C18. Merge of an archived file of hashes or sorted sets that is a candidate for compaction returns without an
  error, removes the file, and the database stands for the same contents, provided the entries of the file
  belong to hashes or sorted sets that are in the index; the skip lists of the sorted sets are the same.
\<close>

theorem Merge_keyed_refines:
  fixes db :: "('t, 's) LazyDB"
  assumes "art_engine A" and vt: "keyed vt" and rel: "db_rel A db a" and L: "logged (store db) vt L" "(fid, es) \<in> set L"
    and ar: "active (store db) vt = Some lfa" "candidate (discardsMap (store db) vt) (Fid lfa) ratio fid" "0 \<le> ratio"
    and cap: "capacity (store db) vt (Suc (length es))"
    and es: "\<forall>le \<in> set es. roomy le \<and> (Stat le \<noteq> SDelete \<longrightarrow> keyed_entry vt a le)" and typed: "keyed_typed vt a"
    and alive: "\<forall>key m k x off. imaps vt a key = Some m \<and> m k = Some x \<longrightarrow> snd x = 0 \<or> sint (Unix (clock off)) < sint (snd x)"
  shows "\<exists>db'. Merge A clock vt fid ratio db = Some (Inr (), db') \<and> db_rel A db' a \<and>
    contents (files (store db')) vt fid = None \<and> archived (store db') vt fid = None \<and> skls db' = skls db"
proof -
  have "\<forall>x off. keyed_item vt a x \<longrightarrow> snd x = 0 \<or> sint (Unix (clock off)) < sint (snd x)"
    using alive unfolding keyed_item_def by blast
  then obtain db' where "Merge A clock vt fid ratio db = Some (Inr (), db')" "db_rel A db' a"
    "contents (files (store db')) vt fid = None" "archived (store db') vt fid = None"
    using merge_type.Merge_rel [OF value_index.merge_keyed [OF value_index.intro [OF assms(1)] vt] rel L ar cap, of clock] es typed
    by blast
  then show ?thesis using skls_Merge by blast
qed

theorem Merge_keyed_refines_witness:
  "\<exists>(db :: ((bytes, Value_t) rbt, unit) LazyDB) db' c.
     contents (files (store db)) valueTypeHash 1 = Some c \<and> HGet rbt_art 0 [7] (replicate 20 1) db = Inr (Some [2]) \<and>
     Merge rbt_art (\<lambda>_. 0) valueTypeHash 1 (1/2) db = Some (Inr (), db') \<and>
     contents (files (store db')) valueTypeHash 1 = None \<and> HGet rbt_art 0 [7] (replicate 20 1) db' = Inr (Some [2])"
proof -
  let ?k = "encoded [7] (replicate 20 1)" and ?vt = valueTypeHash
  let ?e = "mk_entry ?k (Some [2])"
  let ?L = "[(1, [?e]), (2, [])] :: (u32 \<times> LogEntry list) list" and ?a = "empty_adb\<lparr>a_hash := [[7] \<mapsto> [?k \<mapsto> ([2], 0)]]\<rparr>"
  have "length ?k < 2 ^ 32 \<and> 20 \<le> length ?k"
    using length_PutVarint_10 [of 1] length_PutVarint_10 [of 20] by (simp add: encoded_def)
  then have e: "roomy ?e" "Stat ?e \<noteq> SDelete" using roomy_mk [of ?k "Some [2]"] by (auto simp: bs_def SDelete_def)
  obtain d where d: "discard_ok d" "2 < length (freeList d)" "\<forall>a. a \<noteq> 1 \<longrightarrow> candidate d a (1/2) 1"
    using half_discarded [of 1] by auto
  have rp: "replay (log_seq ?L) = [?k \<mapsto> ([2], 0)]" using e(2) replay_simps(2) [of "[]" 1 0 ?e] by (simp add: bs_def)
  have exp: "\<forall>k x. ([?k \<mapsto> ([2], 0)] :: imap) k = Some x \<longrightarrow> snd x = 0" by auto
  have "file_ok mx [?e]" for mx using file_ok_append [of mx "[]" ?e] e(1) by (auto simp: roomy_def)
  then obtain db :: "((bytes, Value_t) rbt, unit) LazyDB" where db: "db_rel rbt_art db ?a"
    "logged (store db) ?vt ?L" "discardsMap (store db) ?vt = d" "active (store db) ?vt = reopened_active ?vt ?L"
    using hash_db_exists [of ?L _ d "[7]"] d(1) exp unfolding rp by auto
  obtain lf where lf: "active (store db) ?vt = Some lf" "Fid lf = 2" using db(4) by (auto simp: reopened_active_def fresh_lf_def)
  have "capacity (store db) ?vt 2" using sample_capacity [OF lf(1)] lf(2) d(2) db(3) by simp
  then have "capacity (store db) ?vt (Suc (length [?e]))" by (simp add: numeral_2_eq_2)
  moreover have "keyed_typed ?vt ?a" "keyed_entry ?vt ?a ?e" by (auto simp: keyed_typed_def keyed_entry_def imaps_def empty_adb_def)
  moreover have "\<forall>key m k x off. imaps ?vt ?a key = Some m \<and> m k = Some x \<longrightarrow> snd x = 0 \<or> sint (Unix 0) < sint (snd x)"
    by (auto simp: imaps_def)
  moreover have "keyed ?vt" by (simp add: keyed_def)
  ultimately obtain db' where db': "Merge rbt_art (\<lambda>_. 0) ?vt 1 (1/2) db = Some (Inr (), db')" "db_rel rbt_art db' ?a"
    "contents (files (store db')) ?vt 1 = None"
    using Merge_keyed_refines [OF art_engine_rbt _ db(1,2) _ lf(1), of 1 "[?e]" "1/2" "\<lambda>_. 0"] lf(2) d(3) db(3) e(1) by auto
  have "HGet rbt_art 0 [7] (replicate 20 1) x = Inr (Some [2])" if "db_rel rbt_art x ?a" for x :: "((bytes, Value_t) rbt, unit) LazyDB"
    using rbt_values.HGet_rel [OF that, of "[7]" "replicate 20 1" "[]" 0] by (simp add: hash_of_def found_def live_def)
  then show ?thesis
    using db(1) db' stored_logD(1) [OF logged_stored [OF db(2)], of 1 "[?e]"] by auto
qed

end
