(* ===== verification/Merge_Session.thy ===== *)
theory Merge_Session
  imports Command_Runs Merge_Keyed
begin





subsection \<open>Properties\<close>



end
