(* ===== verification/Shutdown.thy ===== *)
theory Shutdown
  imports Reopen
begin

text \<open>
  \<open>Sync\<close>, \<open>Close\<close> and \<open>IsClosed\<close> of \<open>db.go\<close>.

  Flushing or closing a file that exists succeeds, so that the order in which Go walks through
  its maps does not matter for the result; the files of the discard tables are held open by the
  tables and their \<open>sync\<close> cannot fail. After \<open>Close\<close> every map of the store is nil and the
  channels of the discard tables are closed; what is on disk is unchanged, which is why the
  database can be opened again.
\<close>

subsection \<open>Operations\<close>

fun sync_all :: "LogFile list \<Rightarrow> fs \<Rightarrow> unit result" where
  "sync_all [] d = Inr ()"
| "sync_all (lf # lfs) d = (case LogFile_Sync lf d of Inl e \<Rightarrow> Inl e | Inr _ \<Rightarrow> sync_all lfs d)"

definition active_files :: "Store \<Rightarrow> LogFile list" where
  "active_files st = List.map_filter (active st) value_types"

definition Sync :: "Store \<Rightarrow> unit result" where
  "Sync st = sync_all (active_files st) (files st)"

fun close_all :: "LogFile list \<Rightarrow> fs \<Rightarrow> unit result" where
  "close_all [] d = Inr ()"
| "close_all (lf # lfs) d = (case LogFile_Close lf d of Inl e \<Rightarrow> Inl Fatal | Inr _ \<Rightarrow> close_all lfs d)"

text \<open>The archived files of one type, in the order of the ids; ids without a file are skipped.\<close>

fun archived_files :: "valueType \<Rightarrow> u32 list \<Rightarrow> Store \<Rightarrow> LogFile list result" where
  "archived_files vt [] st = Inr []"
| "archived_files vt (fid # fids) st =
     (case getArchivedLogFile vt fid st of
        Inl e \<Rightarrow> Inl e
      | Inr None \<Rightarrow> archived_files vt fids st
      | Inr (Some lf) \<Rightarrow> map_sum id (\<lambda>lfs. lf # lfs) (archived_files vt fids st))"

fun close_archived :: "valueType list \<Rightarrow> Store \<Rightarrow> unit result" where
  "close_archived [] st = Inr ()"
| "close_archived (vt # vts) st =
     (case fidsMap st of
        None \<Rightarrow> Inr ()
      | Some fm \<Rightarrow>
          (case archived_files vt (fm vt) st of
             Inl e \<Rightarrow> Inl e
           | Inr lfs \<Rightarrow> (case close_all lfs (files st) of Inl e \<Rightarrow> Inl e | Inr _ \<Rightarrow> close_archived vts st)))"

fun close_chans :: "valueType list \<Rightarrow> (valueType \<Rightarrow> discard) \<Rightarrow> unit result \<times> (valueType \<Rightarrow> discard)" where
  "close_chans [] ds = (Inr (), ds)"
| "close_chans (vt # vts) ds =
     (case chan_close (ds vt) of
        (Inl e, d) \<Rightarrow> (Inl e, ds(vt := d))
      | (Inr _, d) \<Rightarrow> close_chans vts (ds(vt := d)))"

definition Close :: "Store \<Rightarrow> unit result \<times> Store" where
  "Close st =
     (case close_all (active_files st) (files st) of
        Inl e \<Rightarrow> (Inl e, st)
      | Inr _ \<Rightarrow>
          (case close_archived value_types st of
             Inl e \<Rightarrow> (Inl e, st)
           | Inr _ \<Rightarrow>
               (case close_chans value_types (discardsMap st) of
                  (r, ds) \<Rightarrow> (r, st\<lparr>fidsMap := None, activeLogFileMap := None, archivedLogFile := None, discardsMap := ds\<rparr>))))"

subsection \<open>Closing\<close>

lemma close_all_ok: "\<forall>lf \<in> set lfs. LogFile_Close lf d = Inr () \<Longrightarrow> close_all lfs d = Inr ()"
  by (induction lfs) auto

lemma sync_all_ok: "\<forall>lf \<in> set lfs. LogFile_Sync lf d = Inr () \<Longrightarrow> sync_all lfs d = Inr ()"
  by (induction lfs) auto

lemma lf_ok_close: "lf_ok mx d vt lf \<Longrightarrow> LogFile_Close lf d = Inr ()" "lf_ok mx d vt lf \<Longrightarrow> LogFile_Sync lf d = Inr ()"
  by (auto simp: lf_ok_def LogFile_Close_def IO_Close_def LogFile_Sync_def IO_Sync_def contents_def)

lemma open_files_ok:
  assumes "base_inv st"
  shows "active st vt = Some lf \<Longrightarrow> lf_ok (MaxLogFileSize (cfg st)) (files st) vt lf"
    "archived st vt f = Some lf \<Longrightarrow> lf_ok (MaxLogFileSize (cfg st)) (files st) vt lf"
proof -
  have "type_inv (MaxLogFileSize (cfg st)) (files st) vt (active st vt) (archived st vt)"
    using assms by (simp add: base_inv_def)
  then show "active st vt = Some lf \<Longrightarrow> lf_ok (MaxLogFileSize (cfg st)) (files st) vt lf"
    "archived st vt f = Some lf \<Longrightarrow> lf_ok (MaxLogFileSize (cfg st)) (files st) vt lf"
    by (auto simp: type_inv_def split: option.splits)
qed

lemma archived_files_ok:
  assumes "base_inv st"
  shows "\<exists>lfs. archived_files vt fids st = Inr lfs \<and> (\<forall>lf \<in> set lfs. LogFile_Close lf (files st) = Inr ())"
proof (induction fids)
  case (Cons f fids)
  obtain ar where ar: "archivedLogFile st = Some ar" "\<And>t. cm_wf (ar t)" using assms by (auto simp: base_inv_def is_open_def)
  then have "getArchivedLogFile vt f st = Inr (archived st vt f)"
    by (simp add: getArchivedLogFile_def cm.get_view archived_def)
  then show ?case
    using Cons lf_ok_close(1) [OF open_files_ok(2) [OF assms]] by (cases "archived st vt f") auto
qed simp

lemma close_archived_ok: "base_inv st \<Longrightarrow> close_archived vts st = Inr ()"
proof (induction vts)
  case (Cons vt vts)
  show ?case
  proof (cases "fidsMap st")
    case (Some fm)
    then show ?thesis using Cons archived_files_ok [OF Cons.prems, of vt "fm vt"] by (auto simp: close_all_ok)
  qed simp
qed simp

lemma active_files_ok: "base_inv st \<Longrightarrow> lf \<in> set (active_files st) \<Longrightarrow> \<exists>vt. lf_ok (MaxLogFileSize (cfg st)) (files st) vt lf"
  using open_files_ok(1) [of st _ lf] unfolding active_files_def List.map_filter_def by fastforce

lemma close_chans_ok:
  "distinct vts \<Longrightarrow> \<forall>vt \<in> set vts. \<not> chanClosed (ds vt) \<Longrightarrow>
     close_chans vts ds = (Inr (), \<lambda>vt. if vt \<in> set vts then (ds vt)\<lparr>chanClosed := True\<rparr> else ds vt)"
  by (induction vts arbitrary: ds) (auto simp: chan_close_def fun_eq_iff)

lemma Close_result:
  assumes "base_inv st" "\<forall>vt. \<not> chanClosed (discardsMap st vt)"
  shows "Close st = (Inr (), st\<lparr>fidsMap := None, activeLogFileMap := None, archivedLogFile := None,
    discardsMap := (\<lambda>vt. (discardsMap st vt)\<lparr>chanClosed := True\<rparr>)\<rparr>)"
proof -
  have "close_all (active_files st) (files st) = Inr ()"
    using active_files_ok [OF assms(1)] lf_ok_close(1) by (intro close_all_ok) blast
  then show ?thesis
    using close_archived_ok [OF assms(1)] close_chans_ok [of value_types "discardsMap st"] assms(2) value_types_all
    by (simp add: Close_def)
qed

lemma Sync_result: "base_inv st \<Longrightarrow> Sync st = Inr ()"
  unfolding Sync_def using active_files_ok lf_ok_close(2) by (intro sync_all_ok) blast

subsection \<open>Properties\<close>

text \<open>
  C19. Close ends a session and loses nothing that the string log holds. On an open database without a hash entry in
  its log, whose string log gives its strings (\<open>durable\<close>), it succeeds, leaves the files as they are and the
  database closed, and a database opened on these files answers every Get as the closed one did. A
  second Close panics, because the channels of the discard tables are closed already. (With a hash
  entry in the log the second half fails: Open panics.)
\<close>

theorem Close_reopens:
  fixes db :: "('t, 's) LazyDB"
  assumes "art_engine A" and rel: "db_rel A db a" and dur: "durable db a" and dir: "dir_ok dir (files (store db))"
    and hash: "log_view (store db) valueTypeHash []" and chan: "\<forall>vt. \<not> chanClosed (discardsMap (store db) vt)"
  shows "\<exists>st. Sync (store db) = Inr () \<and> Close (store db) = (Inr (), st) \<and> IsClosed st \<and> files st = files (store db) \<and>
    fst (Close st) = Inl Panic \<and>
    (\<exists>db' :: ('t, 's) LazyDB. Open A (cfg st) dir (files st) (\<lambda>vt. Some (d_file (discardsMap st vt))) = Inr db' \<and>
       (\<forall>now k. Get A now k db' = Get A now k db))"
proof -
  note vi = value_index.intro [OF assms(1)]
  have b: "base_inv (store db)" using db_relD(1) [OF rel] by (simp add: store_inv_def)
  define st where "st = (store db)\<lparr>fidsMap := None, activeLogFileMap := None, archivedLogFile := None,
    discardsMap := (\<lambda>vt. (discardsMap (store db) vt)\<lparr>chanClosed := True\<rparr>)\<rparr>"
  have c: "Close (store db) = (Inr (), st)" unfolding st_def by (rule Close_result [OF b chan])
  have "fst (Close st) = Inl Panic"
    by (simp add: Close_def active_files_def List.map_filter_def active_def value_types_def st_def chan_close_def)
  moreover have "IsClosed st" "files st = files (store db)" "cfg st = cfg (store db)"
    "(\<lambda>vt. Some (d_file (discardsMap st vt))) = (\<lambda>vt. Some (d_file (discardsMap (store db) vt)))"
    by (simp_all add: st_def IsClosed_def)
  moreover have "Get A now k db = lookup_item (Unix now) (a_str a) k" for now k
    using value_index.str_get_rel [OF vi rel] by (simp add: Get_def)
  ultimately show ?thesis
    using c Sync_result [OF b] value_index.Open_rel [OF vi db_relD(1) [OF rel] dur dir hash] by auto
qed

theorem Close_reopens_witness:
  "\<exists>(db :: ((bytes, Value_t) rbt, unit) LazyDB) st dir (db' :: ((bytes, Value_t) rbt, unit) LazyDB).
     Get rbt_art 0 (replicate 20 1) db = Inr (Some [2]) \<and> Close (store db) = (Inr (), st) \<and>
     Open rbt_art (cfg st) dir (files st) (\<lambda>vt. Some (d_file (discardsMap st vt))) = Inr db' \<and>
     Get rbt_art 0 (replicate 20 1) db' = Inr (Some [2])"
proof -
  let ?e = "mk_entry (replicate 20 1) (Some [2])" and ?vt = valueTypeString
  let ?L = "[(1, [?e])] :: (u32 \<times> LogEntry list) list" and ?a = "empty_adb\<lparr>a_str := [replicate 20 1 \<mapsto> ([2], 0)]\<rparr>"
  have e: "roomy ?e" "Stat ?e \<noteq> SDelete" using roomy_mk [of "replicate 20 1" "Some [2]"] by (simp_all add: bs_def SDelete_def)
  have rp: "replay (log_seq ?L) = [replicate 20 1 \<mapsto> ([2], 0)]" using e(2) replay_simps(2) [of "[]" 1 0 ?e] by (simp add: bs_def)
  have exp: "\<forall>k x. ([replicate 20 1 \<mapsto> ([2], 0)] :: imap) k = Some x \<longrightarrow> snd x = 0" by auto
  have "file_ok mx [?e]" for mx using file_ok_append [of mx "[]" ?e] e(1) by (auto simp: roomy_def)
  then obtain db :: "((bytes, Value_t) rbt, unit) LazyDB" where db: "db_rel rbt_art db ?a" "logged (store db) ?vt ?L"
    "log_view (store db) valueTypeHash []" "discardsMap (store db) = (\<lambda>_. fresh_discard 8)(?vt := fresh_discard 8)"
    using string_db_exists [of ?L _ "fresh_discard 8"] exp unfolding rp by auto
  have "durable db ?a" using db(2) rp unfolding durable_def log_view_def by auto
  moreover obtain dir where "dir_ok dir (files (store db))"
    using store_inv_log [OF db_relD(1) [OF db(1)]] dir_exists by metis
  moreover have "\<forall>vt. \<not> chanClosed (discardsMap (store db) vt)" using db(4) by simp
  moreover have "Get rbt_art 0 (replicate 20 1) db = Inr (Some [2])"
    using rbt_values.str_get_rel [OF db(1)] by (simp add: Get_def lookup_item_def live_def)
  ultimately show ?thesis using Close_reopens [OF art_engine_rbt db(1) _ _ db(3)] by metis
qed

text \<open>
  A closed database is not protected against use: every write to the log and every read
  from it ends the process, by a nil pointer or map or by log.Fatal. None returns an error.
\<close>

theorem closed_crashes:
  assumes "IsClosed st"
  shows "fst (writeLogEntry vt le st) \<in> {Inl Panic, Inl Fatal} \<and> readLogEntry vt f off st = Inl Panic"
  using assms
  by (auto simp: IsClosed_def writeLogEntry_def getActiveLogFile_def readLogEntry_def active_def split: sum.splits prod.splits)

theorem closed_crashes_witness:
  "fst (writeLogEntry valueTypeString (mk_entry [1] (Some [2])) (snd (Close (store sample_db)))) \<in> {Inl Panic, Inl Fatal}"
proof -
  have "base_inv (store sample_db)" using db_relD(1) [OF sample_db_rel] by (simp add: store_inv_def)
  then have "Close (store sample_db) = (Inr (), (store sample_db)\<lparr>fidsMap := None, activeLogFileMap := None, archivedLogFile := None,
    discardsMap := (\<lambda>vt. (discardsMap (store sample_db) vt)\<lparr>chanClosed := True\<rparr>)\<rparr>)"
    by (rule Close_result) (simp add: sample_db_def new_db_def)
  then have "IsClosed (snd (Close (store sample_db)))" by (simp add: IsClosed_def)
  then show ?thesis using closed_crashes by blast
qed

end
