(* ===== verification/Open_Dir.thy ===== *)
theory Open_Dir
  imports Reopen
begin

text \<open>
  The directories of a database: \<open>PathExist\<close> of \<open>util/file.go\<close>, and the parts of \<open>Open\<close> and
  \<open>initDiscard\<close> (\<open>db.go\<close>) that make the directory of the database and of the discard tables before
  anything is read. The other theories name a file by its name within its directory; here are the
  paths: \<open>path.Clean\<close> and \<open>path.Join\<close> of the Go library, and that joining a directory with the names
  the program uses keeps different names apart.

  The system calls \<open>os.Stat\<close> and \<open>os.MkdirAll\<close> are arguments over a state of the system; the lemmas on
  what they leave behind have their documented effects as hypotheses.
\<close>

subsection \<open>Paths\<close>

text \<open>
  \<open>path.Clean\<close> (\<open>filepath.Clean\<close> does the same where the separator is a slash): empty elements and dots
  go, two dots remove the element before them, at the root they go too. The stack has the elements
  that remain, the last one first.
\<close>

definition clean_elem :: "bool \<Rightarrow> bytes list \<Rightarrow> bytes \<Rightarrow> bytes list" where
  "clean_elem rooted stack e =
     (if e = [] \<or> e = str ''.'' then stack
      else if e = str ''..'' then
        (case stack of
           [] \<Rightarrow> if rooted then [] else [e]
         | d # rest \<Rightarrow> if d = str ''..'' then e # stack else rest)
      else e # stack)"

definition slashes :: "bytes list \<Rightarrow> bytes" where
  "slashes es = (case es of [] \<Rightarrow> [] | e # es \<Rightarrow> e @ concat (map (\<lambda>x. 47 # x) es))"

definition Clean :: "bytes \<Rightarrow> bytes" where
  "Clean p =
     (let rooted = (take 1 p = [47]);
          out = slashes (rev (foldl (clean_elem rooted) [] (split_on 47 p)))
      in if rooted then 47 # out else if out = [] then str ''.'' else out)"

definition Join :: "bytes list \<Rightarrow> bytes" where
  "Join es = (case dropWhile (\<lambda>e. e = []) es of [] \<Rightarrow> [] | es' \<Rightarrow> Clean (slashes es'))"

subsection \<open>Operations\<close>

definition discardFilePath :: bytes where
  "discardFilePath = str ''DISCARD''"

definition discard_name :: "valueType \<Rightarrow> bytes" where
  "discard_name vt = (case FileNamesMap (FType vt) of None \<Rightarrow> [] | Some p \<Rightarrow> p) @ str ''discard''"

text \<open>The calls of the operating system: \<open>None\<close> is success.\<close>

record 'o dir_calls =
  os_Stat :: "bytes \<Rightarrow> 'o \<Rightarrow> err option"
  os_MkdirAll :: "bytes \<Rightarrow> 'o \<Rightarrow> err option \<times> 'o"

definition PathExist :: "'o dir_calls \<Rightarrow> bytes \<Rightarrow> 'o \<Rightarrow> bool" where
  "PathExist D path s \<longleftrightarrow> (case os_Stat D path s of Some e \<Rightarrow> False | None \<Rightarrow> True)"

definition make_dir :: "'o dir_calls \<Rightarrow> bytes \<Rightarrow> 'o \<Rightarrow> err option \<times> 'o" where
  "make_dir D path s = (if \<not> PathExist D path s then os_MkdirAll D path s else (None, s))"

text \<open>
  \<open>Open\<close> with its directories. \<open>dir\<close> is the listing of the directory, \<open>pfs\<close> the files by their paths.
\<close>

definition Open_path ::
    "'o dir_calls \<Rightarrow> ('t, Value_t) art \<Rightarrow> DBConfig \<Rightarrow> bytes list \<Rightarrow> (bytes \<Rightarrow> bytes option) \<Rightarrow> 'o
       \<Rightarrow> ('t, 's) LazyDB result \<times> 'o" where
  "Open_path D A c dir pfs s =
     (case make_dir D (DBPath c) s of
        (Some e, s1) \<Rightarrow> (Inl Fatal, s1)
      | (None, s1) \<Rightarrow>
          (let discardPath = Join [DBPath c, discardFilePath]
           in case make_dir D discardPath s1 of
                (Some e, s2) \<Rightarrow> (Inl Fatal, s2)
              | (None, s2) \<Rightarrow>
                  (Open A c dir (\<lambda>name. pfs (Join [DBPath c, name])) (\<lambda>vt. pfs (Join [discardPath, discard_name vt])), s2)))"

subsection \<open>Joining a directory and a name\<close>

definition plain :: "bytes \<Rightarrow> bool" where
  "plain n \<longleftrightarrow> 47 \<notin> set n \<and> n \<notin> {[], str ''.'', str ''..''}"

lemma split_on_plain: "s \<notin> set n \<Longrightarrow> split_on s n = [n]"
  by (induction n) auto

lemma split_on_nonempty: "split_on s p \<noteq> []"
  by (induction p) (auto split: list.split)

lemma split_on_append: "s \<notin> set n \<Longrightarrow> split_on s (p @ s # n) = split_on s p @ [n]"
  using split_on_nonempty by (induction p) (auto simp: split_on_plain split: list.split)

lemma clean_elem_plain: "plain n \<Longrightarrow> clean_elem rooted stack n = n # stack"
  by (auto simp: plain_def clean_elem_def)

lemma slashes_snoc: "slashes (es @ [n]) = (if es = [] then [] else slashes es @ [47]) @ n"
  by (cases es) (simp_all add: slashes_def)

text \<open>The path of a name in a directory is the name after a prefix that depends on the directory only.\<close>

definition dir_prefix :: "bytes \<Rightarrow> bytes" where
  "dir_prefix p =
     (if p = [] then []
      else let rooted = (take 1 p = [47]); out = rev (foldl (clean_elem rooted) [] (split_on 47 p))
           in (if rooted then [47] else []) @ (if out = [] then [] else slashes out @ [47]))"

lemma Join_name:
  assumes "plain n"
  shows "Join [p, n] = dir_prefix p @ n"
proof -
  have n: "n \<noteq> []" "47 \<notin> set n" using assms by (simp_all add: plain_def)
  show ?thesis
  proof (cases "p = []")
    case True
    then have "Join [p, n] = Clean n" using n by (simp add: Join_def slashes_def)
    moreover have "take 1 n \<noteq> [47]" using n by (cases n) auto
    ultimately show ?thesis
      using True n assms by (simp add: Clean_def split_on_plain clean_elem_plain dir_prefix_def) (simp add: slashes_def)
  next
    case False
    then have "Join [p, n] = Clean (p @ 47 # n)" by (simp add: Join_def slashes_def)
    moreover have "take 1 (p @ 47 # n) = take 1 p" using False by (cases p) simp_all
    ultimately show ?thesis
      using False n assms by (simp add: Clean_def Let_def split_on_append clean_elem_plain slashes_snoc dir_prefix_def)
  qed
qed

lemma Join_inj:
  assumes "plain n" "plain n'"
  shows "Join [p, n] = Join [p, n'] \<longleftrightarrow> n = n'"
  using assms by (simp add: Join_name)

lemma log_name_plain:
  assumes "FileNamesMap t \<noteq> None"
  shows "plain (log_name t f)"
proof -
  obtain p where p: "FileNamesMap t = Some p" using assms by auto
  have d: "47 \<notin> set (digits n)" for n using digits_all [of n] by (auto simp: list_all_iff is_digit_def)
  have "3 \<le> length p" "47 \<notin> set p" using p by (auto simp: FileNamesMap_def str_def split: if_splits)
  moreover from this(1) have "n \<notin> {[], str ''.'', str ''..''}" if "length p \<le> length n" for n using that by (auto simp: str_def)
  ultimately show ?thesis using d by (auto simp: plain_def log_name_def p fmt_08d_def Let_def)
qed

lemma discard_name_plain: "plain (discard_name vt)" "discard_name vt = discard_name vt' \<longleftrightarrow> vt = vt'"
  by (cases vt; simp add: discard_name_def FileNamesMap_def plain_def str_def)
    (cases vt; cases vt'; simp add: discard_name_def FileNamesMap_def str_def)

text \<open>The files of a database have different paths: its log files, and the files of its discard tables.\<close>

lemma log_path_inj:
  "Join [p, log_name (FType vt) f] = Join [p, log_name (FType vt') f'] \<longleftrightarrow> vt = vt' \<and> f = f'"
  "Join [p, discard_name vt] = Join [p, discard_name vt'] \<longleftrightarrow> vt = vt'"
  using log_name_plain [of "FType vt" f] log_name_plain [of "FType vt'" f'] discard_name_plain
  by (auto simp: Join_inj log_name_inj)

lemma log_path_not_discard: "Join [p, log_name (FType vt) f] \<noteq> Join [p, discardFilePath]"
proof -
  have "plain discardFilePath" "take 1 discardFilePath \<noteq> take 1 (log_name (FType vt) f)"
    by (simp_all add: plain_def discardFilePath_def str_def)
      (cases vt; simp add: log_name_def FileNamesMap_def str_def)
  then show ?thesis using log_name_plain [of "FType vt" f] by (auto simp: Join_inj)
qed

subsection \<open>The directories are made once\<close>

text \<open>What \<open>os.MkdirAll\<close> promises: afterwards the directory is there, and what was there still is.\<close>

locale dir_os =
  fixes D :: "'o dir_calls"
  assumes mkdir_makes: "os_MkdirAll D p s = (None, s') \<Longrightarrow> os_Stat D p s' = None"
    and mkdir_keeps: "os_MkdirAll D p s = (r, s') \<Longrightarrow> os_Stat D q s = None \<Longrightarrow> os_Stat D q s' = None"
begin

lemma make_dir_exists:
  assumes "make_dir D p s = (None, s')"
  shows "PathExist D p s'" "PathExist D q s \<Longrightarrow> PathExist D q s'"
  using assms mkdir_makes mkdir_keeps by (auto simp: make_dir_def PathExist_def split: if_splits option.splits)

lemma make_dir_again: "PathExist D p s \<Longrightarrow> make_dir D p s = (None, s)"
  by (simp add: make_dir_def)

lemma Open_path_exists:
  assumes "Open_path D A c dir pfs s = (Inr db, s')"
  shows "PathExist D (DBPath c) s'" "PathExist D (Join [DBPath c, discardFilePath]) s'"
    "\<And>q. PathExist D q s \<Longrightarrow> PathExist D q s'"
  using assms make_dir_exists by (fastforce simp: Open_path_def Let_def split: prod.splits option.splits)+

lemma Open_path_again:
  assumes "PathExist D (DBPath c) s" "PathExist D (Join [DBPath c, discardFilePath]) s"
  shows "Open_path D A c dir pfs s =
    (Open A c dir (\<lambda>name. pfs (Join [DBPath c, name]))
       (\<lambda>vt. pfs (Join [Join [DBPath c, discardFilePath], discard_name vt])), s)"
  using assms make_dir_again by (simp add: Open_path_def Let_def)

end

text \<open>A system that has a list of directories and makes them on demand.\<close>

definition dir_list :: "bytes list dir_calls" where
  "dir_list = \<lparr>os_Stat = (\<lambda>p s. if p \<in> set s then None else Some EOF), os_MkdirAll = (\<lambda>p s. (None, p # s))\<rparr>"

interpretation listed_dirs: dir_os dir_list
  by unfold_locales (auto simp: dir_list_def split: if_splits)

text \<open>
  Opening a database where no directory can be made ends the process before a file is read.
\<close>

lemma Open_path_Fatal:
  assumes "\<not> PathExist D (DBPath c) s" "os_MkdirAll D (DBPath c) s = (Some e, s')"
  shows "Open_path D A c dir pfs s = (Inl Fatal, s')"
  using assms by (simp add: Open_path_def make_dir_def)

text \<open>
  Opening a database makes the directories it needs and no others disappear: both exist
  afterwards, and opening it again from there makes nothing and gives what \<open>Open\<close> gives for the files.
\<close>

theorem Open_path_reopens:
  fixes db :: "('t, 's) LazyDB"
  assumes os: "dir_os D" and o: "Open_path D A c dir pfs s = (Inr db, s')"
  shows "PathExist D (DBPath c) s' \<and> PathExist D (Join [DBPath c, discardFilePath]) s' \<and>
    Open_path D A c dir' pfs' s' =
      (Open A c dir' (\<lambda>name. pfs' (Join [DBPath c, name]))
         (\<lambda>vt. pfs' (Join [Join [DBPath c, discardFilePath], discard_name vt])) :: ('t, 's) LazyDB result, s')"
proof -
  note e = dir_os.Open_path_exists [OF os o]
  from dir_os.Open_path_again [OF os e(1,2)] e(1,2) show ?thesis by simp
qed

end
